(* ===== verification/Prelude.thy ===== *)
theory Prelude
  imports Main "HOL-Library.Monad_Syntax" "HOL-Library.Word"
begin

text \<open>
  Shared vocabulary of the development: C pointers, the reading of a failed
  dereference as \<open>None\<close>, 32-bit words, and the generic facts on lists that the
  pointer structures of \<open>lib/list.h\<close> need.

  A C pointer to an object of the program is \<open>NULL\<close> or \<open>Ref n\<close>, where \<open>n\<close> names
  the object.  A function of the source that reads or writes memory is a function
  into \<open>option\<close>: \<open>None\<close> is the run that dereferences a NULL pointer (or does not
  return), so a theorem with conclusion \<open>f s = Some t\<close> says that \<open>f\<close> returns
  and never follows a NULL pointer.
\<close>

section \<open>Words and pointers\<close>

unbundle bit_operations_syntax

type_synonym u32 = "32 word"

datatype 'n ptr = NULL | Ref 'n

primrec deref :: "'n ptr \<Rightarrow> 'n option" where
  "deref NULL = None"
| "deref (Ref n) = Some n"

lemma ptr_not_NULL_iff [simp]: "(p \<noteq> NULL) = (\<exists>n. p = Ref n)"
  by (cases p) auto

lemma deref_eq_Some_iff [simp]: "(deref p = Some n) = (p = Ref n)"
  by (cases p) auto

lemma deref_eq_None_iff [simp]: "(deref p = None) = (p = NULL)"
  by (cases p) auto

section \<open>Collections of facts\<close>

named_theorems device_regs \<open>addresses of the device registers\<close>
named_theorems interrupt_lines \<open>bits of the cause register\<close>

section \<open>Lists\<close>

lemma butlast_last_split: "xs \<noteq> [] \<Longrightarrow> \<exists>ys y. xs = ys @ [y]"
  by (metis append_butlast_last_id)

lemma in_set_tlD: "x \<in> set (tl xs) \<Longrightarrow> x \<in> set xs"
  by (cases xs) auto

lemma removeAll_split:
  assumes "distinct (us @ e # vs)"
  shows "removeAll e (us @ e # vs) = us @ vs"
  using assms by (simp add: removeAll_id)

lemma in_set_split_distinct:
  assumes "e \<in> set xs" "distinct xs"
  obtains us vs where "xs = us @ e # vs" "e \<notin> set us" "e \<notin> set vs"
  using assms by (metis distinct.simps(2) distinct_append in_set_conv_decomp_first not_distinct_conv_prefix)

section \<open>Loops over lists\<close>

text \<open>
  The body of a loop run over the entries of a list.  A loop macro over a ring whose
  body leaves the list pointers alone is this recursion on the ring's entries; in
  particular it returns.
\<close>

fun for_entries :: "('n ptr \<Rightarrow> 's \<Rightarrow> (bool \<times> 's) option) \<Rightarrow> 'n list \<Rightarrow> 's \<Rightarrow> 's option" where
  "for_entries body [] s = Some s"
| "for_entries body (x # xs) s = do {
     (brk, s') \<leftarrow> body (Ref x) s;
     if brk then Some s' else for_entries body xs s'
   }"

text \<open>A loop that only looks for an entry, and leaves at the first match.\<close>

lemma for_entries_find:
  assumes "\<And>x s. body (Ref x) s = Some (if P x then (True, f x s) else (False, s))"
  shows "for_entries body xs s = Some (case List.find P xs of None \<Rightarrow> s | Some x \<Rightarrow> f x s)"
  by (induction xs) (auto simp: assms)

text \<open>A counting loop \<open>for (i = 0; i < n; i++)\<close>.\<close>

fun for_upto :: "nat \<Rightarrow> (nat \<Rightarrow> 's \<Rightarrow> 's option) \<Rightarrow> 's \<Rightarrow> 's option" where
  "for_upto 0 body s = Some s"
| "for_upto (Suc n) body s = do { s \<leftarrow> for_upto n body s; body n s }"

lemma for_upto_invariant:
  assumes "P 0 s" "\<And>i t. i < n \<Longrightarrow> P i t \<Longrightarrow> \<exists>t'. body i t = Some t' \<and> P (Suc i) t'"
  shows "\<exists>t. for_upto n body s = Some t \<and> P n t"
  using assms(2)
proof (induction n)
  case 0
  then show ?case using assms(1) by simp
next
  case (Suc n)
  then obtain t where "for_upto n body s = Some t" "P n t" by fastforce
  with Suc.prems [of n t] show ?case by auto
qed

lemma for_upto_states:
  assumes "\<And>i. i < n \<Longrightarrow> body i (f i) = Some (f (Suc i))"
  shows "for_upto n body (f 0) = Some (f n)"
  using assms by (induction n) simp_all

end
