(* ===== verification/Klist.thy ===== *)
theory Klist
  imports Prelude
begin

text \<open>
  The circular doubly linked lists of \<open>lib/list.h\<close>, on an explicit store of
  \<open>struct list_head\<close> nodes: a node is named by a value of type \<open>'n\<close> and the store
  maps it to its \<open>next\<close> and \<open>prev\<close> pointers.
\<close>

section \<open>The store of list nodes\<close>

record 'n lheap =
  nxt :: "'n \<Rightarrow> 'n ptr"
  prv :: "'n \<Rightarrow> 'n ptr"

fun get_next :: "'n ptr \<Rightarrow> 'n lheap \<Rightarrow> 'n ptr option" where
  "get_next NULL h = None"
| "get_next (Ref n) h = Some (nxt h n)"

fun get_prev :: "'n ptr \<Rightarrow> 'n lheap \<Rightarrow> 'n ptr option" where
  "get_prev NULL h = None"
| "get_prev (Ref n) h = Some (prv h n)"

fun set_next :: "'n ptr \<Rightarrow> 'n ptr \<Rightarrow> 'n lheap \<Rightarrow> 'n lheap option" where
  "set_next NULL v h = None"
| "set_next (Ref n) v h = Some (h\<lparr>nxt := (nxt h)(n := v)\<rparr>)"

fun set_prev :: "'n ptr \<Rightarrow> 'n ptr \<Rightarrow> 'n lheap \<Rightarrow> 'n lheap option" where
  "set_prev NULL v h = None"
| "set_prev (Ref n) v h = Some (h\<lparr>prv := (prv h)(n := v)\<rparr>)"

section \<open>The operations of lib/list.h\<close>

definition INIT_LIST_HEAD :: "'n ptr \<Rightarrow> 'n lheap \<Rightarrow> 'n lheap option" where
  "INIT_LIST_HEAD list h = do {
     h \<leftarrow> set_next list list h;
     set_prev list list h
   }"

definition list_add_valid :: "'n ptr \<Rightarrow> 'n ptr \<Rightarrow> 'n ptr \<Rightarrow> bool" where
  "list_add_valid new prev next = True"

definition list_del_entry_valid :: "'n ptr \<Rightarrow> bool" where
  "list_del_entry_valid entry = True"

definition raw_list_add :: "'n ptr \<Rightarrow> 'n ptr \<Rightarrow> 'n ptr \<Rightarrow> 'n lheap \<Rightarrow> 'n lheap option" where
  "raw_list_add new prev next h =
     (if \<not> list_add_valid new prev next then Some h
      else do {
        h \<leftarrow> set_prev next new h;
        h \<leftarrow> set_next new next h;
        h \<leftarrow> set_prev new prev h;
        set_next prev new h
      })"

definition list_add :: "'n ptr \<Rightarrow> 'n ptr \<Rightarrow> 'n lheap \<Rightarrow> 'n lheap option" where
  "list_add new head h = do {
     n \<leftarrow> get_next head h;
     raw_list_add new head n h
   }"

definition list_add_tail :: "'n ptr \<Rightarrow> 'n ptr \<Rightarrow> 'n lheap \<Rightarrow> 'n lheap option" where
  "list_add_tail new head h = do {
     p \<leftarrow> get_prev head h;
     raw_list_add new p head h
   }"

definition raw_list_del :: "'n ptr \<Rightarrow> 'n ptr \<Rightarrow> 'n lheap \<Rightarrow> 'n lheap option" where
  "raw_list_del prev next h = do {
     h \<leftarrow> set_prev next prev h;
     set_next prev next h
   }"

definition raw_list_del_clearprev :: "'n ptr \<Rightarrow> 'n lheap \<Rightarrow> 'n lheap option" where
  "raw_list_del_clearprev entry h = do {
     p \<leftarrow> get_prev entry h;
     n \<leftarrow> get_next entry h;
     h \<leftarrow> raw_list_del p n h;
     set_prev entry NULL h
   }"

definition raw_list_del_entry :: "'n ptr \<Rightarrow> 'n lheap \<Rightarrow> 'n lheap option" where
  "raw_list_del_entry entry h =
     (if \<not> list_del_entry_valid entry then Some h
      else do {
        p \<leftarrow> get_prev entry h;
        n \<leftarrow> get_next entry h;
        raw_list_del p n h
      })"

definition list_del :: "'n ptr \<Rightarrow> 'n lheap \<Rightarrow> 'n lheap option" where
  "list_del entry h = do {
     h \<leftarrow> raw_list_del_entry entry h;
     h \<leftarrow> set_next entry NULL h;
     set_prev entry NULL h
   }"

definition list_replace :: "'n ptr \<Rightarrow> 'n ptr \<Rightarrow> 'n lheap \<Rightarrow> 'n lheap option" where
  "list_replace old new h = do {
     n \<leftarrow> get_next old h;
     h \<leftarrow> set_next new n h;
     n' \<leftarrow> get_next new h;
     h \<leftarrow> set_prev n' new h;
     p \<leftarrow> get_prev old h;
     h \<leftarrow> set_prev new p h;
     p' \<leftarrow> get_prev new h;
     set_next p' new h
   }"

definition list_replace_init :: "'n ptr \<Rightarrow> 'n ptr \<Rightarrow> 'n lheap \<Rightarrow> 'n lheap option" where
  "list_replace_init old new h = do {
     h \<leftarrow> list_replace old new h;
     INIT_LIST_HEAD old h
   }"

definition list_swap :: "'n ptr \<Rightarrow> 'n ptr \<Rightarrow> 'n lheap \<Rightarrow> 'n lheap option" where
  "list_swap entry1 entry2 h = do {
     pos \<leftarrow> get_prev entry2 h;
     h \<leftarrow> list_del entry2 h;
     h \<leftarrow> list_replace entry1 entry2 h;
     list_add entry1 (if pos = entry1 then entry2 else pos) h
   }"

definition list_del_init :: "'n ptr \<Rightarrow> 'n lheap \<Rightarrow> 'n lheap option" where
  "list_del_init entry h = do {
     h \<leftarrow> raw_list_del_entry entry h;
     INIT_LIST_HEAD entry h
   }"

definition list_move :: "'n ptr \<Rightarrow> 'n ptr \<Rightarrow> 'n lheap \<Rightarrow> 'n lheap option" where
  "list_move list head h = do {
     h \<leftarrow> raw_list_del_entry list h;
     list_add list head h
   }"

definition list_move_tail :: "'n ptr \<Rightarrow> 'n ptr \<Rightarrow> 'n lheap \<Rightarrow> 'n lheap option" where
  "list_move_tail list head h = do {
     h \<leftarrow> raw_list_del_entry list h;
     list_add_tail list head h
   }"

definition list_bulk_move_tail ::
  "'n ptr \<Rightarrow> 'n ptr \<Rightarrow> 'n ptr \<Rightarrow> 'n lheap \<Rightarrow> 'n lheap option" where
  "list_bulk_move_tail head first last' h = do {
     fp \<leftarrow> get_prev first h;
     ln \<leftarrow> get_next last' h;
     h \<leftarrow> set_next fp ln h;
     ln \<leftarrow> get_next last' h;
     fp \<leftarrow> get_prev first h;
     h \<leftarrow> set_prev ln fp h;
     hp \<leftarrow> get_prev head h;
     h \<leftarrow> set_next hp first h;
     hp \<leftarrow> get_prev head h;
     h \<leftarrow> set_prev first hp h;
     h \<leftarrow> set_next last' head h;
     set_prev head last' h
   }"

definition list_is_first :: "'n ptr \<Rightarrow> 'n ptr \<Rightarrow> 'n lheap \<Rightarrow> bool option" where
  "list_is_first list head h = do { p \<leftarrow> get_prev list h; Some (p = head) }"

definition list_is_last :: "'n ptr \<Rightarrow> 'n ptr \<Rightarrow> 'n lheap \<Rightarrow> bool option" where
  "list_is_last list head h = do { n \<leftarrow> get_next list h; Some (n = head) }"

definition list_is_head :: "'n ptr \<Rightarrow> 'n ptr \<Rightarrow> bool" where
  "list_is_head list head \<longleftrightarrow> list = head"

definition list_empty :: "'n ptr \<Rightarrow> 'n lheap \<Rightarrow> bool option" where
  "list_empty head h = do { n \<leftarrow> get_next head h; Some (n = head) }"

definition list_rotate_left :: "'n ptr \<Rightarrow> 'n lheap \<Rightarrow> 'n lheap option" where
  "list_rotate_left head h = do {
     e \<leftarrow> list_empty head h;
     if \<not> e then do { first \<leftarrow> get_next head h; list_move_tail first head h } else Some h
   }"

definition list_rotate_to_front :: "'n ptr \<Rightarrow> 'n ptr \<Rightarrow> 'n lheap \<Rightarrow> 'n lheap option" where
  "list_rotate_to_front list head h = list_move_tail head list h"

definition list_is_singular :: "'n ptr \<Rightarrow> 'n lheap \<Rightarrow> bool option" where
  "list_is_singular head h = do {
     e \<leftarrow> list_empty head h;
     if e then Some False
     else do { n \<leftarrow> get_next head h; p \<leftarrow> get_prev head h; Some (n = p) }
   }"

definition raw_list_cut_position ::
  "'n ptr \<Rightarrow> 'n ptr \<Rightarrow> 'n ptr \<Rightarrow> 'n lheap \<Rightarrow> 'n lheap option" where
  "raw_list_cut_position list head entry h = do {
     new_first \<leftarrow> get_next entry h;
     n \<leftarrow> get_next head h;
     h \<leftarrow> set_next list n h;
     ln \<leftarrow> get_next list h;
     h \<leftarrow> set_prev ln list h;
     h \<leftarrow> set_prev list entry h;
     h \<leftarrow> set_next entry list h;
     h \<leftarrow> set_next head new_first h;
     set_prev new_first head h
   }"

definition list_cut_position ::
  "'n ptr \<Rightarrow> 'n ptr \<Rightarrow> 'n ptr \<Rightarrow> 'n lheap \<Rightarrow> 'n lheap option" where
  "list_cut_position list head entry h = do {
     e \<leftarrow> list_empty head h;
     if e then Some h
     else do {
       s \<leftarrow> list_is_singular head h;
       n \<leftarrow> get_next head h;
       if s \<and> \<not> list_is_head entry head \<and> entry \<noteq> n then Some h
       else if list_is_head entry head then INIT_LIST_HEAD list h
       else raw_list_cut_position list head entry h
     }
   }"

definition list_cut_before ::
  "'n ptr \<Rightarrow> 'n ptr \<Rightarrow> 'n ptr \<Rightarrow> 'n lheap \<Rightarrow> 'n lheap option" where
  "list_cut_before list head entry h = do {
     n \<leftarrow> get_next head h;
     if n = entry then INIT_LIST_HEAD list h
     else do {
       h \<leftarrow> set_next list n h;
       ln \<leftarrow> get_next list h;
       h \<leftarrow> set_prev ln list h;
       ep \<leftarrow> get_prev entry h;
       h \<leftarrow> set_prev list ep h;
       lp \<leftarrow> get_prev list h;
       h \<leftarrow> set_next lp list h;
       h \<leftarrow> set_next head entry h;
       set_prev entry head h
     }
   }"

definition raw_list_splice ::
  "'n ptr \<Rightarrow> 'n ptr \<Rightarrow> 'n ptr \<Rightarrow> 'n lheap \<Rightarrow> 'n lheap option" where
  "raw_list_splice list prev next h = do {
     first \<leftarrow> get_next list h;
     last' \<leftarrow> get_prev list h;
     h \<leftarrow> set_prev first prev h;
     h \<leftarrow> set_next prev first h;
     h \<leftarrow> set_next last' next h;
     set_prev next last' h
   }"

definition list_splice :: "'n ptr \<Rightarrow> 'n ptr \<Rightarrow> 'n lheap \<Rightarrow> 'n lheap option" where
  "list_splice list head h = do {
     e \<leftarrow> list_empty list h;
     if \<not> e then do { n \<leftarrow> get_next head h; raw_list_splice list head n h } else Some h
   }"

definition list_splice_tail :: "'n ptr \<Rightarrow> 'n ptr \<Rightarrow> 'n lheap \<Rightarrow> 'n lheap option" where
  "list_splice_tail list head h = do {
     e \<leftarrow> list_empty list h;
     if \<not> e then do { p \<leftarrow> get_prev head h; raw_list_splice list p head h } else Some h
   }"

definition list_splice_init :: "'n ptr \<Rightarrow> 'n ptr \<Rightarrow> 'n lheap \<Rightarrow> 'n lheap option" where
  "list_splice_init list head h = do {
     e \<leftarrow> list_empty list h;
     if \<not> e then do {
       n \<leftarrow> get_next head h;
       h \<leftarrow> raw_list_splice list head n h;
       INIT_LIST_HEAD list h
     } else Some h
   }"

definition list_splice_tail_init :: "'n ptr \<Rightarrow> 'n ptr \<Rightarrow> 'n lheap \<Rightarrow> 'n lheap option" where
  "list_splice_tail_init list head h = do {
     e \<leftarrow> list_empty list h;
     if \<not> e then do {
       p \<leftarrow> get_prev head h;
       h \<leftarrow> raw_list_splice list p head h;
       INIT_LIST_HEAD list h
     } else Some h
   }"

definition list_first_entry_or_null :: "'n ptr \<Rightarrow> 'n lheap \<Rightarrow> 'n ptr option" where
  "list_first_entry_or_null head h = do {
     pos \<leftarrow> get_next head h;
     Some (if pos \<noteq> head then pos else NULL)
   }"

text \<open>
  The loop macros.  A loop body is a function of the cursor and of the state it
  changes; it says whether it leaves the loop (\<open>break\<close> or \<open>return\<close>).  The cursor
  is advanced in the store the body leaves behind, as the macro does; a loop that
  never meets its head is \<open>None\<close>.
\<close>

partial_function (option) list_for_each_from ::
  "('n ptr \<Rightarrow> 's \<Rightarrow> (bool \<times> 's) option) \<Rightarrow> ('s \<Rightarrow> 'n lheap) \<Rightarrow> 'n ptr \<Rightarrow> 'n ptr \<Rightarrow> 's \<Rightarrow> 's option"
where
  "list_for_each_from body lh head pos s =
     (if list_is_head pos head then Some s
      else do {
        (brk, s') \<leftarrow> body pos s;
        if brk then Some s'
        else do {
          n \<leftarrow> get_next pos (lh s');
          list_for_each_from body lh head n s'
        }
      })"

definition list_for_each ::
  "('n ptr \<Rightarrow> 's \<Rightarrow> (bool \<times> 's) option) \<Rightarrow> ('s \<Rightarrow> 'n lheap) \<Rightarrow> 'n ptr \<Rightarrow> 's \<Rightarrow> 's option"
where
  "list_for_each body lh head s = do {
     pos \<leftarrow> get_next head (lh s);
     list_for_each_from body lh head pos s
   }"

end
