(* ===== verification/ListRings.thy ===== *)
theory ListRings
  imports Klist
begin

text \<open>
  What the list operations of \<open>lib/list.h\<close> mean.  An abstract state \<open>R\<close> maps the head
  of each circular list to the sequence of its entries; a node that is in no list and
  points to itself is the head of an empty ring.  \<open>rings h R\<close> says that the store \<open>h\<close>
  realises \<open>R\<close>: every ring is linked forwards and backwards, and no node is in two
  rings.  Each operation of the source is shown to return and to realise an update of
  \<open>R\<close>.
\<close>

section \<open>Linked paths\<close>

fun linked :: "'n lheap \<Rightarrow> 'n list \<Rightarrow> bool" where
  "linked h (a # b # r) \<longleftrightarrow> nxt h a = Ref b \<and> prv h b = Ref a \<and> linked h (b # r)"
| "linked h _ \<longleftrightarrow> True"

lemma linked_append:
  "xs \<noteq> [] \<Longrightarrow> ys \<noteq> [] \<Longrightarrow>
   linked h (xs @ ys) \<longleftrightarrow>
     linked h xs \<and> nxt h (last xs) = Ref (hd ys) \<and> prv h (hd ys) = Ref (last xs) \<and> linked h ys"
  by (induction h xs rule: linked.induct) (simp_all, cases ys, auto)

lemma linked_cong:
  "\<forall>a \<in> set (butlast xs). nxt h' a = nxt h a \<Longrightarrow> \<forall>b \<in> set (tl xs). prv h' b = prv h b \<Longrightarrow>
   linked h' xs = linked h xs"
  by (induction h xs rule: linked.induct) auto

definition agree_on :: "'n set \<Rightarrow> 'n lheap \<Rightarrow> 'n lheap \<Rightarrow> bool" where
  "agree_on A h h' \<longleftrightarrow> (\<forall>n \<in> A. nxt h' n = nxt h n \<and> prv h' n = prv h n)"

lemma linked_agree: "agree_on (set xs) h h' \<Longrightarrow> linked h' xs = linked h xs"
  by (rule linked_cong) (cases xs; auto simp: agree_on_def dest: in_set_butlastD)+

section \<open>Rings\<close>

type_synonym 'n rmap = "'n \<Rightarrow> 'n list option"

definition in_ring :: "'n rmap \<Rightarrow> 'n \<Rightarrow> 'n \<Rightarrow> bool" where
  "in_ring R q n \<longleftrightarrow> (\<exists>xs. R q = Some xs \<and> n \<in> set (q # xs))"

definition nodes :: "'n rmap \<Rightarrow> 'n set" where
  "nodes R = {n. \<exists>q. in_ring R q n}"

definition shape :: "'n rmap \<Rightarrow> bool" where
  "shape R \<longleftrightarrow> (\<forall>q xs. R q = Some xs \<longrightarrow> distinct (q # xs)) \<and>
              (\<forall>a b n. in_ring R a n \<longrightarrow> in_ring R b n \<longrightarrow> a = b)"

definition rings :: "'n lheap \<Rightarrow> 'n rmap \<Rightarrow> bool" where
  "rings h R \<longleftrightarrow> shape R \<and> (\<forall>q xs. R q = Some xs \<longrightarrow> linked h (q # xs @ [q]))"

lemma ringsD:
  assumes "rings h R" "R q = Some xs"
  shows "linked h (q # xs @ [q])" "distinct xs" "q \<notin> set xs"
  using assms by (auto simp: rings_def shape_def)

lemma rings_shape: "rings h R \<Longrightarrow> shape R"
  by (simp add: rings_def)

lemma in_ring_unique: "shape R \<Longrightarrow> in_ring R a n \<Longrightarrow> in_ring R b n \<Longrightarrow> a = b"
  by (auto simp: shape_def)

lemma not_in_nodes: "n \<notin> nodes R \<longleftrightarrow> (\<forall>q xs. R q = Some xs \<longrightarrow> n \<noteq> q \<and> n \<notin> set xs)"
  by (auto simp: nodes_def in_ring_def)

lemma nodes_headI: "R q = Some xs \<Longrightarrow> q \<in> nodes R"
  by (auto simp: nodes_def in_ring_def)

lemma nodes_memI: "R q = Some xs \<Longrightarrow> n \<in> set xs \<Longrightarrow> n \<in> nodes R"
  by (auto simp: nodes_def in_ring_def)

lemma in_ring_upd:
  "in_ring (R(a := v)) b n \<longleftrightarrow>
     (if b = a then (\<exists>xs. v = Some xs \<and> n \<in> set (a # xs)) else in_ring R b n)"
  by (simp add: in_ring_def)

lemma shapeI:
  assumes "\<And>q xs. R q = Some xs \<Longrightarrow> distinct (q # xs)"
    and "\<And>a b n. in_ring R a n \<Longrightarrow> in_ring R b n \<Longrightarrow> a = b"
  shows "shape R"
  using assms unfolding shape_def by blast

lemma shape_distinct: "shape R \<Longrightarrow> R q = Some xs \<Longrightarrow> distinct (q # xs)"
  unfolding shape_def by blast

lemma shape_update:
  assumes R: "shape R" "distinct (a # xs)"
    and new: "\<And>b n. b \<noteq> a \<Longrightarrow> in_ring R b n \<Longrightarrow> n \<notin> set (a # xs)"
  shows "shape (R(a \<mapsto> xs))"
proof (rule shapeI)
  show "distinct (q # ys)" if "(R(a \<mapsto> xs)) q = Some ys" for q ys
    using that R(2) shape_distinct [OF R(1)] by (cases "q = a") auto
next
  fix b c n
  assume "in_ring (R(a \<mapsto> xs)) b n" "in_ring (R(a \<mapsto> xs)) c n"
  then show "b = c"
    using in_ring_unique [OF R(1)] new unfolding in_ring_upd by (metis option.inject)
qed

lemma shape_remove:
  assumes "shape R"
  shows "shape (R(a := None))"
proof (rule shapeI)
  show "distinct (q # ys)" if "(R(a := None)) q = Some ys" for q ys
    using that shape_distinct [OF assms] by (cases "q = a") auto
next
  fix b c n
  assume "in_ring (R(a := None)) b n" "in_ring (R(a := None)) c n"
  then show "b = c"
    using in_ring_unique [OF assms] unfolding in_ring_upd by (metis option.distinct(1))
qed

text \<open>
  The frame rule: an operation that touches the nodes of \<open>D\<close> only leaves the rings
  outside \<open>D\<close> as they were; the rings that meet \<open>D\<close> have to be shown linked.
\<close>

lemma rings_frame:
  assumes "rings h R" "shape R'" "agree_on (- D) h h'"
    and "\<And>q xs. R' q = Some xs \<Longrightarrow>
           R q = Some xs \<and> set (q # xs) \<inter> D = {} \<or> linked h' (q # xs @ [q])"
  shows "rings h' R'"
proof -
  have "linked h' (q # xs @ [q])" if R': "R' q = Some xs" for q xs
  proof (rule disjE [OF assms(4) [OF R']])
    assume old: "R q = Some xs \<and> set (q # xs) \<inter> D = {}"
    then have "agree_on (set (q # xs @ [q])) h h'"
      using assms(3) by (auto simp: agree_on_def)
    moreover have "linked h (q # xs @ [q])"
      using old assms(1) by (auto dest: ringsD)
    ultimately show ?thesis by (simp only: linked_agree)
  qed
  with assms(2) show ?thesis by (simp add: rings_def)
qed

lemma rings_forget: "rings h R \<Longrightarrow> rings h (R(a := None))"
  by (auto simp: rings_def shape_remove split: if_splits)

lemma rings_outside:
  assumes "rings h R" "agree_on (nodes R) h h'"
  shows "rings h' R"
proof (rule rings_frame [OF assms(1) rings_shape [OF assms(1)], where D = "- nodes R"])
  show "agree_on (- (- nodes R)) h h'" using assms(2) by simp
  show "R q = Some xs \<and> set (q # xs) \<inter> - nodes R = {} \<or> linked h' (q # xs @ [q])"
    if "R q = Some xs" for q xs
    using that by (auto simp: nodes_headI nodes_memI)
qed

section \<open>Insertion and deletion\<close>

lemma shape_insert:
  assumes "shape R" "R q = Some (us @ vs)" "new \<notin> nodes R"
  shows "shape (R(q \<mapsto> us @ new # vs))"
proof (rule shape_update [OF assms(1)])
  show "distinct (q # us @ new # vs)"
    using shape_distinct [OF assms(1,2)] assms(2,3) unfolding not_in_nodes by fastforce
  show "n \<notin> set (q # us @ new # vs)" if b: "b \<noteq> q" "in_ring R b n" for b n
  proof
    assume n: "n \<in> set (q # us @ new # vs)"
    show False
    proof (cases "n = new")
      case True with b(2) assms(3) show ?thesis by (auto simp: nodes_def)
    next
      case False
      with n assms(2) have "in_ring R q n" by (auto simp: in_ring_def)
      with b in_ring_unique [OF assms(1)] show ?thesis by blast
    qed
  qed
qed

text \<open>
  A ring with head \<open>hd A\<close> cut at some place reads \<open>A @ B\<close> with \<open>last B = hd A\<close>: the
  two nodes at the cut occur nowhere else in the positions that the links depend on.
\<close>

lemma cut_distinct:
  assumes "A \<noteq> []" "B \<noteq> []" "distinct (butlast (A @ B))" "last B = hd A"
  shows "last A \<notin> set (butlast A)" "last A \<notin> set (butlast B)"
    and "hd B \<notin> set (tl A)" "hd B \<notin> set (tl B)"
proof -
  obtain A' a where A: "A = A' @ [a]" using butlast_last_split [OF assms(1)] by blast
  obtain b B' where B: "B = b # B'" using assms(2) by (cases B) auto
  obtain B'' where B2: "B = B'' @ [hd A]"
    using butlast_last_split [OF assms(2)] assms(4) by (metis last_snoc)
  have d: "distinct (A @ B'')" using assms(3) B2 by (simp add: butlast_append)
  show "last A \<notin> set (butlast A)" "last A \<notin> set (butlast B)" using d A B2 by auto
  show "hd B \<notin> set (tl A)" "hd B \<notin> set (tl B)"
    using d B B2 A by (cases B''; cases A'; auto)+
qed

lemma raw_list_add_link:
  assumes "linked h (A @ B)" "A \<noteq> []" "B \<noteq> []" "distinct (butlast (A @ B))" "last B = hd A"
    and "new \<notin> set (A @ B)"
  shows "\<exists>h'. raw_list_add (Ref new) (Ref (last A)) (Ref (hd B)) h = Some h' \<and>
           linked h' (A @ new # B) \<and> agree_on (- {last A, new, hd B}) h h'"
proof -
  let ?a = "last A" and ?b = "hd B"
  let ?h' = "h\<lparr>nxt := (nxt h)(new := Ref ?b, ?a := Ref new), prv := (prv h)(?b := Ref new, new := Ref ?a)\<rparr>"
  have ne: "?a \<noteq> new" "?b \<noteq> new" using assms(2,3,6) by auto
  then have eff: "raw_list_add (Ref new) (Ref ?a) (Ref ?b) h = Some ?h'"
    by (simp add: raw_list_add_def list_add_valid_def)
  have "linked h A" "linked h B" using assms(1-3) linked_append by blast+
  moreover have "linked ?h' A = linked h A" "linked ?h' B = linked h B"
    using cut_distinct [OF assms(2-5)] assms(6)
    by (auto intro!: linked_cong dest: in_set_butlastD in_set_tlD)
  moreover have "linked ?h' (new # B) = (nxt ?h' new = Ref ?b \<and> prv ?h' ?b = Ref new \<and> linked ?h' B)"
    using assms(3) by (cases B) auto
  ultimately have "linked ?h' (A @ new # B)"
    using ne assms(2,3) linked_append [of A "new # B" ?h'] by simp
  with eff show ?thesis by (auto simp: agree_on_def)
qed

lemma raw_list_del_link:
  assumes "linked h (A @ e # B)" "A \<noteq> []" "B \<noteq> []" "distinct (butlast (A @ e # B))" "last B = hd A"
  shows "\<exists>h'. raw_list_del (Ref (last A)) (Ref (hd B)) h = Some h' \<and>
           linked h' (A @ B) \<and> agree_on (- {last A, hd B}) h h'"
proof -
  let ?h' = "h\<lparr>nxt := (nxt h)(last A := Ref (hd B)), prv := (prv h)(hd B := Ref (last A))\<rparr>"
  have eff: "raw_list_del (Ref (last A)) (Ref (hd B)) h = Some ?h'"
    by (simp add: raw_list_del_def)
  have "distinct (butlast (A @ B))"
    using assms(3,4) by (auto simp: butlast_append)
  note cut = cut_distinct [OF assms(2,3) this assms(5)]
  have "linked h A" "linked h (e # B)" using assms(1,2) linked_append [of A "e # B"] by auto
  then have "linked h A" "linked h B" using assms(3) by (cases B; auto)+
  moreover have "linked ?h' A = linked h A" "linked ?h' B = linked h B"
    using cut by (auto intro!: linked_cong)
  ultimately have "linked ?h' (A @ B)"
    using assms(2,3) linked_append [of A B ?h'] by simp
  with eff show ?thesis by (auto simp: agree_on_def)
qed

lemma ring_cut:
  assumes "rings h R" "R q = Some (us @ vs)"
  shows "nxt h (last (q # us)) = Ref (hd (vs @ [q]))" "prv h (hd (vs @ [q])) = Ref (last (q # us))"
  using ringsD(1) [OF assms] linked_append [of "q # us" "vs @ [q]" h] by auto

text \<open>An operation that works on one ring, and on nodes that are in no ring.\<close>

lemma rings_local:
  assumes R: "rings h R" "R q = Some xs" and shape: "shape (R(q \<mapsto> ys))"
    and D: "agree_on (- D) h h'" "\<And>n. n \<in> D \<Longrightarrow> n \<in> set (q # xs) \<or> n \<notin> nodes R"
    and lnk: "linked h' (q # ys @ [q])"
  shows "rings h' (R(q \<mapsto> ys))"
proof (rule rings_frame [OF R(1) shape D(1)])
  fix b zs
  assume b: "(R(q \<mapsto> ys)) b = Some zs"
  show "R b = Some zs \<and> set (b # zs) \<inter> D = {} \<or> linked h' (b # zs @ [b])"
  proof (cases "b = q")
    case True
    with b lnk show ?thesis by auto
  next
    case False
    with b have Rb: "R b = Some zs" by simp
    have "n \<notin> D" if n: "n \<in> set (b # zs)" for n
    proof
      assume "n \<in> D"
      moreover have "n \<in> nodes R" "in_ring R b n" using n Rb by (auto simp: nodes_def in_ring_def)
      ultimately have "in_ring R q n" using D(2) R(2) by (auto simp: in_ring_def)
      with \<open>in_ring R b n\<close> False in_ring_unique [OF rings_shape [OF R(1)]] show False by blast
    qed
    with Rb show ?thesis by blast
  qed
qed

lemma hd_last_in: "hd (vs @ [q]) \<in> set (q # us @ vs)" "last (q # us) \<in> set (q # us @ vs)"
  by (auto simp: hd_append)

lemma rings_raw_add:
  assumes R: "rings h R" "R q = Some (us @ vs)" "new \<notin> nodes R"
  shows "\<exists>h'. raw_list_add (Ref new) (Ref (last (q # us))) (Ref (hd (vs @ [q]))) h = Some h' \<and>
           rings h' (R(q \<mapsto> us @ new # vs))"
proof -
  have "new \<notin> set ((q # us) @ vs @ [q])" using R(2,3) unfolding not_in_nodes by fastforce
  moreover have "distinct (butlast ((q # us) @ vs @ [q]))"
    using ringsD(2,3) [OF R(1,2)] by (auto simp: butlast_append)
  ultimately obtain h' where h': "raw_list_add (Ref new) (Ref (last (q # us))) (Ref (hd (vs @ [q]))) h = Some h'"
      "linked h' ((q # us) @ new # vs @ [q])" "agree_on (- {last (q # us), new, hd (vs @ [q])}) h h'"
    using raw_list_add_link [of h "q # us" "vs @ [q]" new] ringsD(1) [OF R(1,2)] by auto
  have "rings h' (R(q \<mapsto> us @ new # vs))"
    using h'(2) R(3) hd_last_in(1) [of vs q us] hd_last_in(2) [of q us vs]
    by (intro rings_local [OF R(1,2) shape_insert [OF rings_shape [OF R(1)] R(2,3)] h'(3)]) auto
  with h'(1) show ?thesis by blast
qed

lemma shape_delete:
  assumes "shape R" "R q = Some (us @ e # vs)"
  shows "shape (R(q \<mapsto> us @ vs))"
proof (rule shape_update [OF assms(1)])
  show "distinct (q # us @ vs)" using shape_distinct [OF assms] by auto
  show "n \<notin> set (q # us @ vs)" if "b \<noteq> q" "in_ring R b n" for b n
    using in_ring_unique [OF assms(1) that(2), of q] that(1) assms(2) by (auto simp: in_ring_def)
qed

lemma rings_raw_del:
  assumes R: "rings h R" "R q = Some (us @ e # vs)"
  shows "\<exists>h'. raw_list_del_entry (Ref e) h = Some h' \<and> rings h' (R(q \<mapsto> us @ vs))"
proof -
  have links: "prv h e = Ref (last (q # us))" "nxt h e = Ref (hd (vs @ [q]))"
    using ring_cut [OF R] ring_cut [OF R(1), of q "us @ [e]" vs] R(2) by auto
  have "distinct (butlast ((q # us) @ e # vs @ [q]))"
    using ringsD(2,3) [OF R(1,2)] by (auto simp: butlast_append)
  then obtain h' where h': "raw_list_del (Ref (last (q # us))) (Ref (hd (vs @ [q]))) h = Some h'"
      "linked h' ((q # us) @ vs @ [q])" "agree_on (- {last (q # us), hd (vs @ [q])}) h h'"
    using raw_list_del_link [of h "q # us" e "vs @ [q]"] ringsD(1) [OF R(1,2)] by auto
  have "rings h' (R(q \<mapsto> us @ vs))"
    using h'(2) hd_last_in(1) [of vs q us] hd_last_in(2) [of q us vs]
    by (intro rings_local [OF R(1,2) shape_delete [OF rings_shape [OF R(1)] R(2)] h'(3)]) auto
  with h'(1) links show ?thesis
    by (auto simp: raw_list_del_entry_def list_del_entry_valid_def)
qed

lemma rings_outside_write:
  assumes "rings h R" "n \<notin> nodes R"
  shows "rings (h\<lparr>nxt := (nxt h)(n := v)\<rparr>) R" "rings (h\<lparr>prv := (prv h)(n := v)\<rparr>) R"
  using assms(2) by (auto intro!: rings_outside [OF assms(1)] simp: agree_on_def)

section \<open>The effect of each operation on the rings\<close>

lemma not_in_nodes_delete:
  assumes "shape R" "R q = Some (us @ e # vs)"
  shows "e \<notin> nodes (R(q \<mapsto> us @ vs))"
proof
  assume "e \<in> nodes (R(q \<mapsto> us @ vs))"
  then obtain b where b: "in_ring (R(q \<mapsto> us @ vs)) b e" by (auto simp: nodes_def)
  have "in_ring R q e" using assms(2) by (auto simp: in_ring_def)
  with b in_ring_unique [OF assms(1)] have "b = q" unfolding in_ring_upd by (metis option.inject)
  with b shape_distinct [OF assms] show False by (auto simp: in_ring_upd)
qed

lemma not_in_nodes_forget:
  assumes "shape R" "R e = Some []"
  shows "e \<notin> nodes (R(e := None))"
proof
  assume "e \<in> nodes (R(e := None))"
  then obtain b where b: "in_ring (R(e := None)) b e" by (auto simp: nodes_def)
  have "in_ring R e e" using assms(2) by (auto simp: in_ring_def)
  with b in_ring_unique [OF assms(1)] have "b = e" unfolding in_ring_upd by (metis option.distinct(1))
  with b show False by (auto simp: in_ring_upd)
qed

lemma list_add_rings:
  assumes "rings h R" "R q = Some xs" "new \<notin> nodes R"
  shows "\<exists>h'. list_add (Ref new) (Ref q) h = Some h' \<and> rings h' (R(q \<mapsto> new # xs))"
  using rings_raw_add [of h R q "[]" xs new] ring_cut [of h R q "[]" xs] assms
  by (simp add: list_add_def)

lemma list_add_tail_rings:
  assumes "rings h R" "R q = Some xs" "new \<notin> nodes R"
  shows "\<exists>h'. list_add_tail (Ref new) (Ref q) h = Some h' \<and> rings h' (R(q \<mapsto> xs @ [new]))"
  using rings_raw_add [of h R q xs "[]" new] ring_cut [of h R q xs "[]"] assms
  by (simp add: list_add_tail_def)

lemma list_add_behind_rings:
  assumes "rings h R" "R q = Some (us @ p # vs)" "new \<notin> nodes R"
  shows "\<exists>h'. list_add (Ref new) (Ref p) h = Some h' \<and> rings h' (R(q \<mapsto> us @ p # new # vs))"
  using rings_raw_add [of h R q "us @ [p]" vs new] ring_cut [of h R q "us @ [p]" vs] assms
  by (simp add: list_add_def)

lemma INIT_LIST_HEAD_rings:
  assumes "rings h R" "n \<notin> nodes R"
  shows "\<exists>h'. INIT_LIST_HEAD (Ref n) h = Some h' \<and> rings h' (R(n \<mapsto> []))"
proof -
  let ?h' = "h\<lparr>nxt := (nxt h)(n := Ref n), prv := (prv h)(n := Ref n)\<rparr>"
  have "shape (R(n \<mapsto> []))"
    using assms(2) by (intro shape_update [OF rings_shape [OF assms(1)]]) (auto simp: nodes_def)
  then have "rings ?h' (R(n \<mapsto> []))"
    using assms(2)
    by (intro rings_frame [OF assms(1), where D = "{n}"])
      (auto simp: agree_on_def not_in_nodes split: if_splits)
  then show ?thesis by (simp add: INIT_LIST_HEAD_def)
qed

text \<open>
  A node is loose when it can be deleted safely: it is an entry of some ring, or the head
  of an empty one.  Deleting the head of a non-empty ring would leave a ring without head.
\<close>

definition loose :: "'n \<Rightarrow> 'n rmap \<Rightarrow> bool" where
  "loose e R \<longleftrightarrow> R e = Some [] \<or> (\<exists>q xs. R q = Some xs \<and> e \<in> set xs)"

definition unlink :: "'n \<Rightarrow> 'n rmap \<Rightarrow> 'n rmap" where
  "unlink e R = (\<lambda>q. if q = e then None else map_option (removeAll e) (R q))"

definition detach :: "'n \<Rightarrow> 'n rmap \<Rightarrow> 'n rmap" where
  "detach e R = (unlink e R)(e \<mapsto> [])"

lemma looseE:
  assumes "loose e R"
  obtains "R e = Some []" | q us vs where "R q = Some (us @ e # vs)"
  using assms by (metis loose_def split_list)

lemma loose_head:
  assumes "shape R" "loose e R" "R e = Some ys"
  shows "ys = []"
  using assms(2)
proof (cases rule: looseE)
  case (2 q us vs)
  then have "in_ring R q e" "in_ring R e e" using assms(3) by (auto simp: in_ring_def)
  then have "q = e" by (rule in_ring_unique [OF assms(1)])
  with shape_distinct [OF assms(1) 2] show ?thesis by simp
qed (use assms(3) in simp)

lemma unlink_member:
  assumes "shape R" "R q = Some (us @ e # vs)"
  shows "unlink e R = R(q \<mapsto> us @ vs)"
proof
  fix b
  have q: "in_ring R q e" using assms(2) by (auto simp: in_ring_def)
  have d: "distinct (q # us @ e # vs)" using shape_distinct [OF assms] .
  show "unlink e R b = (R(q \<mapsto> us @ vs)) b"
  proof (cases "b = q")
    case True
    with d assms(2) show ?thesis by (auto simp: unlink_def removeAll_split)
  next
    case False
    have "e \<notin> set (b # ys)" if "R b = Some ys" for ys
      using False q that in_ring_unique [OF assms(1), of b e q] by (auto simp: in_ring_def)
    then show ?thesis using False by (cases "R b") (auto simp: unlink_def removeAll_id)
  qed
qed

lemma unlink_self:
  assumes "shape R" "R e = Some []"
  shows "unlink e R = R(e := None)"
proof
  fix b
  have "e \<notin> set ys" if "R b = Some ys" "b \<noteq> e" for ys
    using that assms(2) in_ring_unique [OF assms(1), of b e e] by (auto simp: in_ring_def)
  then show "unlink e R b = (R(e := None)) b"
    by (cases "R b") (auto simp: unlink_def removeAll_id)
qed

lemma not_in_nodes_unlink:
  assumes "shape R" "loose e R"
  shows "e \<notin> nodes (unlink e R)"
  using assms(2)
proof (cases rule: looseE)
  case 1
  with assms(1) show ?thesis by (simp add: unlink_self not_in_nodes_forget)
next
  case (2 q us vs)
  with assms(1) show ?thesis by (simp add: unlink_member not_in_nodes_delete)
qed

lemma raw_list_del_self:
  assumes "rings h R" "R e = Some []"
  shows "raw_list_del_entry (Ref e) h = Some h"
  using ringsD(1) [OF assms]
  by (simp add: raw_list_del_entry_def list_del_entry_valid_def raw_list_del_def fun_upd_idem)

lemma raw_list_del_rings:
  assumes "rings h R" "loose e R"
  shows "\<exists>h'. raw_list_del_entry (Ref e) h = Some h' \<and> rings h' (unlink e R)"
  using assms(2)
proof (cases rule: looseE)
  case 1
  then show ?thesis
    using raw_list_del_self [OF assms(1) 1] rings_forget [OF assms(1)]
    by (simp add: unlink_self [OF rings_shape [OF assms(1)] 1])
next
  case (2 q us vs)
  then show ?thesis
    using rings_raw_del [OF assms(1) 2] by (simp add: unlink_member [OF rings_shape [OF assms(1)] 2])
qed

lemma list_del_rings:
  assumes "rings h R" "loose e R"
  shows "\<exists>h'. list_del (Ref e) h = Some h' \<and> rings h' (unlink e R)"
proof -
  obtain h1 where h1: "raw_list_del_entry (Ref e) h = Some h1" "rings h1 (unlink e R)"
    using raw_list_del_rings [OF assms] by blast
  note e = not_in_nodes_unlink [OF rings_shape [OF assms(1)] assms(2)]
  have "rings (h1\<lparr>nxt := (nxt h1)(e := NULL), prv := (prv h1)(e := NULL)\<rparr>) (unlink e R)"
    using e by (auto intro!: rings_outside [OF h1(2)] simp: agree_on_def)
  with h1(1) show ?thesis by (simp add: list_del_def)
qed

lemma list_move_tail_rings:
  assumes "rings h R" "loose e R" "R q = Some xs" "q \<noteq> e"
  shows "\<exists>h'. list_move_tail (Ref e) (Ref q) h = Some h' \<and>
           rings h' ((unlink e R)(q \<mapsto> removeAll e xs @ [e]))"
proof -
  obtain h1 where h1: "raw_list_del_entry (Ref e) h = Some h1" "rings h1 (unlink e R)"
    using raw_list_del_rings [OF assms(1,2)] by blast
  have "unlink e R q = Some (removeAll e xs)" using assms(3,4) by (simp add: unlink_def)
  from list_add_tail_rings [OF h1(2) this not_in_nodes_unlink [OF rings_shape [OF assms(1)] assms(2)]]
  show ?thesis using h1(1) by (simp add: list_move_tail_def)
qed

lemma list_empty_rings:
  assumes "rings h R" "R q = Some xs"
  shows "list_empty (Ref q) h = Some (xs = [])"
  using ringsD [OF assms] ring_cut [of h R q "[]" xs] assms
  by (cases xs) (auto simp: list_empty_def)

lemma get_next_head_rings:
  assumes "rings h R" "R q = Some (x # xs)"
  shows "get_next (Ref q) h = Some (Ref x)"
  using ringsD(1) [OF assms] by simp

text \<open>
  A node that points to itself both ways is an entry of no ring, and can be taken as the
  head of an empty one.
\<close>

definition alone :: "'n lheap \<Rightarrow> 'n \<Rightarrow> bool" where
  "alone h e \<longleftrightarrow> nxt h e = Ref e \<and> prv h e = Ref e"

lemma rings_alone: "rings h R \<Longrightarrow> R e = Some [] \<Longrightarrow> alone h e"
  using ringsD(1) by (fastforce simp: alone_def)

lemma alone_not_entry:
  assumes "rings h R" "alone h e" "R q = Some xs"
  shows "e \<notin> set xs"
proof
  assume "e \<in> set xs"
  then obtain us vs where "xs = us @ e # vs" by (meson split_list)
  then have "nxt h e = Ref (hd (vs @ [q]))" "hd (vs @ [q]) \<noteq> e"
    using ring_cut(1) [of h R q "us @ [e]" vs] assms(1,3) ringsD(2,3) [OF assms(1,3)]
    by (auto simp: hd_append)
  with assms(2) show False by (simp add: alone_def)
qed

lemma alone_not_head:
  assumes "rings h R" "alone h e" "R e = Some xs"
  shows "xs = []"
  using ringsD [OF assms(1,3)] assms(2) by (cases xs) (auto simp: alone_def)

lemma rings_add_alone:
  assumes "rings h R" "alone h e"
  shows "rings h (R(e \<mapsto> []))"
proof (cases "R e")
  case (Some xs)
  then have "R(e \<mapsto> []) = R" using alone_not_head [OF assms Some] by auto
  with assms(1) show ?thesis by simp
next
  case None
  have "\<not> in_ring R b e" for b
    using alone_not_entry [OF assms] None by (auto simp: in_ring_def)
  then have "shape (R(e \<mapsto> []))"
    by (intro shape_update [OF rings_shape [OF assms(1)]]) auto
  with assms show ?thesis by (auto simp: rings_def alone_def)
qed

section \<open>Loops over a ring\<close>

text \<open>\<open>I\<close> is an invariant of the loop body on the entries, under which the pointers are those
  of \<open>h\<close>.\<close>

lemma list_for_each_from_linked:
  assumes h: "linked h (x # xs @ [q])" "q \<notin> set (x # xs)"
    and I: "I s" "\<And>t. I t \<Longrightarrow> lh t = h"
    and body: "\<And>y t b t'. y \<in> set (x # xs) \<Longrightarrow> I t \<Longrightarrow> body (Ref y) t = Some (b, t') \<Longrightarrow> I t'"
  shows "list_for_each_from body lh (Ref q) (Ref x) s = for_entries body (x # xs) s"
  using h I(1) body
proof (induction xs arbitrary: x s)
  case Nil
  have "get_next (Ref x) (lh t) = Some (Ref q)" if "body (Ref x) s = Some (b, t)" for b t
    using Nil.prems(1) I(2) [OF Nil.prems(4) [OF _ Nil.prems(3) that]] by simp
  with Nil.prems(2) show ?case
    by (auto simp: list_for_each_from.simps [of _ _ _ "Ref x"] list_for_each_from.simps [of _ _ _ "Ref q"]
        list_is_head_def split: Option.bind_split if_splits)
next
  case (Cons y ys)
  have step: "get_next (Ref x) (lh t) = Some (Ref y)"
    "list_for_each_from body lh (Ref q) (Ref y) t = for_entries body (y # ys) t"
    if "body (Ref x) s = Some (b, t)" for b t
  proof -
    have t: "I t" using Cons.prems(4) [OF _ Cons.prems(3) that] by simp
    show "get_next (Ref x) (lh t) = Some (Ref y)" using Cons.prems(1) I(2) [OF t] by simp
    show "list_for_each_from body lh (Ref q) (Ref y) t = for_entries body (y # ys) t"
    proof (rule Cons.IH [OF _ _ t])
      show "linked h (y # ys @ [q])" "q \<notin> set (y # ys)" using Cons.prems(1,2) by auto
      show "I v'" if "z \<in> set (y # ys)" "I v" "body (Ref z) v = Some (b, v')" for z v b v'
        by (rule Cons.prems(4) [OF _ that(2,3)]) (use that(1) in simp)
    qed
  qed
  then show ?case
    using Cons.prems(2)
    by (auto simp: list_for_each_from.simps [of _ _ _ "Ref x"] list_is_head_def
        split: Option.bind_split if_splits)
qed

lemma list_for_each_invariant:
  assumes R: "rings h R" "R q = Some xs" and I: "I s" "\<And>t. I t \<Longrightarrow> lh t = h"
    and body: "\<And>y t b t'. y \<in> set xs \<Longrightarrow> I t \<Longrightarrow> body (Ref y) t = Some (b, t') \<Longrightarrow> I t'"
  shows "list_for_each body lh (Ref q) s = for_entries body xs s"
proof (cases xs)
  case Nil
  then show ?thesis
    using ringsD(1) [OF R] I(2) [OF I(1)]
    by (simp add: list_for_each_def list_for_each_from.simps list_is_head_def)
next
  case (Cons x ys)
  then show ?thesis
    using ringsD [OF R] I(2) [OF I(1)] list_for_each_from_linked [of h x ys q I s lh body, OF _ _ I body]
    by (simp add: list_for_each_def)
qed

lemma list_for_each_rings:
  assumes "rings (lh s) R" "R q = Some xs"
    and "\<And>p s b s'. body p s = Some (b, s') \<Longrightarrow> lh s' = lh s"
  shows "list_for_each body lh (Ref q) s = for_entries body xs s"
proof (rule list_for_each_invariant [OF assms(1,2), where I = "\<lambda>t. lh t = lh s"])
  show "lh t' = lh s" if "lh t = lh s" "body (Ref y) t = Some (b, t')" for y t b t'
    using assms(3) [OF that(2)] that(1) by simp
qed simp_all

end
