(* ===== verification/Utils.thy ===== *)
theory Utils
  imports ListRings
begin

text \<open>
  The helpers of \<open>include/utils/utils.h\<close> and \<open>phase1/utils.c\<close>: the list operations that
  leave a deleted node in a valid state, and the word-wise \<open>memset\<close> and \<open>memcpy\<close> on a
  byte-addressed little-endian memory.  A word access at an address that is not a
  multiple of four is an address error of the MIPS processor: \<open>None\<close>.
\<close>

section \<open>Safe list operations\<close>

definition list_delete_safe :: "'n ptr \<Rightarrow> 'n lheap \<Rightarrow> 'n lheap option" where
  "list_delete_safe list h = do {
     h \<leftarrow> list_del list h;
     INIT_LIST_HEAD list h
   }"

definition list_add_tail_safe :: "'n ptr \<Rightarrow> 'n ptr \<Rightarrow> 'n lheap \<Rightarrow> 'n lheap option" where
  "list_add_tail_safe new lista h = do {
     h \<leftarrow> list_delete_safe new h;
     list_add_tail new lista h
   }"

definition list_add_safe :: "'n ptr \<Rightarrow> 'n ptr \<Rightarrow> 'n lheap \<Rightarrow> 'n lheap option" where
  "list_add_safe new list h = do {
     h \<leftarrow> list_delete_safe new h;
     list_add new list h
   }"

lemma list_delete_safe_rings:
  assumes "rings h R" "loose e R"
  shows "\<exists>h'. list_delete_safe (Ref e) h = Some h' \<and> rings h' (detach e R)"
proof -
  obtain h1 where h1: "list_del (Ref e) h = Some h1" "rings h1 (unlink e R)"
    using list_del_rings [OF assms] by blast
  from INIT_LIST_HEAD_rings [OF h1(2) not_in_nodes_unlink [OF rings_shape [OF assms(1)] assms(2)]]
  show ?thesis using h1(1) by (simp add: list_delete_safe_def detach_def)
qed

text \<open>
  Appending a self-linked node overwrites its pointers, so the ring of its own that it
  heads disappears; the same holds when it is pushed in front.
\<close>

lemma list_add_tail_self_rings:
  assumes "rings h R" "R e = Some []" "R q = Some xs" "q \<noteq> e"
  shows "\<exists>h'. list_add_tail (Ref e) (Ref q) h = Some h' \<and> rings h' (R(e := None, q \<mapsto> xs @ [e]))"
  using list_add_tail_rings [OF rings_forget [OF assms(1)], of e q xs e] assms
    not_in_nodes_forget [OF rings_shape [OF assms(1)]] by simp

lemma list_add_self_rings:
  assumes "rings h R" "R e = Some []" "R q = Some xs" "q \<noteq> e"
  shows "\<exists>h'. list_add (Ref e) (Ref q) h = Some h' \<and> rings h' (R(e := None, q \<mapsto> e # xs))"
  using list_add_rings [OF rings_forget [OF assms(1)], of e q xs e] assms
    not_in_nodes_forget [OF rings_shape [OF assms(1)]] by simp

lemma list_add_tail_safe_rings:
  assumes "rings h R" "loose e R" "R q = Some xs" "q \<noteq> e"
  shows "\<exists>h'. list_add_tail_safe (Ref e) (Ref q) h = Some h' \<and>
           rings h' ((unlink e R)(q \<mapsto> removeAll e xs @ [e]))"
proof -
  obtain h1 where h1: "list_delete_safe (Ref e) h = Some h1" "rings h1 (detach e R)"
    using list_delete_safe_rings [OF assms(1,2)] by blast
  have R1: "detach e R e = Some []" "detach e R q = Some (removeAll e xs)"
    using assms(3,4) by (auto simp: detach_def unlink_def)
  have "(detach e R)(e := None, q \<mapsto> removeAll e xs @ [e]) =
        (unlink e R)(q \<mapsto> removeAll e xs @ [e])"
    by (auto simp: detach_def unlink_def)
  with list_add_tail_self_rings [OF h1(2) R1 assms(4)] show ?thesis
    using h1(1) by (simp add: list_add_tail_safe_def)
qed

section \<open>memset and memcpy\<close>

type_synonym bmem = "u32 \<Rightarrow> 8 word"

definition store32 :: "u32 \<Rightarrow> u32 \<Rightarrow> bmem \<Rightarrow> bmem option" where
  "store32 a w m =
     (if unat a mod 4 = 0
      then Some (m(a := ucast w, a + 1 := ucast (drop_bit 8 w),
                   a + 2 := ucast (drop_bit 16 w), a + 3 := ucast (drop_bit 24 w)))
      else None)"

definition word_of_bytes :: "8 word \<Rightarrow> 8 word \<Rightarrow> 8 word \<Rightarrow> 8 word \<Rightarrow> u32" where
  "word_of_bytes b0 b1 b2 b3 =
     ucast b0 OR push_bit 8 (ucast b1) OR push_bit 16 (ucast b2) OR push_bit 24 (ucast b3)"

definition load32 :: "u32 \<Rightarrow> bmem \<Rightarrow> u32 option" where
  "load32 a m =
     (if unat a mod 4 = 0
      then Some (word_of_bytes (m a) (m (a + 1)) (m (a + 2)) (m (a + 3)))
      else None)"

definition memset :: "u32 \<Rightarrow> 8 word \<Rightarrow> u32 \<Rightarrow> bmem \<Rightarrow> bmem option" where
  "memset p byte size' m = (let n = unat size' div 4 in do {
     m \<leftarrow> for_upto n (\<lambda>i. store32 (p + 4 * of_nat i) (word_of_bytes byte byte byte byte)) m;
     for_upto (unat size' mod 4) (\<lambda>j m. Some (m(p + of_nat j + of_nat n * 4 := byte))) m
   })"

definition memcpy :: "u32 \<Rightarrow> u32 \<Rightarrow> u32 \<Rightarrow> bmem \<Rightarrow> bmem option" where
  "memcpy p p2 size' m = (let n = unat size' div 4 in do {
     m \<leftarrow> for_upto n (\<lambda>i m. do {
            w \<leftarrow> load32 (p2 + 4 * of_nat i) m;
            store32 (p + 4 * of_nat i) w m
          }) m;
     for_upto (unat size' mod 4)
       (\<lambda>j m. Some (m(p + of_nat j + of_nat n * 4 := m (p2 + of_nat j + of_nat n * 4)))) m
   })"

lemma bytes_of_word:
  fixes b0 b1 b2 b3 :: "8 word"
  shows "ucast (word_of_bytes b0 b1 b2 b3) = b0"
    "ucast (drop_bit 8 (word_of_bytes b0 b1 b2 b3)) = b1"
    "ucast (drop_bit 16 (word_of_bytes b0 b1 b2 b3)) = b2"
    "ucast (drop_bit 24 (word_of_bytes b0 b1 b2 b3)) = b3"
  by (rule bit_word_eqI; simp add: word_of_bytes_def bit_simps; auto dest: bit_imp_le_length)+

lemma unat_less_2p32: "unat w < 2 ^ 32" for w :: u32
  using unsigned_less [of w, where ?'a = nat] by simp

lemma offset_iff:
  fixes a p :: u32
  assumes "k < 2 ^ 32"
  shows "a = p + of_nat k \<longleftrightarrow> unat (a - p) = k"
proof
  assume "a = p + of_nat k"
  then show "unat (a - p) = k" using assms by (simp add: unsigned_of_nat take_bit_eq_mod)
next
  assume "unat (a - p) = k"
  then have "of_nat k = a - p" by (simp flip: \<open>unat (a - p) = k\<close>)
  then show "a = p + of_nat k" by simp
qed

lemma upd_offset:
  fixes p :: u32
  assumes "k < 2 ^ 32"
  shows "m(p + of_nat k := v) = (\<lambda>a. if unat (a - p) = k then v else m a)"
  using offset_iff [OF assms, of _ p] by (auto simp: fun_eq_iff)

lemma aligned_offset:
  fixes p :: u32
  assumes "unat p mod 4 = 0"
  shows "unat (p + of_nat (4 * k)) mod 4 = 0"
proof -
  have "unat (p + of_nat (4 * k)) = (unat p + 4 * k) mod 2 ^ 32"
    by (simp add: unat_word_ariths unsigned_of_nat take_bit_eq_mod mod_simps)
  also have "\<dots> mod 4 = (unat p + 4 * k) mod 4"
    by (rule mod_mod_cancel) simp
  finally show ?thesis using assms by simp
qed

lemma store32_bytes:
  fixes p :: u32
  assumes "unat p mod 4 = 0" "4 * k + 3 < 2 ^ 32"
  shows "store32 (p + 4 * of_nat k) (word_of_bytes b0 b1 b2 b3) m =
    Some (\<lambda>a. if unat (a - p) = 4 * k then b0 else if unat (a - p) = 4 * k + 1 then b1
              else if unat (a - p) = 4 * k + 2 then b2 else if unat (a - p) = 4 * k + 3 then b3
              else m a)"
proof -
  have a: "p + 4 * of_nat k = p + of_nat (4 * k)" by simp
  have o: "p + of_nat (4 * k) + 1 = p + of_nat (4 * k + 1)" "p + of_nat (4 * k) + 2 = p + of_nat (4 * k + 2)"
    "p + of_nat (4 * k) + 3 = p + of_nat (4 * k + 3)" by simp_all
  have k: "4 * k < 2 ^ 32" "4 * k + 1 < 2 ^ 32" "4 * k + 2 < 2 ^ 32" "4 * k + 3 < 2 ^ 32"
    using assms(2) by simp_all
  show ?thesis
    unfolding a store32_def o bytes_of_word k [THEN upd_offset]
    using aligned_offset [OF assms(1), of k] by (simp add: fun_eq_iff)
qed

text \<open>The words stored so far, and then the trailing bytes.\<close>

lemma memset_fills:
  assumes "unat p mod 4 = 0"
  shows "memset p byte sz m = Some (\<lambda>a. if unat (a - p) < unat sz then byte else m a)"
proof -
  define n where "n = unat sz div 4"
  define r where "r = unat sz mod 4"
  have sz: "unat sz = 4 * n + r" "r < 4" by (auto simp: n_def r_def)
  have lim: "4 * n + r < 2 ^ 32" using unat_less_2p32 [of sz] sz by simp
  let ?fill = "\<lambda>k a. if unat (a - p) < k then byte else m a"
  have "for_upto n (\<lambda>i. store32 (p + 4 * of_nat i) (word_of_bytes byte byte byte byte)) (?fill (4 * 0)) =
      Some (?fill (4 * n))"
  proof (rule for_upto_states [where f = "\<lambda>i. ?fill (4 * i)"])
    fix i assume "i < n"
    then show "store32 (p + 4 * of_nat i) (word_of_bytes byte byte byte byte) (?fill (4 * i)) =
        Some (?fill (4 * Suc i))"
      using lim by (subst store32_bytes [OF assms]) (auto simp: fun_eq_iff)
  qed
  moreover have "for_upto r (\<lambda>j m. Some (m(p + of_nat j + of_nat n * 4 := byte))) (?fill (4 * n + 0)) =
      Some (?fill (4 * n + r))"
  proof (rule for_upto_states [where f = "\<lambda>j. ?fill (4 * n + j)"])
    fix j assume j: "j < r"
    have o: "p + of_nat j + of_nat n * 4 = p + of_nat (4 * n + j)" by simp
    have "4 * n + j < 2 ^ 32" using lim j by simp
    then show "Some ((?fill (4 * n + j))(p + of_nat j + of_nat n * 4 := byte)) = Some (?fill (4 * n + Suc j))"
      unfolding o by (subst upd_offset) (auto simp: fun_eq_iff)
  qed
  ultimately show ?thesis
    by (simp add: memset_def Let_def sz flip: n_def r_def)
qed

text \<open>
  A copy between areas that do not overlap: no byte of the source is one of the bytes
  written.
\<close>

lemma load32_offset:
  fixes p :: u32
  assumes "unat p mod 4 = 0"
  shows "load32 (p + 4 * of_nat k) m =
    Some (word_of_bytes (m (p + of_nat (4 * k))) (m (p + of_nat (4 * k + 1)))
           (m (p + of_nat (4 * k + 2))) (m (p + of_nat (4 * k + 3))))"
proof -
  have o: "p + of_nat (4 * k) + 1 = p + of_nat (4 * k + 1)" "p + of_nat (4 * k) + 2 = p + of_nat (4 * k + 2)"
    "p + of_nat (4 * k) + 3 = p + of_nat (4 * k + 3)" "p + 4 * of_nat k = p + of_nat (4 * k)" by simp_all
  show ?thesis
    unfolding o(4) load32_def o(1-3) using aligned_offset [OF assms, of k] by simp
qed

lemma memcpy_copies:
  assumes al: "unat p mod 4 = 0" "unat p2 mod 4 = 0"
    and sep: "\<And>i. i < unat sz \<Longrightarrow> unat sz \<le> unat (p2 + of_nat i - p)"
  shows "memcpy p p2 sz m =
    Some (\<lambda>a. if unat (a - p) < unat sz then m (p2 + (a - p)) else m a)"
proof -
  define n where "n = unat sz div 4"
  define r where "r = unat sz mod 4"
  have sz: "unat sz = 4 * n + r" "r < 4" by (auto simp: n_def r_def)
  have lim: "4 * n + r < 2 ^ 32" using unat_less_2p32 [of sz] sz by simp
  let ?copy = "\<lambda>k a. if unat (a - p) < k then m (p2 + (a - p)) else m a"
  have src: "?copy k (p2 + of_nat i) = m (p2 + of_nat i)" if "i < unat sz" "k \<le> unat sz" for i k
    using sep [OF that(1)] that(2) by simp
  have offs: "a - p = of_nat k" if "unat (a - p) = k" for a k
    using that by auto
  have "for_upto n (\<lambda>i m. do { w \<leftarrow> load32 (p2 + 4 * of_nat i) m; store32 (p + 4 * of_nat i) w m })
      (?copy (4 * 0)) = Some (?copy (4 * n))"
  proof (rule for_upto_states [where f = "\<lambda>i. ?copy (4 * i)"])
    fix i assume i: "i < n"
    let ?t = "?copy (4 * i)"
    have "4 * i + 3 < unat sz" "4 * i \<le> unat sz" using i sz by auto
    then have "?t (p2 + of_nat (4 * i)) = m (p2 + of_nat (4 * i))"
      "?t (p2 + of_nat (4 * i + 1)) = m (p2 + of_nat (4 * i + 1))"
      "?t (p2 + of_nat (4 * i + 2)) = m (p2 + of_nat (4 * i + 2))"
      "?t (p2 + of_nat (4 * i + 3)) = m (p2 + of_nat (4 * i + 3))"
      by (intro src; simp)+
    note w = load32_offset [OF al(2), of i ?t, unfolded this]
    have "4 * i + 3 < 2 ^ 32" using i lim by simp
    then show "do { w \<leftarrow> load32 (p2 + 4 * of_nat i) ?t; store32 (p + 4 * of_nat i) w ?t } =
        Some (?copy (4 * Suc i))"
      unfolding w Option.bind.simps
      by (subst store32_bytes [OF al(1)]) (auto simp: fun_eq_iff dest: offs)
  qed
  moreover have "for_upto r (\<lambda>j m. Some (m(p + of_nat j + of_nat n * 4 := m (p2 + of_nat j + of_nat n * 4))))
      (?copy (4 * n + 0)) = Some (?copy (4 * n + r))"
  proof (rule for_upto_states [where f = "\<lambda>j. ?copy (4 * n + j)"])
    fix j assume j: "j < r"
    have o: "p + of_nat j + of_nat n * 4 = p + of_nat (4 * n + j)"
      "p2 + of_nat j + of_nat n * 4 = p2 + of_nat (4 * n + j)" by simp_all
    have s: "?copy (4 * n + j) (p2 + of_nat (4 * n + j)) = m (p2 + of_nat (4 * n + j))"
      using j sz by (intro src) auto
    have "4 * n + j < 2 ^ 32" using lim j by simp
    then show "Some ((?copy (4 * n + j))(p + of_nat j + of_nat n * 4 :=
          ?copy (4 * n + j) (p2 + of_nat j + of_nat n * 4))) = Some (?copy (4 * n + Suc j))"
      unfolding o s
      by (subst upd_offset) (auto simp: fun_eq_iff dest: offs)
  qed
  ultimately show ?thesis
    by (simp add: memcpy_def Let_def sz flip: n_def r_def)
qed

end
