(* ===== verification/Hlist.thy ===== *)
theory Hlist
  imports Prelude
begin

text \<open>
  The single-headed lists of \<open>lib/list.h\<close> and the statically sized hash tables built on
  them (\<open>lib/hash.h\<close>, \<open>lib/log2.h\<close>, \<open>lib/hashtable.h\<close>).  A head is named by a value of
  type \<open>'b\<close>, a node by one of type \<open>'n\<close>.  The \<open>pprev\<close> field of a node holds the address
  of the pointer that leads to it: the \<open>first\<close> field of a head or the \<open>next\<close> field of
  another node.
\<close>

section \<open>The store of hash list nodes\<close>

datatype ('b, 'n) hslot = NoSlot | FirstOf 'b | NextOf 'n

record ('b, 'n) hheap =
  hfirst :: "'b \<Rightarrow> 'n ptr"
  hnext :: "'n \<Rightarrow> 'n ptr"
  hpprev :: "'n \<Rightarrow> ('b, 'n) hslot"

fun get_hnext :: "'n ptr \<Rightarrow> ('b, 'n) hheap \<Rightarrow> 'n ptr option" where
  "get_hnext NULL h = None"
| "get_hnext (Ref n) h = Some (hnext h n)"

fun get_pprev :: "'n ptr \<Rightarrow> ('b, 'n) hheap \<Rightarrow> ('b, 'n) hslot option" where
  "get_pprev NULL h = None"
| "get_pprev (Ref n) h = Some (hpprev h n)"

fun set_hnext :: "'n ptr \<Rightarrow> 'n ptr \<Rightarrow> ('b, 'n) hheap \<Rightarrow> ('b, 'n) hheap option" where
  "set_hnext NULL v h = None"
| "set_hnext (Ref n) v h = Some (h\<lparr>hnext := (hnext h)(n := v)\<rparr>)"

fun set_pprev :: "'n ptr \<Rightarrow> ('b, 'n) hslot \<Rightarrow> ('b, 'n) hheap \<Rightarrow> ('b, 'n) hheap option" where
  "set_pprev NULL v h = None"
| "set_pprev (Ref n) v h = Some (h\<lparr>hpprev := (hpprev h)(n := v)\<rparr>)"

fun set_slot :: "('b, 'n) hslot \<Rightarrow> 'n ptr \<Rightarrow> ('b, 'n) hheap \<Rightarrow> ('b, 'n) hheap option" where
  "set_slot NoSlot v h = None"
| "set_slot (FirstOf b) v h = Some (h\<lparr>hfirst := (hfirst h)(b := v)\<rparr>)"
| "set_slot (NextOf n) v h = Some (h\<lparr>hnext := (hnext h)(n := v)\<rparr>)"

fun next_slot :: "'n ptr \<Rightarrow> ('b, 'n) hslot" where
  "next_slot NULL = NoSlot"
| "next_slot (Ref n) = NextOf n"

section \<open>The operations of lib/list.h on hash lists\<close>

definition INIT_HLIST_HEAD :: "'b \<Rightarrow> ('b, 'n) hheap \<Rightarrow> ('b, 'n) hheap" where
  "INIT_HLIST_HEAD b h = h\<lparr>hfirst := (hfirst h)(b := NULL)\<rparr>"

definition INIT_HLIST_NODE :: "'n ptr \<Rightarrow> ('b, 'n) hheap \<Rightarrow> ('b, 'n) hheap option" where
  "INIT_HLIST_NODE n h = do {
     h \<leftarrow> set_hnext n NULL h;
     set_pprev n NoSlot h
   }"

definition hlist_unhashed :: "'n ptr \<Rightarrow> ('b, 'n) hheap \<Rightarrow> bool option" where
  "hlist_unhashed n h = do { pp \<leftarrow> get_pprev n h; Some (pp = NoSlot) }"

definition hlist_unhashed_lockless :: "'n ptr \<Rightarrow> ('b, 'n) hheap \<Rightarrow> bool option" where
  "hlist_unhashed_lockless n h = do { pp \<leftarrow> get_pprev n h; Some (pp = NoSlot) }"

definition hlist_empty :: "'b \<Rightarrow> ('b, 'n) hheap \<Rightarrow> bool" where
  "hlist_empty b h \<longleftrightarrow> hfirst h b = NULL"

definition raw_hlist_del :: "'n ptr \<Rightarrow> ('b, 'n) hheap \<Rightarrow> ('b, 'n) hheap option" where
  "raw_hlist_del n h = do {
     next \<leftarrow> get_hnext n h;
     pp \<leftarrow> get_pprev n h;
     h \<leftarrow> set_slot pp next h;
     if next \<noteq> NULL then set_pprev next pp h else Some h
   }"

definition hlist_del :: "'n ptr \<Rightarrow> ('b, 'n) hheap \<Rightarrow> ('b, 'n) hheap option" where
  "hlist_del n h = do {
     h \<leftarrow> raw_hlist_del n h;
     h \<leftarrow> set_hnext n NULL h;
     set_pprev n NoSlot h
   }"

definition hlist_del_init :: "'n ptr \<Rightarrow> ('b, 'n) hheap \<Rightarrow> ('b, 'n) hheap option" where
  "hlist_del_init n h = do {
     u \<leftarrow> hlist_unhashed n h;
     if \<not> u then do { h \<leftarrow> raw_hlist_del n h; INIT_HLIST_NODE n h } else Some h
   }"

definition hlist_add_head :: "'n ptr \<Rightarrow> 'b \<Rightarrow> ('b, 'n) hheap \<Rightarrow> ('b, 'n) hheap option" where
  "hlist_add_head n b h = (let first = hfirst h b in do {
     h \<leftarrow> set_hnext n first h;
     h \<leftarrow> (if first \<noteq> NULL then set_pprev first (next_slot n) h else Some h);
     h \<leftarrow> set_slot (FirstOf b) n h;
     set_pprev n (FirstOf b) h
   })"

definition hlist_add_before :: "'n ptr \<Rightarrow> 'n ptr \<Rightarrow> ('b, 'n) hheap \<Rightarrow> ('b, 'n) hheap option" where
  "hlist_add_before n next h = do {
     pp \<leftarrow> get_pprev next h;
     h \<leftarrow> set_pprev n pp h;
     h \<leftarrow> set_hnext n next h;
     h \<leftarrow> set_pprev next (next_slot n) h;
     pp' \<leftarrow> get_pprev n h;
     set_slot pp' n h
   }"

definition hlist_add_behind :: "'n ptr \<Rightarrow> 'n ptr \<Rightarrow> ('b, 'n) hheap \<Rightarrow> ('b, 'n) hheap option" where
  "hlist_add_behind n prev h = do {
     next \<leftarrow> get_hnext prev h;
     h \<leftarrow> set_hnext n next h;
     h \<leftarrow> set_hnext prev n h;
     h \<leftarrow> set_pprev n (next_slot prev) h;
     next' \<leftarrow> get_hnext n h;
     if next' \<noteq> NULL then set_pprev next' (next_slot n) h else Some h
   }"

definition hlist_add_fake :: "'n ptr \<Rightarrow> ('b, 'n) hheap \<Rightarrow> ('b, 'n) hheap option" where
  "hlist_add_fake n h = set_pprev n (next_slot n) h"

definition hlist_fake :: "'n ptr \<Rightarrow> ('b, 'n) hheap \<Rightarrow> bool option" where
  "hlist_fake n h = do { pp \<leftarrow> get_pprev n h; Some (pp = next_slot n) }"

definition hlist_is_singular_node :: "'n ptr \<Rightarrow> 'b \<Rightarrow> ('b, 'n) hheap \<Rightarrow> bool option" where
  "hlist_is_singular_node n b h = do {
     next \<leftarrow> get_hnext n h;
     pp \<leftarrow> get_pprev n h;
     Some (next = NULL \<and> pp = FirstOf b)
   }"

definition hlist_move_list :: "'b \<Rightarrow> 'b \<Rightarrow> ('b, 'n) hheap \<Rightarrow> ('b, 'n) hheap option" where
  "hlist_move_list old new h = do {
     h \<leftarrow> set_slot (FirstOf new) (hfirst h old) h;
     h \<leftarrow> (if hfirst h new \<noteq> NULL then set_pprev (hfirst h new) (FirstOf new) h else Some h);
     set_slot (FirstOf old) NULL h
   }"

text \<open>\<open>hlist_for_each\<close>, with the conventions of \<open>list_for_each\<close>.\<close>

partial_function (option) hlist_for_each_from ::
  "('n ptr \<Rightarrow> 's \<Rightarrow> (bool \<times> 's) option) \<Rightarrow> ('s \<Rightarrow> ('b, 'n) hheap) \<Rightarrow> 'n ptr \<Rightarrow> 's \<Rightarrow> 's option"
where
  "hlist_for_each_from body hh pos s =
     (if pos = NULL then Some s
      else do {
        (brk, s') \<leftarrow> body pos s;
        if brk then Some s'
        else do {
          n \<leftarrow> get_hnext pos (hh s');
          hlist_for_each_from body hh n s'
        }
      })"

definition hlist_for_each ::
  "('n ptr \<Rightarrow> 's \<Rightarrow> (bool \<times> 's) option) \<Rightarrow> ('s \<Rightarrow> ('b, 'n) hheap) \<Rightarrow> 'b \<Rightarrow> 's \<Rightarrow> 's option"
where
  "hlist_for_each body hh b s = hlist_for_each_from body hh (hfirst (hh s) b) s"

section \<open>Hashing: lib/hash.h and lib/log2.h\<close>

definition GOLDEN_RATIO_32 :: u32 where
  "GOLDEN_RATIO_32 = 0x61C88647"

definition hash_32_generic :: "u32 \<Rightarrow> u32" where
  "hash_32_generic val = val * GOLDEN_RATIO_32"

definition hash_32 :: "u32 \<Rightarrow> nat \<Rightarrow> u32" where
  "hash_32 val bits = drop_bit (32 - bits) (hash_32_generic val)"

definition hash_ptr :: "u32 \<Rightarrow> nat \<Rightarrow> u32" where
  "hash_ptr p bits = hash_32 p bits"

definition hash32_ptr :: "u32 \<Rightarrow> u32" where
  "hash32_ptr p = p"

text \<open>
  The conditional chain of \<open>const_ilog2\<close>: the first set bit from 63 down to 2, else 1.
  The argument is a compile-time constant (\<open>__builtin_constant_p\<close>) of 64 bits.
\<close>

definition const_ilog2 :: "nat \<Rightarrow> nat" where
  "const_ilog2 n =
     (if n < 2 then 0
      else case List.find (\<lambda>k. n div 2 ^ k mod 2 = 1) (rev [2..<64]) of
             Some k \<Rightarrow> k
           | None \<Rightarrow> 1)"

section \<open>Hash tables: lib/hashtable.h\<close>

definition HASH_BITS :: "nat \<Rightarrow> nat" where
  "HASH_BITS sz = const_ilog2 sz"

definition hash_min :: "u32 \<Rightarrow> nat \<Rightarrow> nat" where
  "hash_min val bits = unat (hash_32 val bits)"

definition raw_hash_init :: "nat \<Rightarrow> (nat, 'n) hheap \<Rightarrow> (nat, 'n) hheap" where
  "raw_hash_init sz h = fold INIT_HLIST_HEAD [0..<sz] h"

definition hash_add :: "nat \<Rightarrow> 'n ptr \<Rightarrow> u32 \<Rightarrow> (nat, 'n) hheap \<Rightarrow> (nat, 'n) hheap option" where
  "hash_add sz node key h = hlist_add_head node (hash_min key (HASH_BITS sz)) h"

definition hash_hashed :: "'n ptr \<Rightarrow> (nat, 'n) hheap \<Rightarrow> bool option" where
  "hash_hashed node h = do { u \<leftarrow> hlist_unhashed node h; Some (\<not> u) }"

definition raw_hash_empty :: "nat \<Rightarrow> (nat, 'n) hheap \<Rightarrow> bool" where
  "raw_hash_empty sz h = list_all (\<lambda>i. hlist_empty i h) [0..<sz]"

definition hash_del :: "'n ptr \<Rightarrow> (nat, 'n) hheap \<Rightarrow> (nat, 'n) hheap option" where
  "hash_del node h = hlist_del_init node h"

section \<open>Chains: what the hash lists mean\<close>

fun chain :: "('b, 'n) hheap \<Rightarrow> ('b, 'n) hslot \<Rightarrow> 'n ptr \<Rightarrow> 'n list \<Rightarrow> bool" where
  "chain h sl p [] \<longleftrightarrow> p = NULL"
| "chain h sl p (n # ns) \<longleftrightarrow> p = Ref n \<and> hpprev h n = sl \<and> chain h (NextOf n) (hnext h n) ns"

definition chains :: "('b, 'n) hheap \<Rightarrow> ('b \<Rightarrow> 'n list) \<Rightarrow> bool" where
  "chains h B \<longleftrightarrow> (\<forall>b. chain h (FirstOf b) (hfirst h b) (B b) \<and> distinct (B b)) \<and>
                 (\<forall>b c n. n \<in> set (B b) \<longrightarrow> n \<in> set (B c) \<longrightarrow> b = c)"

lemma chain_cong:
  "\<forall>n \<in> set ns. hnext h' n = hnext h n \<and> hpprev h' n = hpprev h n \<Longrightarrow>
   chain h' sl p ns = chain h sl p ns"
  by (induction ns arbitrary: sl p) auto

lemma chainsD:
  assumes "chains h B"
  shows "chain h (FirstOf b) (hfirst h b) (B b)" "distinct (B b)"
    and "n \<in> set (B b) \<Longrightarrow> n \<in> set (B c) \<Longrightarrow> b = c"
  using assms by (auto simp: chains_def)

lemma chainsI:
  assumes a: "\<And>b. chain h (FirstOf b) (hfirst h b) (B b)" and b: "\<And>b. distinct (B b)"
    and c: "\<And>b c n. n \<in> set (B b) \<Longrightarrow> n \<in> set (B c) \<Longrightarrow> b = c"
  shows "chains h B"
proof -
  have "\<forall>b c n. n \<in> set (B b) \<longrightarrow> n \<in> set (B c) \<longrightarrow> b = c"
    by (intro allI impI) (rule c)
  moreover have "\<forall>b. chain h (FirstOf b) (hfirst h b) (B b) \<and> distinct (B b)" using a b by simp
  ultimately show ?thesis unfolding chains_def by (rule conjI [rotated])
qed

text \<open>A change of one chain, and of nodes that are in no chain.\<close>

lemma chains_local:
  assumes B: "chains h B"
    and new: "chain h' (FirstOf b) (hfirst h' b) ns" "distinct ns"
      "\<And>c n. n \<in> set ns \<Longrightarrow> c \<noteq> b \<Longrightarrow> n \<notin> set (B c)"
    and heads: "\<And>c. c \<noteq> b \<Longrightarrow> hfirst h' c = hfirst h c"
    and same: "\<And>c n. c \<noteq> b \<Longrightarrow> n \<in> set (B c) \<Longrightarrow> hnext h' n = hnext h n \<and> hpprev h' n = hpprev h n"
  shows "chains h' (B(b := ns))"
proof (rule chainsI)
  fix c
  show "chain h' (FirstOf c) (hfirst h' c) ((B(b := ns)) c)"
    using new(1) chainsD(1) [OF B, of c] chain_cong [of "B c" h' h] heads same
    by (cases "c = b") auto
  show "distinct ((B(b := ns)) c)" using new(2) chainsD(2) [OF B] by simp
next
  fix c d n
  assume "n \<in> set ((B(b := ns)) c)" "n \<in> set ((B(b := ns)) d)"
  then show "c = d"
    using new(3) [of n] chainsD(3) [OF B, of n c d] by (cases "c = b"; cases "d = b") auto
qed

lemma hlist_empty_chains: "chains h B \<Longrightarrow> hlist_empty b h \<longleftrightarrow> B b = []"
  using chainsD(1) [of h B b] by (cases "B b") (auto simp: hlist_empty_def)

lemma hlist_add_head_chains:
  assumes B: "chains h B" and n: "\<And>c. n \<notin> set (B c)"
  shows "\<exists>h'. hlist_add_head (Ref n) b h = Some h' \<and> chains h' (B(b := n # B b))"
proof (cases "B b")
  case Nil
  then have "hfirst h b = NULL" using chainsD(1) [OF B, of b] by simp
  then have "hlist_add_head (Ref n) b h =
      Some (h\<lparr>hfirst := (hfirst h)(b := Ref n), hnext := (hnext h)(n := NULL),
              hpprev := (hpprev h)(n := FirstOf b)\<rparr>)" (is "_ = Some ?h'")
    by (simp add: hlist_add_head_def)
  moreover have "chains ?h' (B(b := n # B b))"
    using n Nil by (intro chains_local [OF B]) auto
  ultimately show ?thesis by blast
next
  case (Cons m ms)
  then have m: "hfirst h b = Ref m" "chain h (NextOf m) (hnext h m) ms" and mn: "m \<noteq> n"
    using chainsD(1) [OF B, of b] n [of b] by auto
  let ?h' = "h\<lparr>hfirst := (hfirst h)(b := Ref n), hnext := (hnext h)(n := Ref m),
              hpprev := (hpprev h)(m := NextOf n, n := FirstOf b)\<rparr>"
  have "hlist_add_head (Ref n) b h = Some ?h'"
    using m by (simp add: hlist_add_head_def)
  moreover have "chains ?h' (B(b := n # B b))"
  proof (rule chains_local [OF B])
    have "chain ?h' (NextOf m) (hnext h m) ms = chain h (NextOf m) (hnext h m) ms"
      using n [of b] Cons chainsD(2) [OF B, of b] by (intro chain_cong) auto
    then show "chain ?h' (FirstOf b) (hfirst ?h' b) (n # B b)"
      using m mn Cons by simp
    show "distinct (n # B b)" using n chainsD(2) [OF B] by simp
    show "x \<notin> set (B c)" if "x \<in> set (n # B b)" "c \<noteq> b" for c x
      using that n chainsD(3) [OF B] by auto
    show "hnext ?h' x = hnext h x \<and> hpprev ?h' x = hpprev h x" if "c \<noteq> b" "x \<in> set (B c)" for c x
      using that n chainsD(3) [OF B, of x c b] Cons by auto
  qed simp
  ultimately show ?thesis by blast
qed

text \<open>A chain read up to some point: the part before it, and the pointer found there.\<close>

fun segment :: "('b, 'n) hheap \<Rightarrow> ('b, 'n) hslot \<Rightarrow> 'n ptr \<Rightarrow> 'n list \<Rightarrow> 'n ptr \<Rightarrow> bool" where
  "segment h sl p [] e \<longleftrightarrow> p = e"
| "segment h sl p (n # ns) e \<longleftrightarrow>
     p = Ref n \<and> hpprev h n = sl \<and> segment h (NextOf n) (hnext h n) ns e"

definition slot_after :: "('b, 'n) hslot \<Rightarrow> 'n list \<Rightarrow> ('b, 'n) hslot" where
  "slot_after sl us = (if us = [] then sl else NextOf (last us))"

lemma slot_after_simps [simp]:
  "slot_after sl [] = sl" "slot_after sl (us @ [u]) = NextOf u"
  "slot_after sl (u # us) = slot_after (NextOf u) us"
  by (auto simp: slot_after_def)

lemma chain_append:
  "chain h sl p (us @ vs) \<longleftrightarrow> (\<exists>e. segment h sl p us e \<and> chain h (slot_after sl us) e vs)"
  by (induction us arbitrary: sl p) auto

lemma segment_snoc:
  "segment h sl p (us @ [u]) e \<longleftrightarrow>
     segment h sl p us (Ref u) \<and> hpprev h u = slot_after sl us \<and> hnext h u = e"
  by (induction us arbitrary: sl p) auto

lemma segment_cong:
  "\<forall>n \<in> set ns. hnext h' n = hnext h n \<and> hpprev h' n = hpprev h n \<Longrightarrow>
   segment h' sl p ns e = segment h sl p ns e"
  by (induction ns arbitrary: sl p) auto

lemma raw_hlist_del_chains:
  assumes B: "chains h B" and n: "B b = us @ n # vs"
  shows "\<exists>h'. raw_hlist_del (Ref n) h = Some h' \<and> chains h' (B(b := us @ vs))"
proof -
  define sl where "sl = slot_after (FirstOf b) us"
  have d: "distinct (us @ n # vs)" using chainsD(2) [OF B, of b] n by simp
  have seg: "segment h (FirstOf b) (hfirst h b) us (Ref n)" and n_sl: "hpprev h n = sl"
    and rest: "chain h (NextOf n) (hnext h n) vs"
    using chainsD(1) [OF B, of b] n by (auto simp: chain_append sl_def)
  define h1 where "h1 = the (set_slot sl (hnext h n) h)"
  define h' where "h' = (case vs of [] \<Rightarrow> h1 | v # _ \<Rightarrow> h1\<lparr>hpprev := (hpprev h1)(v := sl)\<rparr>)"
  have h1: "set_slot sl (hnext h n) h = Some h1"
    by (cases us rule: rev_cases) (auto simp: h1_def sl_def)
  have p1: "hpprev h1 = hpprev h" and n1: "m \<notin> set us \<Longrightarrow> hnext h1 m = hnext h m"
    and f1: "c \<noteq> b \<Longrightarrow> hfirst h1 c = hfirst h c" for m c
    using h1 by (cases us rule: rev_cases; auto simp: sl_def)+
  have n2: "hnext h1 m = hnext h m" if "m \<in> set vs" for m
    using that d by (intro n1) auto
  have eff: "raw_hlist_del (Ref n) h = Some h'"
    using h1 n_sl rest by (cases vs) (auto simp: raw_hlist_del_def h'_def)
  have h'_eqs: "hfirst h' = hfirst h1" "hnext h' = hnext h1"
    "hpprev h' = (case vs of [] \<Rightarrow> hpprev h | v # _ \<Rightarrow> (hpprev h)(v := sl))"
    by (auto simp: h'_def p1 split: list.splits)
  have "chain h' sl (hnext h n) vs"
  proof (cases vs)
    case Nil
    then show ?thesis using rest by simp
  next
    case (Cons v ws)
    have "chain h' (NextOf v) (hnext h v) ws = chain h (NextOf v) (hnext h v) ws"
      using d Cons by (intro chain_cong) (auto simp: h'_eqs n2)
    then show ?thesis using rest Cons d by (auto simp: h'_eqs n2)
  qed
  moreover have "segment h' (FirstOf b) (hfirst h' b) us (hnext h n)"
  proof (cases us rule: rev_cases)
    case Nil
    then show ?thesis using h1 by (auto simp: h'_eqs sl_def)
  next
    case (snoc ws u)
    then have "h1 = h\<lparr>hnext := (hnext h)(u := hnext h n)\<rparr>" using h1 by (simp add: sl_def)
    moreover have "segment h' (FirstOf b) (hfirst h b) ws (Ref u) = segment h (FirstOf b) (hfirst h b) ws (Ref u)"
      using d snoc calculation by (intro segment_cong) (auto simp: h'_eqs split: list.splits)
    ultimately show ?thesis
      using seg snoc d by (auto simp: segment_snoc h'_eqs split: list.splits)
  qed
  ultimately have "chain h' (FirstOf b) (hfirst h' b) (us @ vs)"
    by (auto simp: chain_append sl_def)
  moreover have other: "m \<notin> set us \<and> m \<notin> set vs" if "c \<noteq> b" "m \<in> set (B c)" for c m
    using that chainsD(3) [OF B, of m c b] n by auto
  ultimately have "chains h' (B(b := us @ vs))"
    using d
    by (intro chains_local [OF B]) (auto simp: h'_eqs n1 f1 split: list.splits dest: other)
  with eff show ?thesis by blast
qed

lemma hlist_del_init_chains:
  assumes B: "chains h B" and n: "B b = us @ n # vs"
  shows "\<exists>h'. hlist_del_init (Ref n) h = Some h' \<and> chains h' (B(b := us @ vs)) \<and> hpprev h' n = NoSlot"
proof -
  obtain h1 where h1: "raw_hlist_del (Ref n) h = Some h1" "chains h1 (B(b := us @ vs))"
    using raw_hlist_del_chains [OF assms] by blast
  let ?h' = "h1\<lparr>hnext := (hnext h1)(n := NULL), hpprev := (hpprev h1)(n := NoSlot)\<rparr>"
  have "hpprev h n \<noteq> NoSlot"
    using chainsD(1) [OF B, of b] n by (auto simp: chain_append slot_after_def)
  then have eff: "hlist_del_init (Ref n) h = Some ?h'"
    using h1(1) by (simp add: hlist_del_init_def hlist_unhashed_def INIT_HLIST_NODE_def)
  have out: "n \<notin> set ((B(b := us @ vs)) c)" for c
    using chainsD(2) [OF B, of b] chainsD(3) [OF B, of n b c] n by auto
  have "chain ?h' (FirstOf c) (hfirst ?h' c) ((B(b := us @ vs)) c)" for c
    using chainsD(1) [OF h1(2), of c] out [of c]
      chain_cong [of "(B(b := us @ vs)) c" ?h' h1] by auto
  then have "chains ?h' (B(b := us @ vs))"
    using chainsD(2,3) [OF h1(2)] by (intro chainsI)
  with eff show ?thesis by simp
qed

lemma hlist_for_each_from_chain:
  assumes "chain (hh s) sl p ns"
    and body: "\<And>p s b s'. body p s = Some (b, s') \<Longrightarrow> hh s' = hh s"
  shows "hlist_for_each_from body hh p s = for_entries body ns s"
  using assms(1)
proof (induction ns arbitrary: sl p s)
  case Nil
  then show ?case by (simp add: hlist_for_each_from.simps)
next
  case (Cons n ns)
  have "hlist_for_each_from body hh (hnext (hh s') n) s' = for_entries body ns s'"
    if "body (Ref n) s = Some (b, s')" for b s'
    using Cons.IH [of s' "NextOf n" "hnext (hh s') n"] Cons.prems body [OF that] by simp
  then show ?case
    using Cons.prems
    by (auto simp: hlist_for_each_from.simps [of _ _ "Ref n"] body split: Option.bind_split if_splits)
qed

lemma hlist_for_each_chains:
  assumes "chains (hh s) B"
    and "\<And>p s b s'. body p s = Some (b, s') \<Longrightarrow> hh s' = hh s"
  shows "hlist_for_each body hh b s = for_entries body (B b) s"
  unfolding hlist_for_each_def
  by (rule hlist_for_each_from_chain [where hh = hh, OF chainsD(1) [OF assms(1)]]) (rule assms(2))

section \<open>Hash values\<close>

text \<open>
  Multiplication by the golden ratio is a bijection on 32-bit words: it is odd, and
  \<open>0xEBB34377\<close> is its inverse modulo \<open>2 ^ 32\<close>.
\<close>

lemma HASH_BITS_32: "HASH_BITS 32 = 5"
  by (simp add: HASH_BITS_def const_ilog2_def upt_rec)

lemma hash_32_bound:
  assumes "bits \<le> 32"
  shows "unat (hash_32 val bits) < 2 ^ bits"
proof -
  have "unat (hash_32_generic val) < 2 ^ 32"
    using unsigned_less [of "hash_32_generic val"] by simp
  then have "unat (hash_32_generic val) < 2 ^ (32 - bits) * 2 ^ bits"
    using assms by (simp flip: power_add)
  then have "unat (hash_32_generic val) div 2 ^ (32 - bits) < 2 ^ bits"
    by (simp add: less_mult_imp_div_less mult.commute)
  then show ?thesis by (simp add: hash_32_def unat_drop_bit_eq drop_bit_eq_div [where 'a = nat])
qed

lemma hash_min_bound: "hash_min val (HASH_BITS 32) < 32"
  using hash_32_bound [of 5 val] by (simp add: hash_min_def HASH_BITS_32)

lemma const_ilog2_find:
  fixes n :: nat
  assumes "List.find (\<lambda>k. n div 2 ^ k mod 2 = 1) (rev [2..<m]) = Some k" "n < 2 ^ m"
  shows "2 ^ k \<le> n \<and> n < 2 ^ Suc k"
  using assms
proof (induction m)
  case 0
  then show ?case by simp
next
  case (Suc m)
  show ?case
  proof (cases "2 \<le> m \<and> n div 2 ^ m mod 2 = 1")
    case True
    then have "k = m" using Suc.prems(1) by simp
    moreover have "n div 2 ^ m \<noteq> 0" using True by auto
    ultimately show ?thesis using Suc.prems(2) by (simp add: div_eq_0_iff)
  next
    case False
    then have f: "List.find (\<lambda>k. n div 2 ^ k mod 2 = 1) (rev [2..<m]) = Some k"
      using Suc.prems(1) by (auto split: if_splits)
    then have "2 \<le> m" by (cases "2 \<le> m") auto
    then have "n div 2 ^ m mod 2 = 0" using False by auto
    moreover have "n div 2 ^ m < 2" using Suc.prems(2) by (simp add: less_mult_imp_div_less)
    ultimately have "n < 2 ^ m" by (simp add: div_eq_0_iff)
    with f show ?thesis by (rule Suc.IH)
  qed
qed

lemma const_ilog2_none:
  fixes n :: nat
  assumes "List.find (\<lambda>k. n div 2 ^ k mod 2 = 1) (rev [2..<m]) = None" "n < 2 ^ m" "2 \<le> m"
  shows "n < 4"
  using assms
proof (induction m)
  case (Suc m)
  show ?case
  proof (cases "2 \<le> m")
    case True
    then have "n div 2 ^ m mod 2 = 0" and
      f: "List.find (\<lambda>k. n div 2 ^ k mod 2 = 1) (rev [2..<m]) = None"
      using Suc.prems(1) by (auto split: if_splits)
    moreover have "n div 2 ^ m < 2" using Suc.prems(2) by (simp add: less_mult_imp_div_less)
    ultimately have "n < 2 ^ m" by (simp add: div_eq_0_iff)
    with f True show ?thesis by (intro Suc.IH)
  next
    case False
    with Suc.prems(3) have "m = 1" by simp
    with Suc.prems(2) show ?thesis by simp
  qed
qed simp

lemma hash_32_generic_left_inverse: "hash_32_generic val * 0xEBB34377 = val"
proof -
  have "GOLDEN_RATIO_32 * 0xEBB34377 = 1" by (simp add: GOLDEN_RATIO_32_def)
  then show ?thesis by (simp add: hash_32_generic_def mult.assoc)
qed

end
