(* ===== verification/Kernel_State.thy ===== *)
theory Kernel_State
  imports Utils Hlist
begin

text \<open>
  The data of \<open>lib/pandos_types.h\<close> and the static variables of phase 1.  A process
  control block is named by its index in \<open>pcbFree_table\<close>, a semaphore descriptor by its
  index in \<open>semd_table\<close>, a namespace descriptor by its row (the type) and column in
  \<open>type_nsd\<close>.  Every \<open>struct list_head\<close> of the kernel is a value of \<open>lnode\<close>: a
  static list head or a field of a descriptor.  The addresses that the code compares,
  hashes or hands to processes (semaphore keys, register addresses) are 32-bit words.
\<close>

section \<open>Constants\<close>

definition MAX_PROC :: nat where "MAX_PROC = 20"
definition NS_PID :: nat where "NS_PID = 0"
definition NS_TYPE_LAST :: nat where "NS_TYPE_LAST = NS_PID"
definition NS_TYPE_MAX :: nat where "NS_TYPE_MAX = NS_TYPE_LAST + 1"

text \<open>\<open>DEFINE_HASHTABLE(semd_h, 5)\<close>: \<open>1 << 5\<close> buckets.\<close>

definition SEMD_H_SIZE :: nat where "SEMD_H_SIZE = 32"

section \<open>Descriptors\<close>

type_synonym pcb = nat
type_synonym semd = nat
type_synonym nsd = "nat \<times> nat"

text \<open>
  The processor state \<open>state_t\<close> is declared by the uMPS3 headers, outside the
  repository.  The model has the fields that the source names; \<open>st_rest\<close> stands for the
  other words, which the source only copies.
\<close>

record state_t =
  cause :: u32
  status :: u32
  pc_epc :: u32
  reg_a0 :: u32
  reg_a1 :: u32
  reg_a2 :: u32
  reg_a3 :: u32
  reg_v0 :: u32
  reg_sp :: u32
  reg_t9 :: u32
  st_rest :: "nat \<Rightarrow> u32"

record pcb_t =
  p_parent :: "pcb ptr"
  p_s :: state_t
  p_time :: u32
  p_semAdd :: u32
  namespaces :: "nat \<Rightarrow> nsd ptr"
  p_supportStruct :: u32
  cmd_addr :: u32
  cmd_values :: u32

definition zero_state :: state_t where
  "zero_state = \<lparr>cause = 0, status = 0, pc_epc = 0, reg_a0 = 0, reg_a1 = 0, reg_a2 = 0,
     reg_a3 = 0, reg_v0 = 0, reg_sp = 0, reg_t9 = 0, st_rest = (\<lambda>_. 0)\<rparr>"

definition zero_pcb :: pcb_t where
  "zero_pcb = \<lparr>p_parent = NULL, p_s = zero_state, p_time = 0, p_semAdd = 0,
     namespaces = (\<lambda>_. NULL), p_supportStruct = 0, cmd_addr = 0, cmd_values = 0\<rparr>"

section \<open>List nodes\<close>

datatype lnode =
    PcbFree_h | Ready_queue
  | P_list pcb | P_child pcb | P_sib pcb
  | SemdFree_h | S_procq semd | S_freelink semd
  | NsFree_h nat | NsList_h nat | N_link nsd

text \<open>
  Addresses of fields (\<open>&p->p_list\<close>) and back (\<open>container_of\<close>).  The address of a
  field of a NULL object cannot be dereferenced; \<open>container_of\<close> of a node of the wrong
  kind would be a wild pointer: \<open>None\<close>.
\<close>

fun p_list :: "pcb ptr \<Rightarrow> lnode ptr" where
  "p_list NULL = NULL" | "p_list (Ref p) = Ref (P_list p)"

fun p_child :: "pcb ptr \<Rightarrow> lnode ptr" where
  "p_child NULL = NULL" | "p_child (Ref p) = Ref (P_child p)"

fun p_sib :: "pcb ptr \<Rightarrow> lnode ptr" where
  "p_sib NULL = NULL" | "p_sib (Ref p) = Ref (P_sib p)"

fun s_procq :: "semd ptr \<Rightarrow> lnode ptr" where
  "s_procq NULL = NULL" | "s_procq (Ref i) = Ref (S_procq i)"

fun s_freelink :: "semd ptr \<Rightarrow> lnode ptr" where
  "s_freelink NULL = NULL" | "s_freelink (Ref i) = Ref (S_freelink i)"

fun n_link :: "nsd ptr \<Rightarrow> lnode ptr" where
  "n_link NULL = NULL" | "n_link (Ref n) = Ref (N_link n)"

fun pcb_of_p_list :: "lnode ptr \<Rightarrow> pcb ptr option" where
  "pcb_of_p_list (Ref (P_list p)) = Some (Ref p)" | "pcb_of_p_list _ = None"

fun pcb_of_p_sib :: "lnode ptr \<Rightarrow> pcb ptr option" where
  "pcb_of_p_sib (Ref (P_sib p)) = Some (Ref p)" | "pcb_of_p_sib _ = None"

fun semd_of_s_freelink :: "lnode ptr \<Rightarrow> semd ptr option" where
  "semd_of_s_freelink (Ref (S_freelink i)) = Some (Ref i)" | "semd_of_s_freelink _ = None"

fun nsd_of_n_link :: "lnode ptr \<Rightarrow> nsd ptr option" where
  "nsd_of_n_link (Ref (N_link n)) = Some (Ref n)" | "nsd_of_n_link _ = None"

section \<open>The state of phase 1\<close>

record kmem =
  lh :: "lnode lheap"
  hh :: "(nat, semd) hheap"
  pcbs :: "pcb \<Rightarrow> pcb_t"
  s_key :: "semd \<Rightarrow> u32"
  n_type :: "nsd \<Rightarrow> nat"

definition on_lh ::
  "(lnode lheap \<Rightarrow> lnode lheap option) \<Rightarrow> 'z kmem_scheme \<Rightarrow> 'z kmem_scheme option" where
  "on_lh f s = do { h \<leftarrow> f (lh s); Some (s\<lparr>lh := h\<rparr>) }"

definition on_hh ::
  "((nat, semd) hheap \<Rightarrow> (nat, semd) hheap option) \<Rightarrow> 'z kmem_scheme \<Rightarrow> 'z kmem_scheme option"
where
  "on_hh f s = do { h \<leftarrow> f (hh s); Some (s\<lparr>hh := h\<rparr>) }"

definition get_pcb :: "pcb ptr \<Rightarrow> 'z kmem_scheme \<Rightarrow> pcb_t option" where
  "get_pcb p s = do { i \<leftarrow> deref p; Some (pcbs s i) }"

definition upd_pcb ::
  "(pcb_t \<Rightarrow> pcb_t) \<Rightarrow> pcb ptr \<Rightarrow> 'z kmem_scheme \<Rightarrow> 'z kmem_scheme option" where
  "upd_pcb f p s = do { i \<leftarrow> deref p; Some (s\<lparr>pcbs := (pcbs s)(i := f (pcbs s i))\<rparr>) }"

lemma on_lh_Some [simp]: "f (lh s) = Some h \<Longrightarrow> on_lh f s = Some (s\<lparr>lh := h\<rparr>)"
  by (simp add: on_lh_def)

lemma on_hh_Some [simp]: "f (hh s) = Some h \<Longrightarrow> on_hh f s = Some (s\<lparr>hh := h\<rparr>)"
  by (simp add: on_hh_def)

lemma get_pcb_Ref [simp]: "get_pcb (Ref p) s = Some (pcbs s p)"
  by (simp add: get_pcb_def)

lemma upd_pcb_Ref [simp]: "upd_pcb f (Ref p) s = Some (s\<lparr>pcbs := (pcbs s)(p := f (pcbs s p))\<rparr>)"
  by (simp add: upd_pcb_def)

text \<open>One order for the updates of several fields.\<close>

lemma kmem_order:
  "s\<lparr>hh := x, lh := y\<rparr> = s\<lparr>lh := y, hh := x\<rparr>"
  "s\<lparr>pcbs := f, lh := y\<rparr> = s\<lparr>lh := y, pcbs := f\<rparr>"
  "s\<lparr>s_key := g, lh := y\<rparr> = s\<lparr>lh := y, s_key := g\<rparr>"
  "s\<lparr>n_type := n, lh := y\<rparr> = s\<lparr>lh := y, n_type := n\<rparr>"
  "s\<lparr>pcbs := f, hh := x\<rparr> = s\<lparr>hh := x, pcbs := f\<rparr>"
  "s\<lparr>s_key := g, hh := x\<rparr> = s\<lparr>hh := x, s_key := g\<rparr>"
  "s\<lparr>s_key := g, pcbs := f\<rparr> = s\<lparr>pcbs := f, s_key := g\<rparr>"
  for s :: "'z kmem_scheme"
  by simp_all

text \<open>
  The state before the first statement of the kernel: static storage is zero, but for
  the list heads with a static initialiser (\<open>LIST_HEAD\<close>); the buckets of the hash table
  are empty (\<open>HLIST_HEAD_INIT\<close>).
\<close>

definition static_lheap :: "lnode lheap" where
  "static_lheap =
     \<lparr>nxt = (\<lambda>_. NULL)(PcbFree_h := Ref PcbFree_h, SemdFree_h := Ref SemdFree_h),
      prv = (\<lambda>_. NULL)(PcbFree_h := Ref PcbFree_h, SemdFree_h := Ref SemdFree_h)\<rparr>"

definition static_hheap :: "(nat, semd) hheap" where
  "static_hheap = \<lparr>hfirst = (\<lambda>_. NULL), hnext = (\<lambda>_. NULL), hpprev = (\<lambda>_. NoSlot)\<rparr>"

definition static_kmem :: kmem where
  "static_kmem = \<lparr>lh = static_lheap, hh = static_hheap, pcbs = (\<lambda>_. zero_pcb),
     s_key = (\<lambda>_. 0), n_type = (\<lambda>_. 0)\<rparr>"

definition static_rings :: "lnode rmap" where
  "static_rings = [PcbFree_h \<mapsto> [], SemdFree_h \<mapsto> []]"

lemma rings_static: "rings static_lheap static_rings"
proof -
  have "shape static_rings"
    by (rule shapeI) (auto simp: static_rings_def in_ring_def split: if_splits)
  then show ?thesis
    by (auto simp: rings_def static_rings_def static_lheap_def split: if_splits)
qed

lemma chains_static: "chains static_hheap (\<lambda>_. [])"
  by (rule chainsI) (auto simp: static_hheap_def)

text \<open>The loops that fill a free list from a table.\<close>

lemma push_all_rings:
  assumes R: "rings (lh s) R" "R q = Some []"
    and f: "\<And>i. i < n \<Longrightarrow> f i \<notin> nodes R" "inj f"
  shows "\<exists>h. for_upto n (\<lambda>i. on_lh (list_add (Ref (f i)) (Ref q))) s = Some (s\<lparr>lh := h\<rparr>) \<and>
           rings h (R(q \<mapsto> map f (rev [0..<n])))"
proof -
  let ?P = "\<lambda>i t. \<exists>h. t = s\<lparr>lh := h\<rparr> \<and> rings h (R(q \<mapsto> map f (rev [0..<i])))"
  have "\<exists>t. for_upto n (\<lambda>i. on_lh (list_add (Ref (f i)) (Ref q))) s = Some t \<and> ?P n t"
  proof (rule for_upto_invariant)
    have "R(q \<mapsto> []) = R" using R(2) by auto
    with R(1) show "?P 0 s" by (intro exI [of _ "lh s"]) simp
  next
    fix i t assume i: "i < n" and "?P i t"
    then obtain h where h: "t = s\<lparr>lh := h\<rparr>" "rings h (R(q \<mapsto> map f (rev [0..<i])))" by blast
    have "f i \<notin> nodes (R(q \<mapsto> map f (rev [0..<i])))"
      using f(1) [OF i] f(2) R(2) by (auto simp: not_in_nodes dest: injD split: if_splits)
    from list_add_rings [OF h(2) _ this, of q] obtain h' where
      "list_add (Ref (f i)) (Ref q) h = Some h'" "rings h' (R(q \<mapsto> map f (rev [0..<Suc i])))"
      by auto
    then show "\<exists>t'. on_lh (list_add (Ref (f i)) (Ref q)) t = Some t' \<and> ?P (Suc i) t'"
      by (intro exI [of _ "s\<lparr>lh := h'\<rparr>"]) (auto simp: h(1) on_lh_def)
  qed
  then show ?thesis by auto
qed

end
