(* ===== verification/Interfaces.thy ===== *)
theory Interfaces
  imports Prelude
begin

text \<open>
  The contracts on which the components of the kernel rely, as locales.
  \<open>allocator\<close> is the contract of a pool of descriptors (process control blocks,
  semaphore descriptors, namespace descriptors); \<open>fifo\<close> is the contract of a queue of
  descriptors; \<open>transfer\<close> is what a loop needs that empties one queue into another.
  Each is interpreted on the model of the code in the theory of the component that
  provides it.
\<close>

section \<open>Pools of descriptors\<close>

text \<open>\<open>pool s xs U\<close>: in state \<open>s\<close>, \<open>xs\<close> are free, in the order in which they are handed
  out, and \<open>U\<close> are in use.\<close>

locale allocator =
  fixes pool :: "'s \<Rightarrow> 'x list \<Rightarrow> 'x set \<Rightarrow> bool"
    and alloc :: "'s \<Rightarrow> ('x ptr \<times> 's) option"
    and release :: "'x ptr \<Rightarrow> 's \<Rightarrow> 's option"
  assumes pool_disjoint: "pool s xs U \<Longrightarrow> distinct xs \<and> set xs \<inter> U = {}"
    and alloc_empty: "pool s [] U \<Longrightarrow> alloc s = Some (NULL, s)"
    and alloc_first: "pool s (x # xs) U \<Longrightarrow> \<exists>s'. alloc s = Some (Ref x, s') \<and> pool s' xs (insert x U)"
    and release_used: "pool s xs U \<Longrightarrow> x \<in> U \<Longrightarrow>
          \<exists>s'. release (Ref x) s = Some s' \<and> pool s' (x # xs) (U - {x})"
begin

text \<open>Allocating \<open>n\<close> times.\<close>

fun alloc_many :: "nat \<Rightarrow> 's \<Rightarrow> ('x ptr list \<times> 's) option" where
  "alloc_many 0 s = Some ([], s)"
| "alloc_many (Suc n) s = do {
     (p, s) \<leftarrow> alloc s;
     (ps, s) \<leftarrow> alloc_many n s;
     Some (p # ps, s)
   }"

text \<open>A pool hands out its free descriptors in order, each once, and then NULL for ever.\<close>

lemma alloc_many_pool:
  assumes "pool s xs U"
  shows "\<exists>s'. alloc_many n s = Some (map Ref (take n xs) @ replicate (n - length xs) NULL, s') \<and>
           pool s' (drop n xs) (set (take n xs) \<union> U)"
  using assms
proof (induction n arbitrary: s xs U)
  case 0
  then show ?case by simp
next
  case (Suc n)
  show ?case
  proof (cases xs)
    case Nil
    with Suc.prems have "alloc s = Some (NULL, s)" using alloc_empty by simp
    with Suc.IH [OF Suc.prems] Nil show ?thesis by auto
  next
    case (Cons x ys)
    then obtain s1 where "alloc s = Some (Ref x, s1)" "pool s1 ys (insert x U)"
      using alloc_first Suc.prems by blast
    with Suc.IH [of s1 ys "insert x U"] Cons show ?thesis by auto
  qed
qed

text \<open>What is released is what the next allocation returns.\<close>

lemma release_alloc:
  assumes "pool s xs U" "x \<in> U"
  shows "\<exists>s1 s2. release (Ref x) s = Some s1 \<and> alloc s1 = Some (Ref x, s2) \<and> pool s2 xs U"
proof -
  obtain s1 where s1: "release (Ref x) s = Some s1" "pool s1 (x # xs) (U - {x})"
    using release_used [OF assms] by blast
  moreover have "insert x (U - {x}) = U" using assms(2) by auto
  ultimately show ?thesis using alloc_first [OF s1(2)] by auto
qed

text \<open>An allocated descriptor was not in use.\<close>

lemma alloc_fresh:
  assumes "pool s xs U" "alloc s = Some (Ref x, s')"
  shows "x \<notin> U" "xs \<noteq> [] \<and> x = hd xs"
proof -
  show "xs \<noteq> [] \<and> x = hd xs"
    using assms alloc_empty alloc_first by (cases xs) fastforce+
  then show "x \<notin> U"
    using pool_disjoint [OF assms(1)] by (cases xs) auto
qed

end

section \<open>Queues\<close>

text \<open>\<open>queue s xs\<close>: the queue holds \<open>xs\<close>, the oldest entry first; \<open>outside s x\<close>: the
  entry \<open>x\<close> can be inserted.\<close>

locale fifo =
  fixes queue :: "'s \<Rightarrow> 'x list \<Rightarrow> bool"
    and outside :: "'s \<Rightarrow> 'x \<Rightarrow> bool"
    and enq :: "'x ptr \<Rightarrow> 's \<Rightarrow> 's option"
    and deq :: "'s \<Rightarrow> ('x ptr \<times> 's) option"
  assumes deq_empty: "queue s [] \<Longrightarrow> deq s = Some (NULL, s)"
    and deq_first: "queue s (x # xs) \<Longrightarrow> \<exists>s'. deq s = Some (Ref x, s') \<and> queue s' xs \<and> outside s' x"
    and enq_last: "queue s xs \<Longrightarrow> outside s x \<Longrightarrow> \<exists>s'. enq (Ref x) s = Some s' \<and> queue s' (xs @ [x])"
    and outside_enq: "queue s xs \<Longrightarrow> outside s x \<Longrightarrow> outside s y \<Longrightarrow> y \<noteq> x \<Longrightarrow>
          enq (Ref x) s = Some s' \<Longrightarrow> outside s' y"
begin

fun enq_all :: "'x list \<Rightarrow> 's \<Rightarrow> 's option" where
  "enq_all [] s = Some s"
| "enq_all (x # xs) s = do { s \<leftarrow> enq (Ref x) s; enq_all xs s }"

fun deq_many :: "nat \<Rightarrow> 's \<Rightarrow> ('x ptr list \<times> 's) option" where
  "deq_many 0 s = Some ([], s)"
| "deq_many (Suc n) s = do {
     (p, s) \<leftarrow> deq s;
     (ps, s) \<leftarrow> deq_many n s;
     Some (p # ps, s)
   }"

lemma enq_all_queue:
  assumes "queue s xs" "\<And>y. y \<in> set ys \<Longrightarrow> outside s y" "distinct ys"
  shows "\<exists>s'. enq_all ys s = Some s' \<and> queue s' (xs @ ys)"
  using assms
proof (induction ys arbitrary: s xs)
  case Nil
  then show ?case by simp
next
  case (Cons y ys)
  obtain s1 where s1: "enq (Ref y) s = Some s1" "queue s1 (xs @ [y])"
    using enq_last [OF Cons.prems(1)] Cons.prems(2) by auto
  have "outside s1 z" if "z \<in> set ys" for z
    using outside_enq [OF Cons.prems(1) _ _ _ s1(1), of z] that Cons.prems(2,3) by auto
  with Cons.IH [OF s1(2)] Cons.prems(3) s1(1) show ?case by auto
qed

lemma deq_many_queue:
  assumes "queue s xs"
  shows "\<exists>s'. deq_many n s = Some (map Ref (take n xs) @ replicate (n - length xs) NULL, s') \<and>
           queue s' (drop n xs)"
  using assms
proof (induction n arbitrary: s xs)
  case 0
  then show ?case by simp
next
  case (Suc n)
  show ?case
  proof (cases xs)
    case Nil
    then show ?thesis using deq_empty [of s] Suc.IH [OF Suc.prems] Suc.prems by auto
  next
    case (Cons x ys)
    then obtain s1 where "deq s = Some (Ref x, s1)" "queue s1 ys"
      using deq_first Suc.prems by blast
    with Suc.IH [of s1 ys] Cons show ?thesis by auto
  qed
qed

text \<open>First in, first out: what is inserted comes out in the order of insertion.\<close>

lemma fifo_order:
  assumes "queue s []" "\<And>y. y \<in> set ys \<Longrightarrow> outside s y" "distinct ys"
  shows "\<exists>s1 s2. enq_all ys s = Some s1 \<and> deq_many (length ys) s1 = Some (map Ref ys, s2) \<and> queue s2 []"
proof -
  obtain s1 where "enq_all ys s = Some s1" "queue s1 ys"
    using enq_all_queue [OF assms] by auto
  with deq_many_queue [of s1 ys "length ys"] show ?thesis by auto
qed

end

section \<open>Emptying one queue into another\<close>

text \<open>
  The loop \<open>while ((x = take()) != NULL) put(x)\<close>.  \<open>st s xs ys\<close>: the source holds
  \<open>xs\<close>, the target \<open>ys\<close>.
\<close>

partial_function (option) drain ::
  "('s \<Rightarrow> ('x ptr \<times> 's) option) \<Rightarrow> ('x ptr \<Rightarrow> 's \<Rightarrow> 's option) \<Rightarrow> 's \<Rightarrow> 's option" where
  "drain take_out put s = do {
     (p, s) \<leftarrow> take_out s;
     if p = NULL then Some s
     else do { s \<leftarrow> put p s; drain take_out put s }
   }"

locale transfer =
  fixes st :: "'s \<Rightarrow> 'x list \<Rightarrow> 'y list \<Rightarrow> bool"
    and out :: "'x \<Rightarrow> 'y"
    and take_out :: "'s \<Rightarrow> ('x ptr \<times> 's) option"
    and put :: "'x ptr \<Rightarrow> 's \<Rightarrow> 's option"
  assumes take_empty: "st s [] ys \<Longrightarrow> take_out s = Some (NULL, s)"
    and take_put: "st s (x # xs) ys \<Longrightarrow>
          \<exists>s1 s2. take_out s = Some (Ref x, s1) \<and> put (Ref x) s1 = Some s2 \<and> st s2 xs (ys @ [out x])"
begin

lemma drain_moves_all:
  assumes "st s xs ys"
  shows "\<exists>s'. drain take_out put s = Some s' \<and> st s' [] (ys @ map out xs)"
  using assms
proof (induction xs arbitrary: s ys)
  case Nil
  then show ?case using take_empty [OF Nil] by (simp add: drain.simps)
next
  case (Cons x xs)
  then obtain s1 s2 where s: "take_out s = Some (Ref x, s1)" "put (Ref x) s1 = Some s2"
      "st s2 xs (ys @ [out x])"
    using take_put by blast
  with Cons.IH [OF s(3)] show ?case by (simp add: drain.simps [of _ _ s])
qed

end

end
