(* ===== verification/Process.thy ===== *)
theory Process
  imports Kernel_State Interfaces
begin

text \<open>
  \<open>phase1/process.c\<close>: the pool of free process control blocks, the process queues and
  the process tree.
\<close>

section \<open>The operations\<close>

definition initPcbs :: "'z kmem_scheme \<Rightarrow> 'z kmem_scheme option" where
  "initPcbs s = for_upto MAX_PROC (\<lambda>i. on_lh (list_add (p_list (Ref i)) (Ref PcbFree_h))) s"

definition freePcb :: "pcb ptr \<Rightarrow> 'z kmem_scheme \<Rightarrow> 'z kmem_scheme option" where
  "freePcb p s = do {
     e \<leftarrow> list_empty (p_list p) (lh s);
     s \<leftarrow> (if \<not> e then on_lh (list_delete_safe (p_list p)) s else Some s);
     on_lh (list_add (p_list p) (Ref PcbFree_h)) s
   }"

text \<open>
  \<open>memset(pcb, 0, sizeof(pcb_t))\<close> clears the fields and the three list nodes embedded in
  the block, which are then initialised again.
\<close>

definition memset_pcb :: "pcb ptr \<Rightarrow> 'z kmem_scheme \<Rightarrow> 'z kmem_scheme option" where
  "memset_pcb pcb s = do {
     p \<leftarrow> deref pcb;
     Some (s\<lparr>pcbs := (pcbs s)(p := zero_pcb),
             lh := \<lparr>nxt = (nxt (lh s))(P_list p := NULL, P_child p := NULL, P_sib p := NULL),
                    prv = (prv (lh s))(P_list p := NULL, P_child p := NULL, P_sib p := NULL)\<rparr>\<rparr>)
   }"

definition reset_pcb :: "pcb ptr \<Rightarrow> 'z kmem_scheme \<Rightarrow> 'z kmem_scheme option" where
  "reset_pcb pcb s = do {
     s \<leftarrow> memset_pcb pcb s;
     s \<leftarrow> on_lh (INIT_LIST_HEAD (p_list pcb)) s;
     s \<leftarrow> on_lh (INIT_LIST_HEAD (p_child pcb)) s;
     on_lh (INIT_LIST_HEAD (p_sib pcb)) s
   }"

definition allocPcb :: "'z kmem_scheme \<Rightarrow> (pcb ptr \<times> 'z kmem_scheme) option" where
  "allocPcb s = do {
     e \<leftarrow> list_empty (Ref PcbFree_h) (lh s);
     if e then Some (NULL, s)
     else do {
       next \<leftarrow> get_next (Ref PcbFree_h) (lh s);
       s \<leftarrow> on_lh (list_delete_safe next) s;
       pcb \<leftarrow> pcb_of_p_list next;
       s \<leftarrow> reset_pcb pcb s;
       Some (pcb, s)
     }
   }"

definition mkEmptyProcQ :: "lnode ptr \<Rightarrow> 'z kmem_scheme \<Rightarrow> 'z kmem_scheme option" where
  "mkEmptyProcQ head s = on_lh (INIT_LIST_HEAD head) s"

definition emptyProcQ :: "lnode ptr \<Rightarrow> 'z kmem_scheme \<Rightarrow> bool option" where
  "emptyProcQ head s = list_empty head (lh s)"

definition insertProcQ :: "lnode ptr \<Rightarrow> pcb ptr \<Rightarrow> 'z kmem_scheme \<Rightarrow> 'z kmem_scheme option" where
  "insertProcQ head p s = do {
     s \<leftarrow> on_lh (list_del (p_list p)) s;
     on_lh (list_add_tail (p_list p) head) s
   }"

definition headProcQ :: "lnode ptr \<Rightarrow> 'z kmem_scheme \<Rightarrow> pcb ptr option" where
  "headProcQ head s = do {
     e \<leftarrow> emptyProcQ head s;
     if e then Some NULL
     else do { n \<leftarrow> get_next head (lh s); pcb_of_p_list n }
   }"

definition removeProcQ :: "lnode ptr \<Rightarrow> 'z kmem_scheme \<Rightarrow> (pcb ptr \<times> 'z kmem_scheme) option" where
  "removeProcQ head s = do {
     e \<leftarrow> emptyProcQ head s;
     if e then Some (NULL, s)
     else do {
       n \<leftarrow> get_next head (lh s);
       next_elem \<leftarrow> pcb_of_p_list n;
       s \<leftarrow> on_lh (list_delete_safe (p_list next_elem)) s;
       Some (next_elem, s)
     }
   }"

definition outProcQ ::
  "lnode ptr \<Rightarrow> pcb ptr \<Rightarrow> 'z kmem_scheme \<Rightarrow> (pcb ptr \<times> 'z kmem_scheme) option" where
  "outProcQ head process_block s = do {
     present \<leftarrow> list_for_each
       (\<lambda>pos present. Some (if p_list process_block = pos then (True, True) else (False, present)))
       (\<lambda>_. lh s) head False;
     if present then do {
       s \<leftarrow> on_lh (list_delete_safe (p_list process_block)) s;
       Some (process_block, s)
     } else Some (NULL, s)
   }"

definition emptyChild :: "pcb ptr \<Rightarrow> 'z kmem_scheme \<Rightarrow> bool option" where
  "emptyChild p s = list_empty (p_child p) (lh s)"

definition insertChild :: "pcb ptr \<Rightarrow> pcb ptr \<Rightarrow> 'z kmem_scheme \<Rightarrow> 'z kmem_scheme option" where
  "insertChild parent child s = do {
     s \<leftarrow> upd_pcb (p_parent_update (\<lambda>_. parent)) child s;
     on_lh (list_add_tail_safe (p_sib child) (p_child parent)) s
   }"

definition removeChild :: "pcb ptr \<Rightarrow> 'z kmem_scheme \<Rightarrow> (pcb ptr \<times> 'z kmem_scheme) option" where
  "removeChild parent s = do {
     e \<leftarrow> list_empty (p_child parent) (lh s);
     if e then Some (NULL, s)
     else do {
       n \<leftarrow> get_next (p_child parent) (lh s);
       child_pcb \<leftarrow> pcb_of_p_sib n;
       s \<leftarrow> on_lh (list_delete_safe (p_sib child_pcb)) s;
       Some (child_pcb, s)
     }
   }"

definition outChild :: "pcb ptr \<Rightarrow> 'z kmem_scheme \<Rightarrow> (pcb ptr \<times> 'z kmem_scheme) option" where
  "outChild child s = do {
     c \<leftarrow> get_pcb child s;
     if p_parent c = NULL then Some (NULL, s)
     else do {
       found \<leftarrow> list_for_each
         (\<lambda>pos found. Some (if p_sib child = pos then (True, pos) else (False, found)))
         (\<lambda>_. lh s) (p_child (p_parent c)) NULL;
       if found \<noteq> NULL then do {
         s \<leftarrow> on_lh (list_delete_safe found) s;
         Some (child, s)
       } else Some (NULL, s)
     }
   }"

section \<open>The free pool\<close>

text \<open>A node that is in no ring, or is alone in its own.\<close>

definition vacant :: "'n \<Rightarrow> 'n rmap \<Rightarrow> bool" where
  "vacant n R \<longleftrightarrow> n \<notin> nodes R \<or> R n = Some []"

lemma vacant_forget:
  assumes "rings h R" "vacant n R"
  shows "rings h (R(n := None))" "n \<notin> nodes (R(n := None))"
proof -
  show "rings h (R(n := None))" by (rule rings_forget [OF assms(1)])
  show "n \<notin> nodes (R(n := None))"
  proof (cases "R n = Some []")
    case True
    then show ?thesis by (rule not_in_nodes_forget [OF rings_shape [OF assms(1)]])
  next
    case False
    with assms(2) show ?thesis by (auto simp: vacant_def nodes_def in_ring_upd)
  qed
qed

lemma INIT_LIST_HEAD_vacant:
  assumes "rings h R" "vacant n R"
  shows "\<exists>h'. INIT_LIST_HEAD (Ref n) h = Some h' \<and> rings h' (R(n \<mapsto> []))"
  using INIT_LIST_HEAD_rings [OF vacant_forget [OF assms]] by simp

lemma vacant_upd:
  assumes "m \<noteq> n" "vacant m R"
  shows "vacant m (R(n \<mapsto> []))" "vacant m (R(n := None))"
  using assms by (auto simp: vacant_def nodes_def in_ring_upd)

lemma vacant_unlink: "vacant n R \<Longrightarrow> n \<noteq> e \<Longrightarrow> vacant n (unlink e R)"
  by (auto simp: vacant_def not_in_nodes unlink_def split: if_splits)

lemma vacant_detach: "vacant n R \<Longrightarrow> n \<noteq> e \<Longrightarrow> vacant n (detach e R)"
  unfolding detach_def by (intro vacant_upd(1) vacant_unlink)

lemma not_in_nodes_upd:
  assumes "m \<notin> nodes R"
  shows "m \<notin> nodes (R(n := None))" "m \<noteq> n \<Longrightarrow> m \<notin> nodes (R(n \<mapsto> []))"
  using assms by (auto simp: nodes_def in_ring_upd)

lemma reset_pcb_rings:
  assumes R: "rings (lh s) R" and v: "vacant (P_list p) R" "vacant (P_child p) R" "vacant (P_sib p) R"
  shows "\<exists>h. reset_pcb (Ref p) s = Some (s\<lparr>lh := h, pcbs := (pcbs s)(p := zero_pcb)\<rparr>) \<and>
           rings h (R(P_list p \<mapsto> [], P_child p \<mapsto> [], P_sib p \<mapsto> []))"
proof -
  let ?R0 = "R(P_list p := None, P_child p := None, P_sib p := None)"
  let ?h0 = "\<lparr>nxt = (nxt (lh s))(P_list p := NULL, P_child p := NULL, P_sib p := NULL),
              prv = (prv (lh s))(P_list p := NULL, P_child p := NULL, P_sib p := NULL)\<rparr>"
  have out: "P_list p \<notin> nodes ?R0" "P_child p \<notin> nodes ?R0" "P_sib p \<notin> nodes ?R0"
    using vacant_forget(2) [OF R v(1)] vacant_forget(2) [OF R v(2)] vacant_forget(2) [OF R v(3)]
      not_in_nodes_upd(1) fun_upd_twist
    by (metis lnode.distinct)+
  have "rings ?h0 ?R0"
    by (rule rings_outside [OF rings_forget [OF rings_forget [OF rings_forget [OF R]]]])
      (use out in \<open>auto simp: agree_on_def\<close>)
  then obtain h1 where h1: "INIT_LIST_HEAD (Ref (P_list p)) ?h0 = Some h1"
      "rings h1 (?R0(P_list p \<mapsto> []))"
    using INIT_LIST_HEAD_rings [OF _ out(1)] by blast
  then obtain h2 where h2: "INIT_LIST_HEAD (Ref (P_child p)) h1 = Some h2"
      "rings h2 (?R0(P_list p \<mapsto> [], P_child p \<mapsto> []))"
    using INIT_LIST_HEAD_rings [OF h1(2) not_in_nodes_upd(2) [OF out(2)]] by blast
  then obtain h3 where h3: "INIT_LIST_HEAD (Ref (P_sib p)) h2 = Some h3"
      "rings h3 (?R0(P_list p \<mapsto> [], P_child p \<mapsto> [], P_sib p \<mapsto> []))"
    using INIT_LIST_HEAD_rings [OF h2(2) not_in_nodes_upd(2) [OF not_in_nodes_upd(2) [OF out(3)]]] by blast
  have "?R0(P_list p \<mapsto> [], P_child p \<mapsto> [], P_sib p \<mapsto> []) =
      R(P_list p \<mapsto> [], P_child p \<mapsto> [], P_sib p \<mapsto> [])" by auto
  with h1(1) h2(1) h3 show ?thesis
    by (intro exI [of _ h3]) (simp add: reset_pcb_def memset_pcb_def)
qed

lemma allocPcb_rings:
  assumes R: "rings (lh s) R" "R PcbFree_h = Some (map P_list (p # ps))"
    and v: "vacant (P_child p) R" "vacant (P_sib p) R"
  shows "\<exists>h. allocPcb s = Some (Ref p, s\<lparr>lh := h, pcbs := (pcbs s)(p := zero_pcb)\<rparr>) \<and>
           rings h (R(PcbFree_h \<mapsto> map P_list ps, P_list p \<mapsto> [], P_child p \<mapsto> [], P_sib p \<mapsto> []))"
proof -
  have loose: "loose (P_list p) R" using R(2) unfolding loose_def by fastforce
  obtain h1 where h1: "list_delete_safe (Ref (P_list p)) (lh s) = Some h1" "rings h1 (detach (P_list p) R)"
    using list_delete_safe_rings [OF R(1) loose] by blast
  have R1: "detach (P_list p) R = R(PcbFree_h \<mapsto> map P_list ps, P_list p \<mapsto> [])"
    using unlink_member [OF rings_shape [OF R(1)], of PcbFree_h "[]"] R(2) by (simp add: detach_def)
  have "vacant (P_list p) (detach (P_list p) R)" by (simp add: vacant_def detach_def)
  moreover have "vacant n (detach (P_list p) R)" if "vacant n R" "n \<noteq> P_list p" for n
    using that by (intro vacant_detach)
  ultimately obtain h where h: "reset_pcb (Ref p) (s\<lparr>lh := h1\<rparr>) =
        Some (s\<lparr>lh := h1\<rparr>\<lparr>lh := h, pcbs := (pcbs (s\<lparr>lh := h1\<rparr>))(p := zero_pcb)\<rparr>)"
      "rings h ((detach (P_list p) R)(P_list p \<mapsto> [], P_child p \<mapsto> [], P_sib p \<mapsto> []))"
    using reset_pcb_rings [of "s\<lparr>lh := h1\<rparr>" "detach (P_list p) R" p] h1(2) v by auto
  show ?thesis
    using h h1(1) list_empty_rings [OF R] get_next_head_rings [OF R(1), of PcbFree_h "P_list p"] R(2)
    by (auto simp: allocPcb_def R1)
qed

lemma allocPcb_exhausted:
  assumes "rings (lh s) R" "R PcbFree_h = Some []"
  shows "allocPcb s = Some (NULL, s)"
  using list_empty_rings [OF assms] by (simp add: allocPcb_def)

lemma freePcb_rings:
  assumes R: "rings (lh s) R" "R PcbFree_h = Some (map P_list ps)" and l: "loose (P_list p) R"
  shows "\<exists>h. freePcb (Ref p) s = Some (s\<lparr>lh := h\<rparr>) \<and>
           rings h ((unlink (P_list p) R)(PcbFree_h \<mapsto> map P_list (p # removeAll p ps)))"
proof -
  let ?e = "P_list p"
  obtain e where e: "list_empty (Ref ?e) (lh s) = Some e" by (simp add: list_empty_def)
  obtain h1 where h1: "(if \<not> e then on_lh (list_delete_safe (Ref ?e)) s else Some s) = Some (s\<lparr>lh := h1\<rparr>)"
      "rings h1 (detach ?e R)"
  proof (cases e)
    case False
    with list_delete_safe_rings [OF R(1) l] show ?thesis by (auto intro: that)
  next
    case True
    have "R ?e = Some []"
      using l
    proof (cases rule: looseE)
      case (2 q us vs)
      then have "nxt (lh s) ?e \<noteq> Ref ?e"
        using ring_cut(1) [of "lh s" R q "us @ [?e]" vs] ringsD(2,3) [OF R(1), of q] R(1)
        by (cases vs) auto
      with e True show ?thesis by (simp add: list_empty_def)
    qed simp
    then have "detach ?e R = R"
      using unlink_self [OF rings_shape [OF R(1)]] by (auto simp: detach_def)
    with True R(1) show ?thesis by (intro that [of "lh s"]) auto
  qed
  have "removeAll (P_list p) (map P_list ps) = map P_list (removeAll p ps)"
    by (induction ps) auto
  then have "detach ?e R ?e = Some []" "detach ?e R PcbFree_h = Some (map P_list (removeAll p ps))"
    using R(2) by (auto simp: detach_def unlink_def)
  from list_add_self_rings [OF h1(2) this] obtain h2 where
    h2: "list_add (Ref ?e) (Ref PcbFree_h) h1 = Some h2"
      "rings h2 ((detach ?e R)(?e := None, PcbFree_h \<mapsto> P_list p # map P_list (removeAll p ps)))"
    by auto
  have "(detach ?e R)(?e := None, PcbFree_h \<mapsto> P_list p # map P_list (removeAll p ps)) =
        (unlink ?e R)(PcbFree_h \<mapsto> map P_list (p # removeAll p ps))"
    by (auto simp: detach_def unlink_def)
  moreover have "h1 = lh s" if e
    using h1(1) that by simp (metis kmem.select_convs(1) kmem.surjective kmem.update_convs(1))
  ultimately show ?thesis
    using h2 h1(1) e by (intro exI [of _ h2]) (cases e; auto simp: freePcb_def on_lh_def)
qed

section \<open>Process queues\<close>

lemma removeAll_map_P_list: "removeAll (P_list p) (map P_list ps) = map P_list (removeAll p ps)"
  by (induction ps) auto

lemma insertProcQ_rings:
  assumes R: "rings (lh s) R" "R q = Some (map P_list ps)" and l: "loose (P_list p) R" "q \<noteq> P_list p"
  shows "\<exists>h. insertProcQ (Ref q) (Ref p) s = Some (s\<lparr>lh := h\<rparr>) \<and>
           rings h ((unlink (P_list p) R)(q \<mapsto> map P_list (removeAll p ps @ [p])))"
proof -
  obtain h1 where h1: "list_del (Ref (P_list p)) (lh s) = Some h1" "rings h1 (unlink (P_list p) R)"
    using list_del_rings [OF R(1) l(1)] by blast
  have "unlink (P_list p) R q = Some (map P_list (removeAll p ps))"
    using R(2) l(2) by (simp add: unlink_def removeAll_map_P_list)
  from list_add_tail_rings [OF h1(2) this not_in_nodes_unlink [OF rings_shape [OF R(1)] l(1)]]
  show ?thesis using h1(1) by (auto simp: insertProcQ_def)
qed

lemma removeProcQ_empty:
  assumes "rings (lh s) R" "R q = Some []"
  shows "removeProcQ (Ref q) s = Some (NULL, s)"
  using list_empty_rings [OF assms] by (simp add: removeProcQ_def emptyProcQ_def)

text \<open>Deleting the first entry of a ring, which then heads a ring of its own.\<close>

lemma list_delete_safe_first:
  assumes R: "rings h R" "R q = Some (x # xs)"
  shows "\<exists>h'. list_delete_safe (Ref x) h = Some h' \<and> rings h' (R(q \<mapsto> xs, x \<mapsto> []))"
proof -
  have "loose x R" using R(2) unfolding loose_def by fastforce
  moreover have "detach x R = R(q \<mapsto> xs, x \<mapsto> [])"
    using unlink_member [OF rings_shape [OF R(1)], of q "[]" x xs] R(2) by (simp add: detach_def)
  ultimately show ?thesis using list_delete_safe_rings [OF R(1)] by metis
qed

lemma removeProcQ_rings:
  assumes R: "rings (lh s) R" "R q = Some (map P_list (p # ps))"
  shows "\<exists>h. removeProcQ (Ref q) s = Some (Ref p, s\<lparr>lh := h\<rparr>) \<and>
           rings h (R(q \<mapsto> map P_list ps, P_list p \<mapsto> []))"
  using list_delete_safe_first [OF R(1), of q "P_list p"] list_empty_rings [OF R]
    get_next_head_rings [OF R(1), of q "P_list p"] R(2)
  by (auto simp: removeProcQ_def emptyProcQ_def)

lemma headProcQ_rings:
  assumes "rings (lh s) R" "R q = Some (map P_list ps)"
  shows "headProcQ (Ref q) s = Some (case ps of [] \<Rightarrow> NULL | p # _ \<Rightarrow> Ref p)"
  using list_empty_rings [OF assms] get_next_head_rings [OF assms(1), of q "P_list (hd ps)"] assms(2)
  by (cases ps) (auto simp: headProcQ_def emptyProcQ_def)

text \<open>The search loops of \<open>outProcQ\<close> and \<open>outChild\<close>.\<close>

lemma find_map_eq: "inj f \<Longrightarrow> List.find (\<lambda>x. f p = x) (map f ps) = (if p \<in> set ps then Some (f p) else None)"
  by (induction ps) (auto dest: injD)

lemma outProcQ_rings:
  assumes R: "rings (lh s) R" "R q = Some (map P_list ps)"
  shows "if p \<in> set ps
    then \<exists>h. outProcQ (Ref q) (Ref p) s = Some (Ref p, s\<lparr>lh := h\<rparr>) \<and>
           rings h (R(q \<mapsto> map P_list (removeAll p ps), P_list p \<mapsto> []))
    else outProcQ (Ref q) (Ref p) s = Some (NULL, s)"
proof -
  let ?body = "\<lambda>pos present. Some (if p_list (Ref p) = pos then (True, True) else (False, present))"
  have "list_for_each ?body (\<lambda>_. lh s) (Ref q) False = for_entries ?body (map P_list ps) False"
    by (rule list_for_each_rings [where R = R]) (use R in auto)
  also have "\<dots> = Some (p \<in> set ps)"
    by (subst for_entries_find [where P = "\<lambda>x. P_list p = x" and f = "\<lambda>_ _. True"])
      (auto simp: find_map_eq inj_def split: option.splits)
  finally have loop: "list_for_each ?body (\<lambda>_. lh s) (Ref q) False = Some (p \<in> set ps)" .
  show ?thesis
  proof (cases "p \<in> set ps")
    case False
    then show ?thesis using loop by (simp add: outProcQ_def)
  next
    case True
    then have "P_list p \<in> set (map P_list ps)" by simp
    then obtain us vs where split: "map P_list ps = us @ P_list p # vs" by (meson split_list)
    have "loose (P_list p) R" using R(2) split unfolding loose_def by fastforce
    moreover have "detach (P_list p) R = R(q \<mapsto> map P_list (removeAll p ps), P_list p \<mapsto> [])"
      using unlink_member [OF rings_shape [OF R(1)], of q us "P_list p" vs] R(2) split ringsD(2) [OF R]
        removeAll_split [of us "P_list p" vs]
      by (simp add: detach_def flip: removeAll_map_P_list)
    ultimately show ?thesis
      using list_delete_safe_rings [OF R(1), of "P_list p"] loop True
      by (auto simp: outProcQ_def)
  qed
qed

section \<open>The process tree\<close>

lemma insertChild_rings:
  assumes R: "rings (lh s) R" "R (P_child p) = Some (map P_sib cs)" and l: "loose (P_sib c) R"
  shows "\<exists>h. insertChild (Ref p) (Ref c) s =
             Some (s\<lparr>lh := h, pcbs := (pcbs s)(c := (pcbs s c)\<lparr>p_parent := Ref p\<rparr>)\<rparr>) \<and>
           rings h ((unlink (P_sib c) R)(P_child p \<mapsto> map P_sib (removeAll c cs @ [c])))"
proof -
  have "removeAll (P_sib c) (map P_sib cs) = map P_sib (removeAll c cs)" by (induction cs) auto
  then obtain h where h: "list_add_tail_safe (Ref (P_sib c)) (Ref (P_child p)) (lh s) = Some h"
      "rings h ((unlink (P_sib c) R)(P_child p \<mapsto> map P_sib (removeAll c cs @ [c])))"
    using list_add_tail_safe_rings [OF R(1) l R(2)] by auto
  then show ?thesis by (intro exI [of _ h]) (simp add: insertChild_def on_lh_def)
qed

lemma removeChild_empty:
  assumes "rings (lh s) R" "R (P_child p) = Some []"
  shows "removeChild (Ref p) s = Some (NULL, s)"
  using list_empty_rings [OF assms] by (simp add: removeChild_def)

lemma removeChild_rings:
  assumes R: "rings (lh s) R" "R (P_child p) = Some (map P_sib (c # cs))"
  shows "\<exists>h. removeChild (Ref p) s = Some (Ref c, s\<lparr>lh := h\<rparr>) \<and>
           rings h (R(P_child p \<mapsto> map P_sib cs, P_sib c \<mapsto> []))"
  using list_delete_safe_first [OF R(1), of "P_child p" "P_sib c"] list_empty_rings [OF R]
    get_next_head_rings [OF R(1), of "P_child p" "P_sib c"] R(2)
  by (auto simp: removeChild_def)

lemma outChild_orphan: "p_parent (pcbs s c) = NULL \<Longrightarrow> outChild (Ref c) s = Some (NULL, s)"
  by (simp add: outChild_def)

lemma outChild_rings:
  assumes R: "rings (lh s) R" "R (P_child p) = Some (map P_sib cs)" and p: "p_parent (pcbs s c) = Ref p"
  shows "if c \<in> set cs
    then \<exists>h. outChild (Ref c) s = Some (Ref c, s\<lparr>lh := h\<rparr>) \<and>
           rings h (R(P_child p \<mapsto> map P_sib (removeAll c cs), P_sib c \<mapsto> []))
    else outChild (Ref c) s = Some (NULL, s)"
proof -
  let ?body = "\<lambda>pos found. Some (if p_sib (Ref c) = pos then (True, pos) else (False, found))"
  have "list_for_each ?body (\<lambda>_. lh s) (Ref (P_child p)) NULL = for_entries ?body (map P_sib cs) NULL"
    by (rule list_for_each_rings [where R = R]) (use R in auto)
  also have "\<dots> = Some (if c \<in> set cs then Ref (P_sib c) else NULL)"
    by (subst for_entries_find [where P = "\<lambda>x. P_sib c = x" and f = "\<lambda>x _. Ref x"])
      (auto simp: find_map_eq inj_def split: option.splits)
  finally have loop: "list_for_each ?body (\<lambda>_. lh s) (Ref (P_child p)) NULL =
      Some (if c \<in> set cs then Ref (P_sib c) else NULL)" .
  have rm: "removeAll (P_sib c) (map P_sib cs) = map P_sib (removeAll c cs)" by (induction cs) auto
  show ?thesis
  proof (cases "c \<in> set cs")
    case False
    then show ?thesis using loop p by (simp add: outChild_def)
  next
    case True
    then have "P_sib c \<in> set (map P_sib cs)" by simp
    then obtain us vs where split: "map P_sib cs = us @ P_sib c # vs" by (meson split_list)
    have "loose (P_sib c) R" using R(2) split unfolding loose_def by fastforce
    moreover have "detach (P_sib c) R = R(P_child p \<mapsto> map P_sib (removeAll c cs), P_sib c \<mapsto> [])"
      using unlink_member [OF rings_shape [OF R(1)], of "P_child p" us "P_sib c" vs] R(2) split
        ringsD(2) [OF R] removeAll_split [of us "P_sib c" vs]
      by (simp add: detach_def flip: rm)
    ultimately show ?thesis
      using list_delete_safe_rings [OF R(1), of "P_sib c"] loop True p
      by (auto simp: outChild_def)
  qed
qed

section \<open>The pool contract\<close>

lemma initPcbs_rings:
  assumes "rings (lh s) R" "R PcbFree_h = Some []" "\<And>p. p < MAX_PROC \<Longrightarrow> P_list p \<notin> nodes R"
  shows "\<exists>h. initPcbs s = Some (s\<lparr>lh := h\<rparr>) \<and>
           rings h (R(PcbFree_h \<mapsto> map P_list (rev [0..<MAX_PROC])))"
  using push_all_rings [OF assms(1,2), of MAX_PROC P_list] assms(3)
  by (auto simp: initPcbs_def inj_def)

text \<open>
  The blocks \<open>ps\<close> are free and the blocks of \<open>U\<close> are in use and can be freed: their
  \<open>p_list\<close> can be deleted from where it is, and no block of either kind has relatives.
\<close>

definition pcb_pool :: "'z kmem_scheme \<Rightarrow> pcb list \<Rightarrow> pcb set \<Rightarrow> bool" where
  "pcb_pool s ps U \<longleftrightarrow> (\<exists>R. rings (lh s) R \<and> R PcbFree_h = Some (map P_list ps) \<and>
     (\<forall>p \<in> set ps \<union> U. vacant (P_child p) R \<and> vacant (P_sib p) R) \<and>
     (\<forall>p \<in> U. loose (P_list p) R \<and> p \<notin> set ps))"

lemma loose_upd:
  assumes "loose n R" "n \<noteq> a" "R a = Some [] \<or> R a = None"
  shows "loose n (R(a \<mapsto> []))"
  using assms unfolding loose_def by (metis fun_upd_apply list.set_cases list.distinct(1) option.inject
      option.distinct(1) empty_iff list.set(1))

lemma pcb_pool_alloc:
  assumes "pcb_pool s (p # ps) U"
  shows "\<exists>s'. allocPcb s = Some (Ref p, s') \<and> pcb_pool s' ps (insert p U)"
proof -
  obtain R where R: "rings (lh s) R" "R PcbFree_h = Some (map P_list (p # ps))"
    and v: "\<forall>x \<in> set (p # ps) \<union> U. vacant (P_child x) R \<and> vacant (P_sib x) R"
    and l: "\<forall>x \<in> U. loose (P_list x) R \<and> x \<notin> set (p # ps)"
    using assms unfolding pcb_pool_def by blast
  let ?R = "R(PcbFree_h \<mapsto> map P_list ps, P_list p \<mapsto> [], P_child p \<mapsto> [], P_sib p \<mapsto> [])"
  obtain h where h: "allocPcb s = Some (Ref p, s\<lparr>lh := h, pcbs := (pcbs s)(p := zero_pcb)\<rparr>)" "rings h ?R"
    using allocPcb_rings [OF R] v by auto
  have d: "distinct (p # ps)" using ringsD(2) [OF R] by (auto simp: distinct_map)
  have "vacant (P_child x) ?R \<and> vacant (P_sib x) ?R" if "x \<in> set ps \<union> insert p U" for x
  proof (cases "x = p")
    case False
    with that v have "vacant (P_child x) R" "vacant (P_sib x) R" by auto
    then show ?thesis using R(2) False by (auto simp: vacant_def not_in_nodes split: if_splits)
  qed (auto simp: vacant_def)
  moreover have "loose (P_list x) ?R" if x: "x \<in> U" for x
  proof -
    have "x \<noteq> p" "x \<notin> set ps" using x l by auto
    from l x have "loose (P_list x) R" by blast
    then show ?thesis
    proof (cases rule: looseE)
      case 1
      then show ?thesis using \<open>x \<noteq> p\<close> by (simp add: loose_def)
    next
      case (2 q us vs)
      have "q \<noteq> PcbFree_h" using 2 R(2) \<open>x \<notin> set ps\<close> \<open>x \<noteq> p\<close>
        by (metis (no_types, lifting) imageE in_set_conv_decomp list.set_map lnode.inject(1)
            option.inject set_ConsD)
      moreover have "P_list p \<noteq> q"
        using 2 R in_ring_unique [OF rings_shape [OF R(1)], of q "P_list p" PcbFree_h] calculation
        by (auto simp: in_ring_def)
      moreover have "P_child p \<noteq> q" "P_sib p \<noteq> q" using v 2 by (auto simp: vacant_def not_in_nodes)
      ultimately have "?R q = Some (us @ P_list x # vs)" using 2 by simp
      then show ?thesis unfolding loose_def by fastforce
    qed
  qed
  moreover have "loose (P_list p) ?R" by (simp add: loose_def)
  ultimately have "pcb_pool (s\<lparr>lh := h, pcbs := (pcbs s)(p := zero_pcb)\<rparr>) ps (insert p U)"
    using h(2) d l unfolding pcb_pool_def by (intro exI [of _ ?R]) auto
  with h(1) show ?thesis by blast
qed

lemma pcb_pool_free:
  assumes "pcb_pool s ps U" "p \<in> U"
  shows "\<exists>s'. freePcb (Ref p) s = Some s' \<and> pcb_pool s' (p # ps) (U - {p})"
proof -
  obtain R where R: "rings (lh s) R" "R PcbFree_h = Some (map P_list ps)"
    and v: "\<forall>x \<in> set ps \<union> U. vacant (P_child x) R \<and> vacant (P_sib x) R"
    and l: "\<forall>x \<in> U. loose (P_list x) R \<and> x \<notin> set ps"
    using assms(1) unfolding pcb_pool_def by blast
  let ?R = "(unlink (P_list p) R)(PcbFree_h \<mapsto> map P_list (p # ps))"
  obtain h where h: "freePcb (Ref p) s = Some (s\<lparr>lh := h\<rparr>)" "rings h ?R"
    using freePcb_rings [OF R, of p] l assms(2) by (auto simp: removeAll_id)
  have "vacant (P_child x) ?R \<and> vacant (P_sib x) ?R" if "x \<in> set (p # ps) \<union> (U - {p})" for x
  proof -
    have "vacant (P_child x) R" "vacant (P_sib x) R" using v that assms(2) by auto
    then have "vacant (P_child x) (unlink (P_list p) R)" "vacant (P_sib x) (unlink (P_list p) R)"
      by (auto intro: vacant_unlink)
    then show ?thesis by (auto simp: vacant_def not_in_nodes split: if_splits)
  qed
  moreover have "loose (P_list x) ?R \<and> x \<notin> set (p # ps)" if x: "x \<in> U - {p}" for x
  proof -
    have "x \<notin> set ps" using x l by auto
    from l x have "loose (P_list x) R" by blast
    then show ?thesis
    proof (cases rule: looseE)
      case 1
      then show ?thesis using x \<open>x \<notin> set ps\<close> by (simp add: loose_def unlink_def)
    next
      case (2 q us vs)
      have "q \<noteq> PcbFree_h" using 2 R(2) \<open>x \<notin> set ps\<close>
        by (metis (no_types, lifting) imageE in_set_conv_decomp list.set_map lnode.inject(1) option.inject)
      moreover have "q \<noteq> P_list p"
      proof
        assume "q = P_list p"
        then show False using loose_head [OF rings_shape [OF R(1)], of "P_list p"] 2 l assms(2) by auto
      qed
      ultimately have "\<exists>zs. ?R q = Some zs \<and> P_list x \<in> set zs" using 2 x by (auto simp: unlink_def)
      then have "loose (P_list x) ?R" unfolding loose_def by blast
      with x \<open>x \<notin> set ps\<close> show ?thesis by simp
    qed
  qed
  ultimately have "pcb_pool (s\<lparr>lh := h\<rparr>) (p # ps) (U - {p})"
    using h(2) unfolding pcb_pool_def by (intro exI [of _ ?R]) auto
  with h(1) show ?thesis by blast
qed

interpretation pcbs_pool: allocator pcb_pool allocPcb freePcb
proof
  fix s :: "'z kmem_scheme" and xs U
  assume p: "pcb_pool s xs U"
  then obtain R where "rings (lh s) R" "R PcbFree_h = Some (map P_list xs)" "\<forall>p \<in> U. p \<notin> set xs"
    unfolding pcb_pool_def by blast
  then show "distinct xs \<and> set xs \<inter> U = {}"
    using ringsD(2) by (fastforce simp: distinct_map)
next
  show "allocPcb s = Some (NULL, s)" if "pcb_pool s [] U" for s :: "'z kmem_scheme" and U
    using that allocPcb_exhausted unfolding pcb_pool_def by auto
qed (rule pcb_pool_alloc pcb_pool_free; assumption)+

section \<open>The queue contract\<close>

text \<open>A process whose \<open>p_list\<close> is alone can be inserted in any queue.\<close>

definition procq :: "lnode \<Rightarrow> 'z kmem_scheme \<Rightarrow> pcb list \<Rightarrow> bool" where
  "procq q s ps \<longleftrightarrow> (\<exists>R. rings (lh s) R \<and> R q = Some (map P_list ps))"

definition queueable :: "lnode \<Rightarrow> 'z kmem_scheme \<Rightarrow> pcb \<Rightarrow> bool" where
  "queueable q s p \<longleftrightarrow> alone (lh s) (P_list p) \<and> q \<noteq> P_list p"

lemma insertProcQ_alone:
  assumes R: "rings (lh s) R" "R q = Some (map P_list ps)" and p: "queueable q s p"
  shows "\<exists>h. insertProcQ (Ref q) (Ref p) s = Some (s\<lparr>lh := h\<rparr>) \<and>
           rings h (R(P_list p := None, q \<mapsto> map P_list (ps @ [p])))"
proof -
  let ?R = "R(P_list p \<mapsto> [])"
  have a: "alone (lh s) (P_list p)" "q \<noteq> P_list p" using p by (auto simp: queueable_def)
  have r: "rings (lh s) ?R" by (rule rings_add_alone [OF R(1) a(1)])
  have "p \<notin> set ps" using alone_not_entry [OF R(1) a(1) R(2)] by auto
  moreover have "unlink (P_list p) ?R = R(P_list p := None)"
    using unlink_self [OF rings_shape [OF r], of "P_list p"] by simp
  ultimately show ?thesis
    using insertProcQ_rings [OF r, of q ps p] R(2) a(2) by (auto simp: loose_def removeAll_id)
qed

interpretation proc_queue: fifo "procq q" "queueable q" "insertProcQ (Ref q)" "removeProcQ (Ref q)" for q
proof
  fix s :: "'z kmem_scheme" assume "procq q s []"
  then show "removeProcQ (Ref q) s = Some (NULL, s)"
    using removeProcQ_empty by (auto simp: procq_def)
next
  fix s :: "'z kmem_scheme" and x xs assume "procq q s (x # xs)"
  then obtain R where R: "rings (lh s) R" "R q = Some (map P_list (x # xs))" unfolding procq_def by blast
  then have q: "q \<noteq> P_list x" using ringsD(3) [OF R] by auto
  obtain h where h: "removeProcQ (Ref q) s = Some (Ref x, s\<lparr>lh := h\<rparr>)"
      "rings h (R(q \<mapsto> map P_list xs, P_list x \<mapsto> []))"
    using removeProcQ_rings [OF R] by blast
  have "procq q (s\<lparr>lh := h\<rparr>) xs" using h(2) q unfolding procq_def by force
  moreover have "queueable q (s\<lparr>lh := h\<rparr>) x"
    using rings_alone [OF h(2), of "P_list x"] q by (simp add: queueable_def)
  ultimately show "\<exists>s'. removeProcQ (Ref q) s = Some (Ref x, s') \<and> procq q s' xs \<and> queueable q s' x"
    using h(1) by blast
next
  fix s :: "'z kmem_scheme" and x xs assume q: "procq q s xs" "queueable q s x"
  then obtain R where R: "rings (lh s) R" "R q = Some (map P_list xs)" unfolding procq_def by blast
  from insertProcQ_alone [OF R q(2)] obtain h where
    h: "insertProcQ (Ref q) (Ref x) s = Some (s\<lparr>lh := h\<rparr>)"
      "rings h (R(P_list x := None, q \<mapsto> map P_list (xs @ [x])))" by blast
  then have "procq q (s\<lparr>lh := h\<rparr>) (xs @ [x])"
    unfolding procq_def by (intro exI [of _ "R(P_list x := None, q \<mapsto> map P_list (xs @ [x]))"]) simp
  with h(1) show "\<exists>s'. insertProcQ (Ref q) (Ref x) s = Some s' \<and> procq q s' (xs @ [x])" by blast
next
  fix s s' :: "'z kmem_scheme" and x y xs
  assume q: "procq q s xs" "queueable q s x" "queueable q s y" "y \<noteq> x"
    and s': "insertProcQ (Ref q) (Ref x) s = Some s'"
  then obtain R where R: "rings (lh s) R" "R q = Some (map P_list xs)" unfolding procq_def by blast
  have y: "alone (lh s) (P_list y)" "q \<noteq> P_list y" using q(3) by (auto simp: queueable_def)
  from insertProcQ_alone [OF rings_add_alone [OF R(1) y(1)] _ q(2), of xs] R(2) y(2) s' obtain h where
    h: "s' = s\<lparr>lh := h\<rparr>" "rings h (R(P_list y \<mapsto> [], P_list x := None, q \<mapsto> map P_list (xs @ [x])))"
    by auto
  show "queueable q s' y"
    using rings_alone [OF h(2), of "P_list y"] y(2) q(4) h(1) by (simp add: queueable_def)
qed

end
