(* ===== verification/Semaphore.thy ===== *)
theory Semaphore
  imports Process
begin

text \<open>
  \<open>phase1/semaphore.c\<close>: the active semaphore hash.  A semaphore is known by its key, the
  address of its value; its descriptor is in the hash table while processes are blocked
  on it, and in the free list otherwise.
\<close>

section \<open>The operations\<close>

definition get_s_key :: "semd ptr \<Rightarrow> 'z kmem_scheme \<Rightarrow> u32 option" where
  "get_s_key sem s = do { i \<leftarrow> deref sem; Some (s_key s i) }"

definition set_s_key :: "semd ptr \<Rightarrow> u32 \<Rightarrow> 'z kmem_scheme \<Rightarrow> 'z kmem_scheme option" where
  "set_s_key sem k s = do { i \<leftarrow> deref sem; Some (s\<lparr>s_key := (s_key s)(i := k)\<rparr>) }"

definition find_sem :: "u32 \<Rightarrow> 'z kmem_scheme \<Rightarrow> semd ptr option" where
  "find_sem semAdd s = (let sem_hlist = hash_min semAdd (HASH_BITS SEMD_H_SIZE) in
     if \<not> hlist_empty sem_hlist (hh s)
     then hlist_for_each
       (\<lambda>pro found. do {
          k \<leftarrow> get_s_key pro s;
          Some (if k = semAdd then (True, pro) else (False, found))
        }) (\<lambda>_. hh s) sem_hlist NULL
     else Some NULL)"

definition reset_semd :: "semd ptr \<Rightarrow> 'z kmem_scheme \<Rightarrow> 'z kmem_scheme option" where
  "reset_semd sem s = do {
     s \<leftarrow> set_s_key sem 0 s;
     s \<leftarrow> mkEmptyProcQ (s_procq sem) s;
     s \<leftarrow> on_lh (INIT_LIST_HEAD (s_freelink sem)) s;
     on_hh (INIT_HLIST_NODE sem) s
   }"

definition alloc_semd :: "'z kmem_scheme \<Rightarrow> (semd ptr \<times> 'z kmem_scheme) option" where
  "alloc_semd s = do {
     e \<leftarrow> list_empty (Ref SemdFree_h) (lh s);
     if e then Some (NULL, s)
     else do {
       next \<leftarrow> get_next (Ref SemdFree_h) (lh s);
       s \<leftarrow> on_lh (list_delete_safe next) s;
       sem \<leftarrow> semd_of_s_freelink next;
       s \<leftarrow> reset_semd sem s;
       Some (sem, s)
     }
   }"

definition free_semd_ifempty :: "semd ptr \<Rightarrow> 'z kmem_scheme \<Rightarrow> (bool \<times> 'z kmem_scheme) option" where
  "free_semd_ifempty sem s = do {
     e \<leftarrow> emptyProcQ (s_procq sem) s;
     if e then do {
       s \<leftarrow> on_hh (hash_del sem) s;
       s \<leftarrow> on_lh (list_add (s_freelink sem) (Ref SemdFree_h)) s;
       Some (True, s)
     } else Some (False, s)
   }"

definition insertBlocked :: "u32 \<Rightarrow> pcb ptr \<Rightarrow> 'z kmem_scheme \<Rightarrow> (bool \<times> 'z kmem_scheme) option" where
  "insertBlocked semAdd p s = do {
     found \<leftarrow> find_sem semAdd s;
     (sem, s) \<leftarrow> (if found = NULL then do {
         (sem, s) \<leftarrow> alloc_semd s;
         if sem = NULL then Some (NULL, s)
         else do {
           s \<leftarrow> set_s_key sem semAdd s;
           k \<leftarrow> get_s_key sem s;
           s \<leftarrow> on_hh (hash_add SEMD_H_SIZE sem k) s;
           Some (sem, s)
         }
       } else Some (found, s));
     if sem = NULL then Some (True, s)
     else do {
       s \<leftarrow> on_lh (list_delete_safe (p_list p)) s;
       s \<leftarrow> insertProcQ (s_procq sem) p s;
       s \<leftarrow> upd_pcb (p_semAdd_update (\<lambda>_. semAdd)) p s;
       Some (False, s)
     }
   }"

definition removeBlocked :: "u32 \<Rightarrow> 'z kmem_scheme \<Rightarrow> (pcb ptr \<times> 'z kmem_scheme) option" where
  "removeBlocked semAdd s = do {
     sem \<leftarrow> find_sem semAdd s;
     if sem = NULL then Some (NULL, s)
     else do {
       e \<leftarrow> emptyProcQ (s_procq sem) s;
       if \<not> e then do {
         next \<leftarrow> get_next (s_procq sem) (lh s);
         pcb \<leftarrow> pcb_of_p_list next;
         s \<leftarrow> upd_pcb (p_semAdd_update (\<lambda>_. 0)) pcb s;
         s \<leftarrow> on_lh (list_delete_safe next) s;
         (_, s) \<leftarrow> free_semd_ifempty sem s;
         Some (pcb, s)
       } else Some (NULL, s)
     }
   }"

definition outBlocked :: "pcb ptr \<Rightarrow> 'z kmem_scheme \<Rightarrow> (pcb ptr \<times> 'z kmem_scheme) option" where
  "outBlocked p s = do {
     c \<leftarrow> get_pcb p s;
     sem \<leftarrow> find_sem (p_semAdd c) s;
     if sem = NULL then Some (NULL, s)
     else do {
       p_list \<leftarrow> list_for_each
         (\<lambda>pos p_list. do {
            q \<leftarrow> pcb_of_p_list pos;
            Some (False, if q = p then pos else p_list)
          }) (\<lambda>_. lh s) (s_procq sem) NULL;
       if p_list \<noteq> NULL then do {
         s \<leftarrow> on_lh (list_delete_safe p_list) s;
         (_, s) \<leftarrow> free_semd_ifempty sem s;
         pcb \<leftarrow> pcb_of_p_list p_list;
         s \<leftarrow> upd_pcb (p_semAdd_update (\<lambda>_. 0)) pcb s;
         Some (pcb, s)
       } else Some (NULL, s)
     }
   }"

definition headBlocked :: "u32 \<Rightarrow> 'z kmem_scheme \<Rightarrow> pcb ptr option" where
  "headBlocked semAdd s = do {
     sem \<leftarrow> find_sem semAdd s;
     e \<leftarrow> (if sem = NULL then Some True else emptyProcQ (s_procq sem) s);
     if e then Some NULL
     else do { n \<leftarrow> get_next (s_procq sem) (lh s); pcb_of_p_list n }
   }"

definition initASH :: "'z kmem_scheme \<Rightarrow> 'z kmem_scheme option" where
  "initASH s = for_upto MAX_PROC (\<lambda>i. on_lh (list_add (s_freelink (Ref i)) (Ref SemdFree_h))) s"

section \<open>The representation invariant\<close>

text \<open>
  The abstract hash \<open>A\<close> maps every key to the queue of the processes blocked on it.
  \<open>S\<close> maps the keys with a descriptor to it, \<open>B\<close> is the content of the buckets and
  \<open>fs\<close> the free list.  While an operation runs, the queue of a key of \<open>H\<close> may be empty
  although the key has a descriptor.
\<close>

type_synonym ash = "u32 \<Rightarrow> pcb list"

definition bucket :: "u32 \<Rightarrow> nat" where
  "bucket k = hash_min k (HASH_BITS SEMD_H_SIZE)"

definition ash_rep ::
  "'z kmem_scheme \<Rightarrow> lnode rmap \<Rightarrow> ash \<Rightarrow> (nat \<Rightarrow> semd list) \<Rightarrow> (u32 \<Rightarrow> semd option) \<Rightarrow> semd list \<Rightarrow> u32 set \<Rightarrow> bool"
where
  "ash_rep s R A B S fs H \<longleftrightarrow>
     rings (lh s) R \<and> chains (hh s) B \<and> R SemdFree_h = Some (map S_freelink fs) \<and>
     (\<forall>b i. i \<in> set (B b) \<longleftrightarrow> (\<exists>k. S k = Some i \<and> b = bucket k)) \<and>
     (\<forall>k i. S k = Some i \<longrightarrow> s_key s i = k \<and> R (S_procq i) = Some (map P_list (A k)) \<and>
        (k \<notin> H \<longrightarrow> A k \<noteq> []) \<and> R (S_freelink i) = Some []) \<and>
     (\<forall>k. S k = None \<longrightarrow> A k = []) \<and>
     (\<forall>i \<in> set fs. vacant (S_procq i) R) \<and>
     set fs \<union> ran S = {..<MAX_PROC} \<and> set fs \<inter> ran S = {} \<and>
     (\<forall>k. \<forall>p \<in> set (A k). p_semAdd (pcbs s p) = k)"

definition ash :: "'z kmem_scheme \<Rightarrow> lnode rmap \<Rightarrow> ash \<Rightarrow> bool" where
  "ash s R A \<longleftrightarrow> (\<exists>B S fs. ash_rep s R A B S fs {})"

text \<open>The list nodes that belong to this component.\<close>

fun sem_node :: "lnode \<Rightarrow> bool" where
  "sem_node SemdFree_h = True" | "sem_node (S_procq _) = True" | "sem_node (S_freelink _) = True"
| "sem_node _ = False"

text \<open>
  The rings of the other components are the same, and no ring gets a node of the process
  tree.
\<close>

fun tree_node :: "lnode \<Rightarrow> bool" where
  "tree_node (P_child _) = True" | "tree_node (P_sib _) = True" | "tree_node _ = False"

definition no_tree_entries :: "lnode rmap \<Rightarrow> lnode rmap \<Rightarrow> bool" where
  "no_tree_entries R R' \<longleftrightarrow>
     (\<forall>q xs. R' q = Some xs \<longrightarrow> R' q = R q \<or> (\<forall>n \<in> set xs. \<not> tree_node n))"

definition same_elsewhere :: "lnode rmap \<Rightarrow> lnode rmap \<Rightarrow> bool" where
  "same_elsewhere R R' \<longleftrightarrow> (\<forall>q. \<not> sem_node q \<longrightarrow> R' q = R q) \<and> no_tree_entries R R'"

lemma no_tree_entries_refl [simp]: "no_tree_entries R R"
  by (simp add: no_tree_entries_def)

lemma no_tree_entries_trans: "no_tree_entries R R1 \<Longrightarrow> no_tree_entries R1 R2 \<Longrightarrow> no_tree_entries R R2"
  unfolding no_tree_entries_def by metis

lemma no_tree_entries_vacant:
  assumes "no_tree_entries R R'" "R' n = R n" "tree_node n" "vacant n R"
  shows "vacant n R'"
proof (cases "R n = Some []")
  case True
  with assms(2) show ?thesis by (simp add: vacant_def)
next
  case False
  with assms(4) have n: "n \<notin> nodes R" by (simp add: vacant_def)
  have "n \<notin> nodes R'"
    unfolding not_in_nodes
  proof (intro allI impI)
    fix q xs assume q: "R' q = Some xs"
    then have "R q = Some xs \<or> (\<forall>m \<in> set xs. \<not> tree_node m)"
      using assms(1) unfolding no_tree_entries_def by metis
    moreover have "n \<noteq> q" using n q assms(2) unfolding not_in_nodes by metis
    ultimately show "n \<noteq> q \<and> n \<notin> set xs" using n assms(3) by (auto simp: not_in_nodes)
  qed
  then show ?thesis by (simp add: vacant_def)
qed

lemma no_tree_entries_unlink: "no_tree_entries R R1 \<Longrightarrow> no_tree_entries (unlink e R) (unlink e R1)"
  unfolding no_tree_entries_def unlink_def by (auto split: if_splits) (metis option.simps(9))+

lemma ash_repD:
  assumes "ash_rep s R A B S fs H"
  shows "rings (lh s) R" "chains (hh s) B" "R SemdFree_h = Some (map S_freelink fs)"
    and "i \<in> set (B b) \<longleftrightarrow> (\<exists>k. S k = Some i \<and> b = bucket k)"
    and "S k = Some i \<Longrightarrow> s_key s i = k" "S k = Some i \<Longrightarrow> R (S_procq i) = Some (map P_list (A k))"
    and "S k = Some i \<Longrightarrow> k \<notin> H \<Longrightarrow> A k \<noteq> []" "S k = Some i \<Longrightarrow> R (S_freelink i) = Some []"
    and "S k = None \<Longrightarrow> A k = []" "i \<in> set fs \<Longrightarrow> vacant (S_procq i) R"
    and "set fs \<union> ran S = {..<MAX_PROC}" "set fs \<inter> ran S = {}"
    and "p \<in> set (A k) \<Longrightarrow> p_semAdd (pcbs s p) = k"
  using assms unfolding ash_rep_def by blast+

lemma ash_repI:
  assumes "rings (lh s) R" "chains (hh s) B" "R SemdFree_h = Some (map S_freelink fs)"
    and "\<And>b i. i \<in> set (B b) \<longleftrightarrow> (\<exists>k. S k = Some i \<and> b = bucket k)"
    and "\<And>k i. S k = Some i \<Longrightarrow> s_key s i = k \<and> R (S_procq i) = Some (map P_list (A k)) \<and>
           (k \<notin> H \<longrightarrow> A k \<noteq> []) \<and> R (S_freelink i) = Some []"
    and "\<And>k. S k = None \<Longrightarrow> A k = []" "\<And>i. i \<in> set fs \<Longrightarrow> vacant (S_procq i) R"
    and "set fs \<union> ran S = {..<MAX_PROC}" "set fs \<inter> ran S = {}"
    and "\<And>k p. p \<in> set (A k) \<Longrightarrow> p_semAdd (pcbs s p) = k"
  shows "ash_rep s R A B S fs H"
  unfolding ash_rep_def using assms by (intro conjI allI impI ballI; (assumption | blast))

lemma ash_rep_owner: "ash_rep s R A B S fs H \<Longrightarrow> S k = Some i \<Longrightarrow> S k' = Some i \<Longrightarrow> k = k'"
  using ash_repD(5) by metis

lemma find_unique:
  "x \<in> set xs \<Longrightarrow> P x \<Longrightarrow> (\<And>y. y \<in> set xs \<Longrightarrow> P y \<Longrightarrow> y = x) \<Longrightarrow> List.find P xs = Some x"
  by (induction xs) (simp, metis find.simps(2) list.set_intros set_ConsD)

lemma find_sem_ash:
  assumes "ash_rep s R A B S fs H"
  shows "find_sem k s = Some (case S k of None \<Rightarrow> NULL | Some i \<Rightarrow> Ref i)"
proof -
  note [simp] = ash_repD(4) [OF assms]
  have S: "s_key s i = k'" if "S k' = Some i" for k' i using ash_repD(5) [OF assms that] .
  let ?body = "\<lambda>pro found. do {
          k' \<leftarrow> get_s_key pro s;
          Some (if k' = k then (True, pro) else (False, found))
        }"
  have "hlist_for_each ?body (\<lambda>_. hh s) (bucket k) NULL = for_entries ?body (B (bucket k)) NULL"
    by (rule hlist_for_each_chains) (use ash_repD(2) [OF assms] in auto)
  also have "\<dots> = Some (case List.find (\<lambda>i. s_key s i = k) (B (bucket k)) of None \<Rightarrow> NULL | Some i \<Rightarrow> Ref i)"
    by (subst for_entries_find [where P = "\<lambda>i. s_key s i = k" and f = "\<lambda>x _. Ref x"])
      (auto simp: get_s_key_def)
  also have "List.find (\<lambda>i. s_key s i = k) (B (bucket k)) = S k"
  proof (cases "S k")
    case None
    then show ?thesis using S by (fastforce simp: find_None_iff)
  next
    case (Some i)
    then show ?thesis using S by (intro trans [OF find_unique [of i]]) auto
  qed
  finally have loop: "hlist_for_each ?body (\<lambda>_. hh s) (bucket k) NULL =
      Some (case S k of None \<Rightarrow> NULL | Some i \<Rightarrow> Ref i)" .
  have "S k = None" if "B (bucket k) = []"
    using that ash_repD(4) [OF assms, of "the (S k)" "bucket k"] by (cases "S k") auto
  then show ?thesis
    using loop hlist_empty_chains [OF ash_repD(2) [OF assms], of "bucket k"]
    by (auto simp: find_sem_def bucket_def Let_def)
qed

section \<open>The steps of the operations\<close>

lemma sem_keys [simp]: "get_s_key (Ref i) s = Some (s_key s i)"
  "set_s_key (Ref i) k s = Some (s\<lparr>s_key := (s_key s)(i := k)\<rparr>)"
  by (auto simp: get_s_key_def set_s_key_def)

lemma reset_semd_rings:
  assumes R: "rings (lh s) R" "vacant (S_procq i) R" "vacant (S_freelink i) R"
    and B: "chains (hh s) B" "\<And>b. i \<notin> set (B b)"
  shows "\<exists>h hh'. reset_semd (Ref i) s = Some (s\<lparr>lh := h, hh := hh', s_key := (s_key s)(i := 0)\<rparr>) \<and>
           rings h (R(S_procq i \<mapsto> [], S_freelink i \<mapsto> [])) \<and> chains hh' B"
proof -
  obtain h1 where h1: "INIT_LIST_HEAD (Ref (S_procq i)) (lh s) = Some h1" "rings h1 (R(S_procq i \<mapsto> []))"
    using INIT_LIST_HEAD_vacant [OF R(1,2)] by blast
  then obtain h2 where h2: "INIT_LIST_HEAD (Ref (S_freelink i)) h1 = Some h2"
      "rings h2 (R(S_procq i \<mapsto> [], S_freelink i \<mapsto> []))"
    using INIT_LIST_HEAD_vacant [OF h1(2), of "S_freelink i"] vacant_upd(1) [OF _ R(3)] by auto
  let ?hh = "(hh s)\<lparr>hnext := (hnext (hh s))(i := NULL), hpprev := (hpprev (hh s))(i := NoSlot)\<rparr>"
  have "chain ?hh (FirstOf b) (hfirst ?hh b) (B b)" for b
    using chainsD(1) [OF B(1), of b] B(2) [of b] chain_cong [of "B b" ?hh "hh s"] by auto
  then have "chains ?hh B" using chainsD(2,3) [OF B(1)] by (intro chainsI)
  with h1(1) h2 show ?thesis
    by (intro exI [of _ h2] exI [of _ ?hh])
      (simp add: reset_semd_def mkEmptyProcQ_def on_lh_def on_hh_def INIT_HLIST_NODE_def)
qed

lemma alloc_semd_rings:
  assumes R: "rings (lh s) R" "R SemdFree_h = Some (map S_freelink (i # fs))" "vacant (S_procq i) R"
    and B: "chains (hh s) B" "\<And>b. i \<notin> set (B b)"
  shows "\<exists>h hh'. alloc_semd s = Some (Ref i, s\<lparr>lh := h, hh := hh', s_key := (s_key s)(i := 0)\<rparr>) \<and>
           rings h (R(SemdFree_h \<mapsto> map S_freelink fs, S_procq i \<mapsto> [], S_freelink i \<mapsto> [])) \<and> chains hh' B"
proof -
  obtain h1 where h1: "list_delete_safe (Ref (S_freelink i)) (lh s) = Some h1"
      "rings h1 (R(SemdFree_h \<mapsto> map S_freelink fs, S_freelink i \<mapsto> []))" (is "rings h1 ?R1")
    using list_delete_safe_first [OF R(1), of SemdFree_h "S_freelink i"] R(2) by auto
  have "vacant (S_procq i) ?R1" "vacant (S_freelink i) ?R1"
    using R(2,3) by (auto simp: vacant_def not_in_nodes split: if_splits)
  from reset_semd_rings [of "s\<lparr>lh := h1\<rparr>", OF _ this, of B] h1(2) B obtain h hh' where
    h: "reset_semd (Ref i) (s\<lparr>lh := h1\<rparr>) = Some (s\<lparr>lh := h, hh := hh', s_key := (s_key s)(i := 0)\<rparr>)"
      "rings h (?R1(S_procq i \<mapsto> [], S_freelink i \<mapsto> []))" "chains hh' B"
    by auto
  have "?R1(S_procq i \<mapsto> [], S_freelink i \<mapsto> []) =
      R(SemdFree_h \<mapsto> map S_freelink fs, S_procq i \<mapsto> [], S_freelink i \<mapsto> [])" by auto
  with h h1(1) show ?thesis
    using list_empty_rings [OF R(1,2)] get_next_head_rings [OF R(1), of SemdFree_h "S_freelink i"] R(2)
    by (intro exI [of _ h] exI [of _ hh']) (simp add: alloc_semd_def)
qed

lemma alloc_semd_exhausted:
  assumes "rings (lh s) R" "R SemdFree_h = Some []"
  shows "alloc_semd s = Some (NULL, s)"
  using list_empty_rings [OF assms] by (simp add: alloc_semd_def)

text \<open>The first half of \<open>insertBlocked\<close> on a key without descriptor.\<close>

definition new_sem :: "u32 \<Rightarrow> 'z kmem_scheme \<Rightarrow> (semd ptr \<times> 'z kmem_scheme) option" where
  "new_sem semAdd s = do {
     (sem, s) \<leftarrow> alloc_semd s;
     if sem = NULL then Some (NULL, s)
     else do {
       s \<leftarrow> set_s_key sem semAdd s;
       k \<leftarrow> get_s_key sem s;
       s \<leftarrow> on_hh (hash_add SEMD_H_SIZE sem k) s;
       Some (sem, s)
     }
   }"

lemma new_sem_ash:
  assumes rep: "ash_rep s R A B S (i # fs) {}" and k: "S k = None"
  shows "\<exists>h hh' R'. new_sem k s = Some (Ref i, s\<lparr>lh := h, hh := hh', s_key := (s_key s)(i := k)\<rparr>) \<and>
     ash_rep (s\<lparr>lh := h, hh := hh', s_key := (s_key s)(i := k)\<rparr>) R' A
       (B(bucket k := i # B (bucket k))) (S(k \<mapsto> i)) fs {k} \<and> same_elsewhere R R' \<and>
     (\<forall>e. \<not> sem_node e \<longrightarrow> loose e R \<longrightarrow> loose e R')"
proof -
  note D = ash_repD [OF rep]
  have iS: "S k' \<noteq> Some i" for k' using D(12) by (auto simp: ran_def)
  then have iB: "i \<notin> set (B b)" for b by (simp add: D(4))
  let ?R' = "R(SemdFree_h \<mapsto> map S_freelink fs, S_procq i \<mapsto> [], S_freelink i \<mapsto> [])"
  obtain h hh1 where h: "alloc_semd s = Some (Ref i, s\<lparr>lh := h, hh := hh1, s_key := (s_key s)(i := 0)\<rparr>)"
      "rings h ?R'" "chains hh1 B"
    using alloc_semd_rings [OF D(1,3) D(10) D(2) iB] by auto
  obtain hh' where hh': "hlist_add_head (Ref i) (bucket k) hh1 = Some hh'"
      "chains hh' (B(bucket k := i # B (bucket k)))"
    using hlist_add_head_chains [OF h(3) iB] by blast
  let ?s' = "s\<lparr>lh := h, hh := hh', s_key := (s_key s)(i := k)\<rparr>"
  have "new_sem k s = Some (Ref i, ?s')"
    using h(1) hh'(1) by (simp add: new_sem_def hash_add_def on_hh_def bucket_def)
  moreover have "ash_rep ?s' ?R' A (B(bucket k := i # B (bucket k))) (S(k \<mapsto> i)) fs {k}"
  proof (rule ash_repI)
    show "(j \<in> set ((B(bucket k := i # B (bucket k))) b)) =
        (\<exists>k'. (S(k \<mapsto> i)) k' = Some j \<and> b = bucket k')" for b j
    proof -
      have "(S(k \<mapsto> i)) k' = Some j \<longleftrightarrow> k' = k \<and> j = i \<or> S k' = Some j" for k'
        using k by auto
      then show ?thesis using iS by (auto simp: D(4))
    qed
    show "s_key ?s' j = k' \<and> ?R' (S_procq j) = Some (map P_list (A k')) \<and>
        (k' \<notin> {k} \<longrightarrow> A k' \<noteq> []) \<and> ?R' (S_freelink j) = Some []" if "(S(k \<mapsto> i)) k' = Some j" for k' j
      using that k iS [of k'] D(5-9) by (cases "k' = k") auto
    show "vacant (S_procq j) ?R'" if "j \<in> set fs" for j
      using D(10) [of j] that D(3) by (auto simp: vacant_def not_in_nodes split: if_splits)
    have "i \<notin> set fs" using ringsD(2) [OF D(1,3)] by auto
    with D(11,12) k show "set fs \<union> ran (S(k \<mapsto> i)) = {..<MAX_PROC}" "set fs \<inter> ran (S(k \<mapsto> i)) = {}"
      by auto
  qed (use h(2) hh'(2) D in \<open>auto split: if_splits\<close>)
  moreover have "same_elsewhere R ?R'" by (auto simp: same_elsewhere_def no_tree_entries_def)
  moreover have "loose e ?R'" if e: "\<not> sem_node e" "loose e R" for e
    using e(2)
  proof (cases rule: looseE)
    case 1
    with e(1) show ?thesis by (auto simp: loose_def)
  next
    case (2 q us vs)
    have "q \<noteq> SemdFree_h"
    proof
      assume "q = SemdFree_h"
      then have "e \<in> set (map S_freelink (i # fs))" using 2 D(3) by simp
      with e(1) show False by auto
    qed
    moreover have "q \<noteq> S_procq i" using D(10) [of i] 2 by (auto simp: vacant_def not_in_nodes)
    moreover have "q \<noteq> S_freelink i"
    proof
      assume "q = S_freelink i"
      then have "in_ring R (S_freelink i) (S_freelink i)" using 2 by (simp add: in_ring_def)
      moreover have "in_ring R SemdFree_h (S_freelink i)" using D(3) by (simp add: in_ring_def)
      ultimately show False using in_ring_unique [OF rings_shape [OF D(1)]] by blast
    qed
    ultimately have "?R' q = Some (us @ e # vs)" using 2 by simp
    then show ?thesis unfolding loose_def by fastforce
  qed
  ultimately show ?thesis by blast
qed

text \<open>The second half: the process moves to the end of the queue of the semaphore.\<close>

lemma unlink_other:
  assumes "shape R" "R q = Some xs" "e \<notin> set xs" "q \<noteq> e"
  shows "unlink e R q = Some xs"
  using assms by (simp add: unlink_def removeAll_id)

lemma loose_detach:
  assumes "loose e R"
  shows "loose e (detach e R)" "unlink e (detach e R) = unlink e R"
  by (auto simp: loose_def detach_def unlink_def fun_eq_iff option.map_comp comp_def)

lemma enqueue_ash:
  assumes rep: "ash_rep s R A B S fs H" and i: "S k = Some i"
    and p: "loose (P_list p) R" "\<And>j. p \<notin> set (A j)"
  shows "\<exists>h R'. (do {
       s \<leftarrow> on_lh (list_delete_safe (p_list (Ref p))) s;
       s \<leftarrow> insertProcQ (s_procq (Ref i)) (Ref p) s;
       upd_pcb (p_semAdd_update (\<lambda>_. k)) (Ref p) s
     }) = Some (s\<lparr>lh := h, pcbs := (pcbs s)(p := (pcbs s p)\<lparr>p_semAdd := k\<rparr>)\<rparr>) \<and>
     ash_rep (s\<lparr>lh := h, pcbs := (pcbs s)(p := (pcbs s p)\<lparr>p_semAdd := k\<rparr>)\<rparr>) R'
       (A(k := A k @ [p])) B S fs (H - {k}) \<and> same_elsewhere (unlink (P_list p) R) R'"
proof -
  note D = ash_repD [OF rep]
  note sh = rings_shape [OF D(1)]
  have other: "unlink (P_list p) R (S_procq j) = Some (map P_list (A k'))" if "S k' = Some j" for k' j
    using unlink_other [OF sh D(6) [OF that]] p(2) [of k'] by auto
  obtain h1 where h1: "list_delete_safe (Ref (P_list p)) (lh s) = Some h1" "rings h1 (detach (P_list p) R)"
    using list_delete_safe_rings [OF D(1) p(1)] by blast
  have "detach (P_list p) R (S_procq i) = Some (map P_list (A k))"
    using other [OF i] by (simp add: detach_def)
  from insertProcQ_rings [of "s\<lparr>lh := h1\<rparr>", OF _ this loose_detach(1) [OF p(1)]] h1(2) p(2) [of k]
  obtain h where h: "insertProcQ (Ref (S_procq i)) (Ref p) (s\<lparr>lh := h1\<rparr>) = Some (s\<lparr>lh := h\<rparr>)"
      "rings h ((unlink (P_list p) R)(S_procq i \<mapsto> map P_list (A k @ [p])))" (is "rings h ?R'")
    by (auto simp: loose_detach(2) [OF p(1)] removeAll_id)
  let ?s' = "s\<lparr>lh := h, pcbs := (pcbs s)(p := (pcbs s p)\<lparr>p_semAdd := k\<rparr>)\<rparr>"
  have "ash_rep ?s' ?R' (A(k := A k @ [p])) B S fs (H - {k})"
  proof (rule ash_repI)
    show "s_key ?s' j = k' \<and> ?R' (S_procq j) = Some (map P_list ((A(k := A k @ [p])) k')) \<and>
        (k' \<notin> H - {k} \<longrightarrow> (A(k := A k @ [p])) k' \<noteq> []) \<and> ?R' (S_freelink j) = Some []"
      if S: "S k' = Some j" for k' j
    proof -
      have "j \<noteq> i" if "k' \<noteq> k" using ash_rep_owner [OF rep S] i that by metis
      moreover have "?R' (S_freelink j) = Some []" using D(8) [OF S] by (simp add: unlink_def)
      ultimately show ?thesis
        using D(5,7) [OF S] i S other [OF S] by (cases "k' = k") auto
    qed
    show "vacant (S_procq j) ?R'" if "j \<in> set fs" for j
    proof -
      have "j \<noteq> i" using that i D(12) by (auto simp: ran_def)
      moreover have "vacant (S_procq j) (unlink (P_list p) R)"
        using D(10) [OF that] by (rule vacant_unlink) simp
      ultimately show ?thesis by (auto simp: vacant_def not_in_nodes split: if_splits)
    qed
    show "?R' SemdFree_h = Some (map S_freelink fs)"
      using unlink_other [OF sh D(3)] by auto
    show "p_semAdd (pcbs ?s' x) = k'" if "x \<in> set ((A(k := A k @ [p])) k')" for k' x
      using that p(2) [of k'] D(13) [of x k'] by (auto split: if_splits)
    show "(A(k := A k @ [p])) k' = []" if "S k' = None" for k'
      using D(9) [OF that] i that by auto
  qed (use h(2) D in auto)
  moreover have "same_elsewhere (unlink (P_list p) R) ?R'" by (auto simp: same_elsewhere_def no_tree_entries_def)
  ultimately show ?thesis
    using h(1) h1(1) by (intro exI [of _ h] exI [of _ ?R']) simp
qed

text \<open>Removing a process from its queue leaves it alone in its own ring.\<close>

lemma dequeue_ash:
  assumes rep: "ash_rep s R A B S fs {}" and i: "S k = Some i" and p: "p \<in> set (A k)"
  shows "\<exists>h R'. list_delete_safe (Ref (P_list p)) (lh s) = Some h \<and>
     ash_rep (s\<lparr>lh := h\<rparr>) R' (A(k := removeAll p (A k))) B S fs {k} \<and>
     same_elsewhere (R(P_list p \<mapsto> [])) R'"
proof -
  note D = ash_repD [OF rep]
  note sh = rings_shape [OF D(1)]
  have "P_list p \<in> set (map P_list (A k))" using p by simp
  then obtain us vs where split: "map P_list (A k) = us @ P_list p # vs" by (meson split_list)
  then have "us @ vs = map P_list (removeAll p (A k))"
    using removeAll_split [of us "P_list p" vs] ringsD(2) [OF D(1) D(6) [OF i]]
    by (simp flip: removeAll_map_P_list)
  then have R1: "detach (P_list p) R = R(S_procq i \<mapsto> map P_list (removeAll p (A k)), P_list p \<mapsto> [])"
    using unlink_member [OF sh, of "S_procq i" us "P_list p" vs] D(6) [OF i] split
    by (simp add: detach_def)
  have "loose (P_list p) R" using D(6) [OF i] split unfolding loose_def by fastforce
  then obtain h where h: "list_delete_safe (Ref (P_list p)) (lh s) = Some h"
      "rings h (R(S_procq i \<mapsto> map P_list (removeAll p (A k)), P_list p \<mapsto> []))" (is "rings h ?R'")
    using list_delete_safe_rings [OF D(1)] R1 by metis
  have "ash_rep (s\<lparr>lh := h\<rparr>) ?R' (A(k := removeAll p (A k))) B S fs {k}"
  proof (rule ash_repI)
    show "s_key (s\<lparr>lh := h\<rparr>) j = k' \<and> ?R' (S_procq j) = Some (map P_list ((A(k := removeAll p (A k))) k')) \<and>
        (k' \<notin> {k} \<longrightarrow> (A(k := removeAll p (A k))) k' \<noteq> []) \<and> ?R' (S_freelink j) = Some []"
      if S: "S k' = Some j" for k' j
    proof -
      have "j \<noteq> i" if "k' \<noteq> k" using ash_rep_owner [OF rep S] i that by metis
      then show ?thesis using D(5-8) [OF S] i S by (cases "k' = k") auto
    qed
    show "vacant (S_procq j) ?R'" if "j \<in> set fs" for j
    proof -
      have "j \<noteq> i" using that i D(12) by (auto simp: ran_def)
      with D(10) [OF that] D(6) [OF i] show ?thesis
        by (auto simp: vacant_def not_in_nodes split: if_splits)
    qed
    show "p_semAdd (pcbs (s\<lparr>lh := h\<rparr>) x) = k'" if "x \<in> set ((A(k := removeAll p (A k))) k')" for k' x
      using that D(13) [of x k'] by (auto split: if_splits)
    show "(A(k := removeAll p (A k))) k' = []" if "S k' = None" for k'
      using D(9) [OF that] i that by auto
  qed (use h(2) D in auto)
  moreover have "same_elsewhere (R(P_list p \<mapsto> [])) ?R'" by (auto simp: same_elsewhere_def no_tree_entries_def)
  ultimately show ?thesis using h(1) by blast
qed

lemma ash_rep_pcbs:
  assumes "ash_rep s R A B S fs H" "\<And>k p. p \<in> set (A k) \<Longrightarrow> p_semAdd (f p) = p_semAdd (pcbs s p)"
  shows "ash_rep (s\<lparr>pcbs := f\<rparr>) R A B S fs H"
  using assms by (intro ash_repI) (auto dest: ash_repD)

lemma free_semd_ifempty_ash:
  assumes rep: "ash_rep s R A B S fs {k}" and i: "S k = Some i"
  shows "\<exists>h hh' R'. free_semd_ifempty (Ref i) s = Some (A k = [], s\<lparr>lh := h, hh := hh'\<rparr>) \<and>
     ash (s\<lparr>lh := h, hh := hh'\<rparr>) R' A \<and> same_elsewhere R R'"
proof (cases "A k = []")
  case False
  note D = ash_repD [OF rep]
  have "ash_rep s R A B S fs {}"
    using False D by (intro ash_repI) (auto, metis D(7) singletonD)
  then have "ash (s\<lparr>lh := lh s, hh := hh s\<rparr>) R A" unfolding ash_def by auto
  moreover have "free_semd_ifempty (Ref i) s = Some (False, s\<lparr>lh := lh s, hh := hh s\<rparr>)"
    using list_empty_rings [OF D(1) D(6) [OF i]] False by (simp add: free_semd_ifempty_def emptyProcQ_def)
  ultimately show ?thesis using False
    by (intro exI [of _ "lh s"] exI [of _ "hh s"] exI [of _ R]) (simp add: same_elsewhere_def)
next
  case True
  note D = ash_repD [OF rep]
  have "i \<in> set (B (bucket k))" using i D(4) by auto
  then obtain us vs where B: "B (bucket k) = us @ i # vs" by (meson split_list)
  then obtain hh' where hh': "hlist_del_init (Ref i) (hh s) = Some hh'" "chains hh' (B(bucket k := us @ vs))"
    using hlist_del_init_chains [OF D(2)] by blast
  let ?B' = "B(bucket k := us @ vs)" and ?S' = "S(k := None)"
    and ?R' = "R(S_freelink i := None, SemdFree_h \<mapsto> S_freelink i # map S_freelink fs)"
  obtain h where h: "list_add (Ref (S_freelink i)) (Ref SemdFree_h) (lh s) = Some h" "rings h ?R'"
    using list_add_self_rings [OF D(1) D(8) [OF i] D(3)] by auto
  let ?s' = "s\<lparr>lh := h, hh := hh'\<rparr>"
  have S': "?S' j = Some i' \<longleftrightarrow> S j = Some i' \<and> i' \<noteq> i" for j i'
  proof (cases "j = k")
    case True
    then show ?thesis using i by auto
  next
    case False
    then have "S j \<noteq> Some i" using ash_rep_owner [OF rep i] by metis
    with False show ?thesis by auto
  qed
  have iB: "i \<notin> set us" "i \<notin> set vs"
    using chainsD(2) [OF D(2), of "bucket k"] B by auto
  have iB3: "b = bucket k" if "i \<in> set (B b)" for b
    using chainsD(3) [OF D(2) that, of "bucket k"] B by simp
  have rep': "ash_rep ?s' ?R' A ?B' ?S' (i # fs) {}"
  proof (rule ash_repI)
    show "(j \<in> set (?B' b)) = (\<exists>k'. ?S' k' = Some j \<and> b = bucket k')" for b j
    proof -
      have "j \<in> set (?B' b) \<longleftrightarrow> j \<in> set (B b) \<and> j \<noteq> i" using B iB iB3 by (cases "b = bucket k") auto
      then show ?thesis unfolding S' D(4) by blast
    qed
    show "s_key ?s' j = k' \<and> ?R' (S_procq j) = Some (map P_list (A k')) \<and>
        (k' \<notin> {} \<longrightarrow> A k' \<noteq> []) \<and> ?R' (S_freelink j) = Some []" if "?S' k' = Some j" for k' j
    proof -
      have j: "S k' = Some j" "j \<noteq> i" using that unfolding S' by auto
      then have "k' \<notin> {k}" using i by auto
      with j show ?thesis using D(5-8) [OF j(1)] by auto
    qed
    show "vacant (S_procq j) ?R'" if "j \<in> set (i # fs)" for j
    proof -
      have "vacant (S_procq j) R" using that D(6) [OF i] D(10) True by (auto simp: vacant_def)
      then show ?thesis using D(3) by (auto simp: vacant_def not_in_nodes split: if_splits)
    qed
    have "i \<in> ran S" using i by (auto simp: ran_def)
    moreover have "ran ?S' = ran S - {i}" unfolding ran_def S' by auto
    ultimately show "set (i # fs) \<union> ran ?S' = {..<MAX_PROC}" "set (i # fs) \<inter> ran ?S' = {}"
      using D(11,12) by auto
    show "A k' = []" if "?S' k' = None" for k' using that D(9) True by (auto split: if_splits)
  qed (use h(2) hh'(2) D in \<open>auto simp del: fun_upd_apply simp: fun_upd_same\<close>)
  have "free_semd_ifempty (Ref i) s = Some (True, ?s')"
    using list_empty_rings [OF D(1) D(6) [OF i]] True h(1) hh'(1)
    by (simp add: free_semd_ifempty_def emptyProcQ_def hash_del_def on_hh_def on_lh_def)
  moreover have "same_elsewhere R ?R'" by (auto simp: same_elsewhere_def no_tree_entries_def)
  moreover have "ash ?s' ?R' A" using rep' unfolding ash_def by blast
  ultimately show ?thesis using True by (intro exI [of _ h] exI [of _ hh'] exI [of _ ?R']) simp
qed

section \<open>The effect of each operation on the abstract hash\<close>

lemma same_elsewhere_trans:
  "same_elsewhere R R1 \<Longrightarrow> same_elsewhere R1 R2 \<Longrightarrow> same_elsewhere R R2"
  unfolding same_elsewhere_def using no_tree_entries_trans by metis

lemma same_elsewhere_unlink:
  "same_elsewhere R R1 \<Longrightarrow> same_elsewhere (unlink e R) (unlink e R1)"
  using no_tree_entries_unlink by (auto simp: same_elsewhere_def unlink_def)

lemma insertBlocked_new_sem:
  "insertBlocked semAdd p s = do {
     found \<leftarrow> find_sem semAdd s;
     (sem, s) \<leftarrow> (if found = NULL then new_sem semAdd s else Some (found, s));
     if sem = NULL then Some (True, s)
     else do {
       s \<leftarrow> on_lh (list_delete_safe (p_list p)) s;
       s \<leftarrow> insertProcQ (s_procq sem) p s;
       s \<leftarrow> upd_pcb (p_semAdd_update (\<lambda>_. semAdd)) p s;
       Some (False, s)
     }
   }"
  unfolding insertBlocked_def new_sem_def by (rule refl)

lemma keys_in_use:
  assumes "ash_rep s R A B S fs {}"
  shows "{k. A k \<noteq> []} = dom S" "card (dom S) + length fs = MAX_PROC"
proof -
  note D = ash_repD [OF assms]
  have "A k \<noteq> [] \<longleftrightarrow> k \<in> dom S" for k using D(7) [of k] D(9) [of k] by (cases "S k") auto
  then show "{k. A k \<noteq> []} = dom S" by blast
  have "inj_on (\<lambda>k. the (S k)) (dom S)"
    by (rule inj_onI) (metis ash_rep_owner [OF assms] domD option.sel)
  moreover have "(\<lambda>k. the (S k)) ` dom S = ran S" by (force simp: ran_def image_iff)
  ultimately have "card (dom S) = card (ran S)" using card_image by metis
  moreover have "distinct fs" using ringsD(2) [OF D(1,3)] by (simp add: distinct_map)
  moreover have "card (set fs \<union> ran S) = card (set fs) + card (ran S)"
    using D(11,12) by (intro card_Un_disjoint) (auto intro: finite_subset)
  ultimately show "card (dom S) + length fs = MAX_PROC" using D(11) by (simp add: distinct_card)
qed

lemma insertBlocked_full:
  assumes "ash s R A" "A k = []" "card {j. A j \<noteq> []} = MAX_PROC"
  shows "insertBlocked k p s = Some (True, s)"
proof -
  obtain B S fs where rep: "ash_rep s R A B S fs {}" using assms(1) by (auto simp: ash_def)
  note D = ash_repD [OF rep]
  have "S k = None" using D(7) assms(2) by (cases "S k") auto
  moreover have "fs = []" using keys_in_use [OF rep] assms(3) by simp
  ultimately show ?thesis
    using find_sem_ash [OF rep, of k] alloc_semd_exhausted [OF D(1)] D(3)
    by (simp add: insertBlocked_new_sem new_sem_def)
qed

lemma insertBlocked_ash:
  assumes ash: "ash s R A" and p: "loose (P_list p) R" "\<And>j. p \<notin> set (A j)"
    and room: "A k \<noteq> [] \<or> card {j. A j \<noteq> []} < MAX_PROC"
  shows "\<exists>h hh' ks R'. insertBlocked k (Ref p) s =
       Some (False, s\<lparr>lh := h, hh := hh', s_key := ks, pcbs := (pcbs s)(p := (pcbs s p)\<lparr>p_semAdd := k\<rparr>)\<rparr>) \<and>
     ash (s\<lparr>lh := h, hh := hh', s_key := ks, pcbs := (pcbs s)(p := (pcbs s p)\<lparr>p_semAdd := k\<rparr>)\<rparr>) R'
       (A(k := A k @ [p])) \<and> same_elsewhere (unlink (P_list p) R) R'"
proof -
  obtain B S fs where rep: "ash_rep s R A B S fs {}" using ash by (auto simp: ash_def)
  note D = ash_repD [OF rep]
  show ?thesis
  proof (cases "S k")
    case (Some i)
    from enqueue_ash [OF rep Some p] obtain h R' where
      h: "(do {
         s \<leftarrow> on_lh (list_delete_safe (p_list (Ref p))) s;
         s \<leftarrow> insertProcQ (s_procq (Ref i)) (Ref p) s;
         upd_pcb (p_semAdd_update (\<lambda>_. k)) (Ref p) s
       }) = Some (s\<lparr>lh := h, pcbs := (pcbs s)(p := (pcbs s p)\<lparr>p_semAdd := k\<rparr>)\<rparr>)"
      "ash_rep (s\<lparr>lh := h, pcbs := (pcbs s)(p := (pcbs s p)\<lparr>p_semAdd := k\<rparr>)\<rparr>) R' (A(k := A k @ [p])) B S fs {}"
      "same_elsewhere (unlink (P_list p) R) R'" by auto
    have "insertBlocked k (Ref p) s =
        Some (False, s\<lparr>lh := h, pcbs := (pcbs s)(p := (pcbs s p)\<lparr>p_semAdd := k\<rparr>)\<rparr>)"
      using find_sem_ash [OF rep, of k] Some h(1)
      by (auto simp: insertBlocked_new_sem split: Option.bind_splits)
    then show ?thesis
      using h(2,3) by (intro exI [of _ h] exI [of _ "hh s"] exI [of _ "s_key s"] exI [of _ R'])
        (auto simp: ash_def)
  next
    case None
    then have "fs \<noteq> []" using keys_in_use [OF rep] room D(9) by auto
    then obtain i fs' where fs: "fs = i # fs'" by (cases fs) auto
    from new_sem_ash [OF rep [unfolded fs] None] obtain h1 hh' R1 where
      n0: "new_sem k s = Some (Ref i, s\<lparr>lh := h1, hh := hh', s_key := (s_key s)(i := k)\<rparr>)"
      "ash_rep (s\<lparr>lh := h1, hh := hh', s_key := (s_key s)(i := k)\<rparr>) R1 A
         (B(bucket k := i # B (bucket k))) (S(k \<mapsto> i)) fs' {k}"
      "same_elsewhere R R1" "\<forall>e. \<not> sem_node e \<longrightarrow> loose e R \<longrightarrow> loose e R1" by blast
    let ?s1 = "s\<lparr>lh := h1, hh := hh', s_key := (s_key s)(i := k)\<rparr>"
    have n: "new_sem k s = Some (Ref i, ?s1)"
      "ash_rep ?s1 R1 A (B(bucket k := i # B (bucket k))) (S(k \<mapsto> i)) fs' {k}"
      "same_elsewhere R R1" "loose (P_list p) R1" using n0 p(1) by simp_all
    from enqueue_ash [OF n(2) _ n(4) p(2), of k i] obtain h R' where
      h: "(do {
         s \<leftarrow> on_lh (list_delete_safe (p_list (Ref p))) ?s1;
         s \<leftarrow> insertProcQ (s_procq (Ref i)) (Ref p) s;
         upd_pcb (p_semAdd_update (\<lambda>_. k)) (Ref p) s
       }) = Some (?s1\<lparr>lh := h, pcbs := (pcbs ?s1)(p := (pcbs ?s1 p)\<lparr>p_semAdd := k\<rparr>)\<rparr>)"
      "ash_rep (?s1\<lparr>lh := h, pcbs := (pcbs ?s1)(p := (pcbs ?s1 p)\<lparr>p_semAdd := k\<rparr>)\<rparr>) R' (A(k := A k @ [p]))
         (B(bucket k := i # B (bucket k))) (S(k \<mapsto> i)) fs' {}"
      "same_elsewhere (unlink (P_list p) R1) R'" by auto
    have "insertBlocked k (Ref p) s =
        Some (False, ?s1\<lparr>lh := h, pcbs := (pcbs ?s1)(p := (pcbs ?s1 p)\<lparr>p_semAdd := k\<rparr>)\<rparr>)"
      using find_sem_ash [OF rep, of k] None n(1) h(1)
      by (auto simp: insertBlocked_new_sem split: Option.bind_splits)
    moreover have "?s1\<lparr>lh := h, pcbs := (pcbs ?s1)(p := (pcbs ?s1 p)\<lparr>p_semAdd := k\<rparr>)\<rparr> =
        s\<lparr>lh := h, hh := hh', s_key := (s_key s)(i := k), pcbs := (pcbs s)(p := (pcbs s p)\<lparr>p_semAdd := k\<rparr>)\<rparr>"
      by simp
    ultimately show ?thesis
      using h(2) same_elsewhere_trans [OF same_elsewhere_unlink [OF n(3)] h(3)]
      by (intro exI [of _ h] exI [of _ hh'] exI [of _ "(s_key s)(i := k)"] exI [of _ R'])
        (metis ash_def)
  qed
qed

lemma removeBlocked_none:
  assumes "ash s R A" "A k = []"
  shows "removeBlocked k s = Some (NULL, s)"
proof -
  obtain B S fs where rep: "ash_rep s R A B S fs {}" using assms(1) by (auto simp: ash_def)
  then have "S k = None" using ash_repD(7) [OF rep] assms(2) by (cases "S k") auto
  then show ?thesis using find_sem_ash [OF rep, of k] by (simp add: removeBlocked_def)
qed

lemma ash_key_unique: "ash s R A \<Longrightarrow> p \<in> set (A k) \<Longrightarrow> p_semAdd (pcbs s p) = k"
  unfolding ash_def by (blast dest: ash_repD(13))

text \<open>Clearing \<open>p_semAdd\<close> of a process that is in no queue.\<close>

lemma ash_rep_clear:
  assumes "ash_rep s R A B S fs H" "\<And>j. p \<notin> set (A j)"
  shows "ash_rep (s\<lparr>pcbs := (pcbs s)(p := (pcbs s p)\<lparr>p_semAdd := k\<rparr>)\<rparr>) R A B S fs H"
  using assms by (intro ash_rep_pcbs) auto

lemma ash_distinct: "ash s R A \<Longrightarrow> distinct (A k)"
  unfolding ash_def using ash_repD(1,6,9) ringsD(2)
  by (metis distinct.simps(1) distinct_map not_Some_eq)

lemma removed_from_all:
  assumes "ash s R A"
  shows "p \<in> set (A k) \<Longrightarrow> p \<notin> set ((A(k := removeAll p (A k))) j)"
  using ash_key_unique [OF assms, of p k] ash_key_unique [OF assms, of p j] by (cases "j = k") auto

lemma removeBlocked_ash:
  assumes ash: "ash s R A" and q: "A k = p # ps"
  shows "\<exists>h hh' R'. removeBlocked k s =
       Some (Ref p, s\<lparr>lh := h, hh := hh', pcbs := (pcbs s)(p := (pcbs s p)\<lparr>p_semAdd := 0\<rparr>)\<rparr>) \<and>
     ash (s\<lparr>lh := h, hh := hh', pcbs := (pcbs s)(p := (pcbs s p)\<lparr>p_semAdd := 0\<rparr>)\<rparr>) R' (A(k := ps)) \<and>
     same_elsewhere (R(P_list p \<mapsto> [])) R'"
proof -
  obtain B S fs where rep: "ash_rep s R A B S fs {}" using ash by (auto simp: ash_def)
  note D = ash_repD [OF rep]
  obtain i where i: "S k = Some i" using D(9) [of k] q by (cases "S k") auto
  have ps: "removeAll p (A k) = ps" using ash_distinct [OF ash, of k] q by (simp add: removeAll_id)
  obtain h1 R1 where h1: "list_delete_safe (Ref (P_list p)) (lh s) = Some h1"
      "ash_rep (s\<lparr>lh := h1\<rparr>) R1 (A(k := ps)) B S fs {k}" "same_elsewhere (R(P_list p \<mapsto> [])) R1"
    using dequeue_ash [OF rep i, of p] q ps by auto
  let ?s1 = "s\<lparr>pcbs := (pcbs s)(p := (pcbs s p)\<lparr>p_semAdd := 0\<rparr>), lh := h1\<rparr>"
  have "ash_rep ?s1 R1 (A(k := ps)) B S fs {k}"
    using ash_rep_clear [OF h1(2), of p 0] removed_from_all [OF ash, of p k, unfolded ps] q
    by (simp add: kmem_order)
  from free_semd_ifempty_ash [OF this i] obtain h hh' R' where
    f: "free_semd_ifempty (Ref i) ?s1 = Some ((A(k := ps)) k = [], ?s1\<lparr>lh := h, hh := hh'\<rparr>)"
      "ash (?s1\<lparr>lh := h, hh := hh'\<rparr>) R' (A(k := ps))" "same_elsewhere R1 R'" by blast
  have eq: "?s1\<lparr>lh := h, hh := hh'\<rparr> =
      s\<lparr>lh := h, hh := hh', pcbs := (pcbs s)(p := (pcbs s p)\<lparr>p_semAdd := 0\<rparr>)\<rparr>" by simp
  have "list_empty (Ref (S_procq i)) (lh s) = Some False"
    "get_next (Ref (S_procq i)) (lh s) = Some (Ref (P_list p))"
    using list_empty_rings [OF D(1) D(6) [OF i]] get_next_head_rings [OF D(1), of "S_procq i" "P_list p"]
      D(6) [OF i] q by auto
  then have "removeBlocked k s = Some (Ref p, ?s1\<lparr>lh := h, hh := hh'\<rparr>)"
    using find_sem_ash [OF rep, of k] i h1(1) f(1)
    by (simp add: removeBlocked_def emptyProcQ_def on_lh_def)
  with f(2) same_elsewhere_trans [OF h1(3) f(3)] show ?thesis unfolding eq by blast
qed

text \<open>The loop of \<open>outBlocked\<close>.\<close>

lemma blocked_search:
  assumes "rings h R" "R q = Some (map P_list qs)"
  shows "list_for_each
     (\<lambda>pos l. do { q \<leftarrow> pcb_of_p_list pos; Some (False, if q = Ref p then pos else l) })
     (\<lambda>_. h) (Ref q) l = Some (if p \<in> set qs then Ref (P_list p) else l)"
    (is "list_for_each ?body _ _ _ = _")
proof -
  have "list_for_each ?body (\<lambda>_. h) (Ref q) l = for_entries ?body (map P_list qs) l"
    by (rule list_for_each_rings [where R = R]) (use assms in auto)
  also have "\<dots> = Some (if p \<in> set qs then Ref (P_list p) else l)"
    by (induction qs arbitrary: l) auto
  finally show ?thesis .
qed

lemma outBlocked_none:
  assumes "ash s R A" "p \<notin> set (A (p_semAdd (pcbs s p)))"
  shows "outBlocked (Ref p) s = Some (NULL, s)"
proof -
  obtain B S fs where rep: "ash_rep s R A B S fs {}" using assms(1) by (auto simp: ash_def)
  note D = ash_repD [OF rep]
  let ?k = "p_semAdd (pcbs s p)"
  show ?thesis
  proof (cases "S ?k")
    case None
    then show ?thesis using find_sem_ash [OF rep, of ?k] by (simp add: outBlocked_def)
  next
    case (Some i)
    show ?thesis
      using find_sem_ash [OF rep, of ?k] blocked_search [OF D(1) D(6) [OF Some], of p] Some assms(2)
      by (simp add: outBlocked_def)
  qed
qed

lemma outBlocked_ash:
  assumes ash: "ash s R A" and q: "p \<in> set (A k)"
  shows "\<exists>h hh' R'. outBlocked (Ref p) s =
       Some (Ref p, s\<lparr>lh := h, hh := hh', pcbs := (pcbs s)(p := (pcbs s p)\<lparr>p_semAdd := 0\<rparr>)\<rparr>) \<and>
     ash (s\<lparr>lh := h, hh := hh', pcbs := (pcbs s)(p := (pcbs s p)\<lparr>p_semAdd := 0\<rparr>)\<rparr>) R'
       (A(k := removeAll p (A k))) \<and>
     same_elsewhere (R(P_list p \<mapsto> [])) R'"
proof -
  obtain B S fs where rep: "ash_rep s R A B S fs {}" using ash by (auto simp: ash_def)
  note D = ash_repD [OF rep]
  obtain i where i: "S k = Some i" using D(9) [of k] q by (cases "S k") auto
  obtain h1 R1 where h1: "list_delete_safe (Ref (P_list p)) (lh s) = Some h1"
      "ash_rep (s\<lparr>lh := h1\<rparr>) R1 (A(k := removeAll p (A k))) B S fs {k}"
      "same_elsewhere (R(P_list p \<mapsto> [])) R1"
    using dequeue_ash [OF rep i q] by auto
  from free_semd_ifempty_ash [OF h1(2) i] obtain h hh' R' where
    f: "free_semd_ifempty (Ref i) (s\<lparr>lh := h1\<rparr>) = Some ((A(k := removeAll p (A k))) k = [], s\<lparr>lh := h, hh := hh'\<rparr>)"
      "ash (s\<lparr>lh := h, hh := hh'\<rparr>) R' (A(k := removeAll p (A k)))" "same_elsewhere R1 R'" by auto
  let ?s' = "s\<lparr>lh := h, hh := hh', pcbs := (pcbs s)(p := (pcbs s p)\<lparr>p_semAdd := 0\<rparr>)\<rparr>"
  have "ash ?s' R' (A(k := removeAll p (A k)))"
  proof -
    obtain B' S' fs' where "ash_rep (s\<lparr>lh := h, hh := hh'\<rparr>) R' (A(k := removeAll p (A k))) B' S' fs' {}"
      using f(2) by (auto simp: ash_def)
    from ash_rep_clear [OF this, of p 0] removed_from_all [OF ash q] show ?thesis
      unfolding ash_def by auto
  qed
  have "outBlocked (Ref p) s = Some (Ref p, ?s')"
    using blocked_search [OF D(1) D(6) [OF i], of p]
    find_sem_ash [OF rep, of k] i h1(1) f(1) q D(13) [OF q]
    by (simp add: outBlocked_def on_lh_def)
  with \<open>ash ?s' R' _\<close> same_elsewhere_trans [OF h1(3) f(3)] show ?thesis by blast
qed

lemma headBlocked_ash:
  assumes "ash s R A"
  shows "headBlocked k s = Some (case A k of [] \<Rightarrow> NULL | p # _ \<Rightarrow> Ref p)"
proof -
  obtain B S fs where rep: "ash_rep s R A B S fs {}" using assms by (auto simp: ash_def)
  note D = ash_repD [OF rep]
  show ?thesis
  proof (cases "S k")
    case None
    then show ?thesis using find_sem_ash [OF rep, of k] D(9) by (simp add: headBlocked_def)
  next
    case (Some i)
    then show ?thesis
      using find_sem_ash [OF rep, of k] list_empty_rings [OF D(1) D(6) [OF Some]]
        get_next_head_rings [OF D(1), of "S_procq i" "P_list (hd (A k))"] D(6,7) [OF Some]
      by (cases "A k") (auto simp: headBlocked_def emptyProcQ_def)
  qed
qed

lemma initASH_ash:
  assumes R: "rings (lh s) R" "R SemdFree_h = Some []" "\<And>i. S_freelink i \<notin> nodes R \<and> S_procq i \<notin> nodes R"
    and B: "chains (hh s) (\<lambda>_. [])"
  shows "\<exists>h. initASH s = Some (s\<lparr>lh := h\<rparr>) \<and>
           ash (s\<lparr>lh := h\<rparr>) (R(SemdFree_h \<mapsto> map S_freelink (rev [0..<MAX_PROC]))) (\<lambda>_. [])"
proof -
  let ?fs = "rev [0..<MAX_PROC]"
  obtain h where h: "initASH s = Some (s\<lparr>lh := h\<rparr>)" "rings h (R(SemdFree_h \<mapsto> map S_freelink ?fs))"
      (is "rings h ?R'")
    using push_all_rings [OF R(1,2), of MAX_PROC S_freelink] R(3) by (auto simp: initASH_def inj_def)
  have "ash_rep (s\<lparr>lh := h\<rparr>) ?R' (\<lambda>_. []) (\<lambda>_. []) (\<lambda>_. None) ?fs {}"
    using h(2) R(3) B by (intro ash_repI) (auto simp: vacant_def not_in_nodes)
  then show ?thesis using h(1) unfolding ash_def by (intro exI [of _ h]) auto
qed

text \<open>
  There are as many descriptors as processes, and every descriptor in use has a blocked
  process: with one process more to block, a descriptor is free.
\<close>

lemma semd_suffice:
  assumes ash: "ash s R A" and procs: "\<And>k. set (A k) \<subseteq> {..<MAX_PROC}"
    and p: "p < MAX_PROC" "\<And>k. p \<notin> set (A k)"
  shows "card {j. A j \<noteq> []} < MAX_PROC"
proof -
  have "inj_on (\<lambda>j. hd (A j)) {j. A j \<noteq> []}"
  proof (rule inj_onI)
    fix j k assume jk: "j \<in> {j. A j \<noteq> []}" "k \<in> {j. A j \<noteq> []}" "hd (A j) = hd (A k)"
    then have "A j \<noteq> []" "A k \<noteq> []" by simp_all
    have "hd (A j) \<in> set (A j)" using \<open>A j \<noteq> []\<close> by (rule hd_in_set)
    moreover have "hd (A j) \<in> set (A k)" unfolding jk(3) using \<open>A k \<noteq> []\<close> by (rule hd_in_set)
    ultimately show "j = k" using ash_key_unique [OF ash] by metis
  qed
  moreover have "(\<lambda>j. hd (A j)) ` {j. A j \<noteq> []} \<subseteq> {..<MAX_PROC} - {p}"
  proof (rule image_subsetI)
    fix j assume "j \<in> {j. A j \<noteq> []}"
    then have "hd (A j) \<in> set (A j)" by simp
    then show "hd (A j) \<in> {..<MAX_PROC} - {p}" using procs [of j] p(2) [of j] by auto
  qed
  ultimately have "card {j. A j \<noteq> []} \<le> card ({..<MAX_PROC} - {p})"
    by (intro card_inj_on_le) auto
  also have "\<dots> < MAX_PROC" using p(1) by simp
  finally show ?thesis .
qed

section \<open>The queue contract of a semaphore\<close>

definition blocked_on :: "u32 \<Rightarrow> 'z kmem_scheme \<Rightarrow> pcb list \<Rightarrow> bool" where
  "blocked_on k s ps \<longleftrightarrow> (\<exists>R A. ash s R A \<and> A k = ps \<and> (\<forall>j. set (A j) \<subseteq> {..<MAX_PROC}))"

definition blockable :: "'z kmem_scheme \<Rightarrow> pcb \<Rightarrow> bool" where
  "blockable s p \<longleftrightarrow> p < MAX_PROC \<and> alone (lh s) (P_list p)"

definition block_on :: "u32 \<Rightarrow> pcb ptr \<Rightarrow> 'z kmem_scheme \<Rightarrow> 'z kmem_scheme option" where
  "block_on k p s = do {
     (full, s) \<leftarrow> insertBlocked k p s;
     if full then None else Some s
   }"

lemma ash_rings: "ash s R A \<Longrightarrow> rings (lh s) R"
  unfolding ash_def using ash_repD(1) by blast

text \<open>Changes of the rings of other components.\<close>

definition keeps_sems :: "lnode rmap \<Rightarrow> lnode rmap \<Rightarrow> bool" where
  "keeps_sems R R' \<longleftrightarrow> (\<forall>q. sem_node q \<longrightarrow> R' q = R q) \<and>
     (\<forall>i. vacant (S_procq i) R \<longrightarrow> vacant (S_procq i) R')"

lemma ash_transfer:
  assumes "ash s R A" "rings (lh s') R'" "keeps_sems R R'" "hh s' = hh s" "s_key s' = s_key s"
    and "\<And>k p. p \<in> set (A k) \<Longrightarrow> p_semAdd (pcbs s' p) = p_semAdd (pcbs s p)"
  shows "ash s' R' A"
proof -
  obtain B S fs where rep: "ash_rep s R A B S fs {}" using assms(1) by (auto simp: ash_def)
  note D = ash_repD [OF rep]
  have K: "R' q = R q" if "sem_node q" for q using assms(3) that by (simp add: keeps_sems_def)
  have "ash_rep s' R' A B S fs {}"
  proof (rule ash_repI)
    show "(i \<in> set (B b)) = (\<exists>k. S k = Some i \<and> b = bucket k)" for b i by (rule D(4))
    show "s_key s' i = k \<and> R' (S_procq i) = Some (map P_list (A k)) \<and>
        (k \<notin> {} \<longrightarrow> A k \<noteq> []) \<and> R' (S_freelink i) = Some []" if "S k = Some i" for k i
      using D(5-8) [OF that] assms(5) by (simp add: K)
    show "vacant (S_procq i) R'" if "i \<in> set fs" for i
      using D(10) [OF that] assms(3) by (simp add: keeps_sems_def)
  qed (use D(2,3,9,11,12,13) assms in \<open>simp_all add: K\<close>)
  then show ?thesis by (auto simp: ash_def)
qed

text \<open>Allocating a process control block leaves the semaphores alone.\<close>

lemma free_not_blocked:
  assumes "ash s R A" "R PcbFree_h = Some (map P_list fs)" "p \<in> set fs"
  shows "p \<notin> set (A k)"
proof -
  obtain B S gs where rep: "ash_rep s R A B S gs {}" using assms(1) by (auto simp: ash_def)
  note D = ash_repD [OF rep]
  show ?thesis
  proof (cases "S k")
    case (Some i)
    have "in_ring R PcbFree_h (P_list p)" using assms(2,3) by (auto simp: in_ring_def)
    then have "\<not> in_ring R (S_procq i) (P_list p)"
      using in_ring_unique [OF rings_shape [OF D(1)]] by blast
    then show ?thesis using D(6) [OF Some] by (auto simp: in_ring_def)
  qed (use D(9) in simp)
qed

lemma allocPcb_ash:
  assumes A: "ash s R A" and R: "R PcbFree_h = Some (map P_list (p # ps))"
    and v: "vacant (P_child p) R" "vacant (P_sib p) R"
  shows "\<exists>h. allocPcb s = Some (Ref p, s\<lparr>lh := h, pcbs := (pcbs s)(p := zero_pcb)\<rparr>) \<and>
     ash (s\<lparr>lh := h, pcbs := (pcbs s)(p := zero_pcb)\<rparr>)
       (R(PcbFree_h \<mapsto> map P_list ps, P_list p \<mapsto> [], P_child p \<mapsto> [], P_sib p \<mapsto> [])) A"
proof -
  obtain h where h: "allocPcb s = Some (Ref p, s\<lparr>lh := h, pcbs := (pcbs s)(p := zero_pcb)\<rparr>)"
      "rings h (R(PcbFree_h \<mapsto> map P_list ps, P_list p \<mapsto> [], P_child p \<mapsto> [], P_sib p \<mapsto> []))" (is "rings h ?R'")
    using allocPcb_rings [OF ash_rings [OF A] R v] by blast
  have "ash (s\<lparr>lh := h, pcbs := (pcbs s)(p := zero_pcb)\<rparr>) ?R' A"
  proof (rule ash_transfer [OF A])
    show "keeps_sems R ?R'" unfolding keeps_sems_def
      using R by (auto simp: vacant_def not_in_nodes split: if_splits)
    show "p_semAdd (pcbs (s\<lparr>lh := h, pcbs := (pcbs s)(p := zero_pcb)\<rparr>) x) = p_semAdd (pcbs s x)"
      if "x \<in> set (A k)" for k x
      using free_not_blocked [OF A R, of x k] that by auto
  qed (use h(2) in simp_all)
  with h(1) show ?thesis by blast
qed

lemma ash_add_alone:
  assumes "ash s R A" "alone (lh s) (P_list p)"
  shows "ash s (R(P_list p \<mapsto> [])) A"
proof -
  obtain B S fs where rep: "ash_rep s R A B S fs {}" using assms(1) by (auto simp: ash_def)
  note D = ash_repD [OF rep]
  have "ash_rep s (R(P_list p \<mapsto> [])) A B S fs {}"
  proof (rule ash_repI)
    show "rings (lh s) (R(P_list p \<mapsto> []))" by (rule rings_add_alone [OF D(1) assms(2)])
    show "vacant (S_procq i) (R(P_list p \<mapsto> []))" if "i \<in> set fs" for i
      using D(10) [OF that] by (auto simp: vacant_def not_in_nodes)
    show "(i \<in> set (B b)) = (\<exists>k. S k = Some i \<and> b = bucket k)" for b i by (rule D(4))
  qed (use D in auto)
  then show ?thesis by (auto simp: ash_def)
qed

lemma alone_not_blocked:
  assumes "ash s R A" "alone (lh s) (P_list p)"
  shows "p \<notin> set (A k)"
proof -
  obtain B S fs where rep: "ash_rep s R A B S fs {}" using assms(1) by (auto simp: ash_def)
  note D = ash_repD [OF rep]
  show ?thesis
  proof (cases "S k")
    case (Some i)
    then show ?thesis using alone_not_entry [OF D(1) assms(2) D(6) [OF Some]] by auto
  qed (use D(9) in simp)
qed

lemma block_on_ash:
  assumes ash: "ash s R A" "\<And>j. set (A j) \<subseteq> {..<MAX_PROC}" and p: "blockable s p"
  shows "\<exists>s' R'. block_on k (Ref p) s = Some s' \<and> ash s' R' (A(k := A k @ [p])) \<and>
     same_elsewhere (R(P_list p := None)) R'"
proof -
  have a: "p < MAX_PROC" "alone (lh s) (P_list p)" using p by (auto simp: blockable_def)
  let ?R = "R(P_list p \<mapsto> [])"
  have r: "ash s ?R A" by (rule ash_add_alone [OF ash(1) a(2)])
  have u: "unlink (P_list p) ?R = R(P_list p := None)"
    using unlink_self [OF rings_shape [OF ash_rings [OF r]], of "P_list p"] by simp
  have out: "p \<notin> set (A j)" for j by (rule alone_not_blocked [OF ash(1) a(2)])
  have "card {j. A j \<noteq> []} < MAX_PROC" by (rule semd_suffice [OF ash a(1) out])
  then show ?thesis
    using insertBlocked_ash [OF r _ out, of k] unfolding u by (fastforce simp: loose_def block_on_def)
qed

interpretation sem_queue: fifo "blocked_on k" blockable "block_on k" "removeBlocked k" for k
proof
  fix s :: "'z kmem_scheme" assume "blocked_on k s []"
  then show "removeBlocked k s = Some (NULL, s)"
    using removeBlocked_none by (auto simp: blocked_on_def)
next
  fix s :: "'z kmem_scheme" and x xs assume "blocked_on k s (x # xs)"
  then obtain R A where A: "ash s R A" "A k = x # xs" "\<forall>j. set (A j) \<subseteq> {..<MAX_PROC}"
    unfolding blocked_on_def by blast
  from removeBlocked_ash [OF A(1,2)] obtain s' R' where
    s': "removeBlocked k s = Some (Ref x, s')" "ash s' R' (A(k := xs))" "same_elsewhere (R(P_list x \<mapsto> [])) R'"
    by blast
  have "blocked_on k s' xs"
    using s'(2) A(2,3) unfolding blocked_on_def
    by (intro exI [of _ R'] exI [of _ "A(k := xs)"]) (auto, metis insert_subset list.simps(15) lessThan_iff subsetD)
  moreover have "R' (P_list x) = Some []" using s'(3) by (simp add: same_elsewhere_def)
  then have "blockable s' x"
    using rings_alone [OF ash_rings [OF s'(2)]] A(2) A(3) [rule_format, of k] by (simp add: blockable_def)
  ultimately show "\<exists>s'. removeBlocked k s = Some (Ref x, s') \<and> blocked_on k s' xs \<and> blockable s' x"
    using s'(1) by blast
next
  fix s :: "'z kmem_scheme" and x xs assume q: "blocked_on k s xs" "blockable s x"
  then obtain R A where A: "ash s R A" "A k = xs" "\<And>j. set (A j) \<subseteq> {..<MAX_PROC}"
    unfolding blocked_on_def by blast
  from block_on_ash [OF A(1,3) q(2)] obtain s' R' where
    s': "block_on k (Ref x) s = Some s'" "ash s' R' (A(k := xs @ [x]))" using A(2) by blast
  have "blocked_on k s' (xs @ [x])"
    using s'(2) A(2) A(3) q(2) unfolding blocked_on_def blockable_def
    by (intro exI [of _ R'] exI [of _ "A(k := xs @ [x])"]) (auto dest: subsetD)
  with s'(1) show "\<exists>s'. block_on k (Ref x) s = Some s' \<and> blocked_on k s' (xs @ [x])" by blast
next
  fix s s' :: "'z kmem_scheme" and x y xs
  assume q: "blocked_on k s xs" "blockable s x" "blockable s y" "y \<noteq> x" "block_on k (Ref x) s = Some s'"
  then obtain R A where A: "ash s R A" "A k = xs" "\<And>j. set (A j) \<subseteq> {..<MAX_PROC}"
    unfolding blocked_on_def by blast
  have y: "y < MAX_PROC" "alone (lh s) (P_list y)" using q(3) by (auto simp: blockable_def)
  from block_on_ash [OF ash_add_alone [OF A(1) y(2)] A(3) q(2), of k] q(5) obtain R' where
    R': "ash s' R' (A(k := A k @ [x]))" "same_elsewhere (R(P_list y \<mapsto> [], P_list x := None)) R'" by auto
  then have "R' (P_list y) = Some []" using q(4) by (simp add: same_elsewhere_def)
  with rings_alone [OF ash_rings [OF R'(1)]] y(1) show "blockable s' y" by (simp add: blockable_def)
qed

end
