(* ===== verification/Namespace.thy ===== *)
theory Namespace
  imports Process
begin

text \<open>
  \<open>phase1/namespace.c\<close>: the namespaces of a process, their propagation to its
  descendants, and the pool of namespace descriptors of each type.  The recursion of
  \<open>addNamespace\<close> runs over the process tree; it has a fuel for its depth, and
  \<open>addNamespace_tree\<close> shows that the depth of the tree is enough.
\<close>

section \<open>The operations\<close>

definition set_n_type :: "nsd \<Rightarrow> nat \<Rightarrow> 'z kmem_scheme \<Rightarrow> 'z kmem_scheme option" where
  "set_n_type n i s = Some (s\<lparr>n_type := (n_type s)(n := i)\<rparr>)"

definition get_n_type :: "nsd ptr \<Rightarrow> 'z kmem_scheme \<Rightarrow> nat option" where
  "get_n_type ns s = do { n \<leftarrow> deref ns; Some (n_type s n) }"

definition initNamespaces :: "'z kmem_scheme \<Rightarrow> 'z kmem_scheme option" where
  "initNamespaces s = for_upto NS_TYPE_MAX (\<lambda>i s. do {
     s \<leftarrow> on_lh (INIT_LIST_HEAD (Ref (NsFree_h i))) s;
     s \<leftarrow> on_lh (INIT_LIST_HEAD (Ref (NsList_h i))) s;
     for_upto MAX_PROC (\<lambda>j s. do {
       s \<leftarrow> set_n_type (i, j) i s;
       on_lh (list_add (n_link (Ref (i, j))) (Ref (NsFree_h i))) s
     }) s
   }) s"

definition getNamespace :: "pcb ptr \<Rightarrow> int \<Rightarrow> 'z kmem_scheme \<Rightarrow> nsd ptr option" where
  "getNamespace p type' s =
     (if p \<noteq> NULL \<and> 0 \<le> type' \<and> type' < int NS_TYPE_MAX
      then do { c \<leftarrow> get_pcb p s; Some (namespaces c (nat type')) }
      else Some NULL)"

text \<open>A write to \<open>namespaces[type]\<close> outside the array is \<open>None\<close>.\<close>

primrec addNamespace :: "nat \<Rightarrow> pcb ptr \<Rightarrow> nsd ptr \<Rightarrow> 'z kmem_scheme \<Rightarrow> (bool \<times> 'z kmem_scheme) option" where
  "addNamespace 0 p ns s = None"
| "addNamespace (Suc n) p ns s = do {
     type' \<leftarrow> get_n_type ns s;
     s \<leftarrow> (if type' < NS_TYPE_MAX
            then upd_pcb (\<lambda>c. c\<lparr>namespaces := (namespaces c)(type' := ns)\<rparr>) p s else None);
     s \<leftarrow> list_for_each
       (\<lambda>pos s. do {
          pcb \<leftarrow> pcb_of_p_sib pos;
          (_, s) \<leftarrow> addNamespace n pcb ns s;
          Some (False, s)
        }) lh (p_child p) s;
     Some (True, s)
   }"

definition allocNamespace :: "int \<Rightarrow> 'z kmem_scheme \<Rightarrow> (nsd ptr \<times> 'z kmem_scheme) option" where
  "allocNamespace type' s =
     (if type' < 0 \<or> int NS_TYPE_MAX \<le> type' then Some (NULL, s)
      else do {
        e \<leftarrow> list_empty (Ref (NsFree_h (nat type'))) (lh s);
        if e then Some (NULL, s)
        else do {
          next \<leftarrow> get_next (Ref (NsFree_h (nat type'))) (lh s);
          s \<leftarrow> on_lh (list_del next) s;
          s \<leftarrow> on_lh (list_add next (Ref (NsList_h (nat type')))) s;
          n \<leftarrow> nsd_of_n_link next;
          Some (n, s)
        }
      })"

definition freeNamespace :: "nsd ptr \<Rightarrow> 'z kmem_scheme \<Rightarrow> 'z kmem_scheme option" where
  "freeNamespace ns s = do {
     s \<leftarrow> on_lh (list_del (n_link ns)) s;
     t \<leftarrow> get_n_type ns s;
     on_lh (list_add (n_link ns) (Ref (NsFree_h t))) s
   }"

lemma n_type_simps [simp]: "set_n_type n i s = Some (s\<lparr>n_type := (n_type s)(n := i)\<rparr>)"
  "get_n_type (Ref n) s = Some (n_type s n)"
  by (auto simp: set_n_type_def get_n_type_def)

section \<open>The process tree\<close>

text \<open>A tree of processes and its realisation by the rings of \<open>p_child\<close>.\<close>

datatype ptree = PNode pcb "ptree list"

fun proot :: "ptree \<Rightarrow> pcb" where "proot (PNode p ts) = p"

fun members :: "ptree \<Rightarrow> pcb list" where
  "members (PNode p ts) = p # concat (map members ts)"

fun height :: "ptree \<Rightarrow> nat" where
  "height (PNode p ts) = Suc (fold max (map height ts) 0)"

fun tree_at :: "lnode rmap \<Rightarrow> ptree \<Rightarrow> bool" where
  "tree_at R (PNode p ts) \<longleftrightarrow>
     R (P_child p) = Some (map (\<lambda>t. P_sib (proot t)) ts) \<and> (\<forall>t \<in> set ts. tree_at R t)"

lemma fold_max_le_iff: "fold max xs (m::nat) \<le> n \<longleftrightarrow> m \<le> n \<and> (\<forall>x \<in> set xs. x \<le> n)"
  by (induction xs arbitrary: m) auto

lemma height_members: "height t \<le> length (members t)"
proof (induction t)
  case (PNode p ts)
  have "height t \<le> length (concat (map members ts))" if t: "t \<in> set ts" for t
  proof -
    have "height t \<le> length (members t)" using PNode [OF t] .
    also have "\<dots> \<le> sum_list (map (length \<circ> members) ts)"
      using t by (intro member_le_sum_list) auto
    finally show ?thesis by (simp add: length_concat)
  qed
  then show ?case by (simp add: fold_max_le_iff)
qed

text \<open>A tree of distinct processes is never deeper than the process table is long.\<close>

lemma height_MAX_PROC:
  assumes "distinct (members t)" "set (members t) \<subseteq> {..<MAX_PROC}"
  shows "height t \<le> MAX_PROC"
proof -
  have "length (members t) = card (set (members t))" using assms(1) by (simp add: distinct_card)
  also have "\<dots> \<le> MAX_PROC" using card_mono [OF _ assms(2)] by simp
  finally show ?thesis using height_members [of t] by linarith
qed

text \<open>What \<open>addNamespace\<close> does to the processes of a set.\<close>

definition in_namespace :: "nsd \<Rightarrow> nat \<Rightarrow> pcb set \<Rightarrow> (pcb \<Rightarrow> pcb_t) \<Rightarrow> pcb \<Rightarrow> pcb_t" where
  "in_namespace n k P f = (\<lambda>p. if p \<in> P
     then (f p)\<lparr>namespaces := (namespaces (f p))(k := Ref n)\<rparr> else f p)"

lemma in_namespace_union: "in_namespace n k P (in_namespace n k Q f) = in_namespace n k (P \<union> Q) f"
  by (auto simp: in_namespace_def fun_eq_iff)

lemma addNamespace_loop:
  assumes "\<And>t f. t \<in> set ts \<Longrightarrow> body (Ref (P_sib (proot t))) (s\<lparr>pcbs := f\<rparr>) =
             Some (False, s\<lparr>pcbs := in_namespace n k (set (members t)) f\<rparr>)"
  shows "for_entries body (map (\<lambda>t. P_sib (proot t)) ts) (s\<lparr>pcbs := f\<rparr>) =
           Some (s\<lparr>pcbs := in_namespace n k (set (concat (map members ts))) f\<rparr>)"
  using assms
proof (induction ts arbitrary: f)
  case Nil
  then show ?case by (simp add: in_namespace_def)
next
  case (Cons t ts)
  then show ?case by (simp add: in_namespace_union Un_commute)
qed

lemma addNamespace_tree:
  assumes "rings (lh s) R" "tree_at R t" "height t \<le> m" "n_type s n < NS_TYPE_MAX"
  shows "addNamespace m (Ref (proot t)) (Ref n) s =
           Some (True, s\<lparr>pcbs := in_namespace n (n_type s n) (set (members t)) (pcbs s)\<rparr>)"
  using assms
proof (induction t arbitrary: m s)
  case (PNode p ts)
  let ?k = "n_type s n"
  obtain m' where m: "m = Suc m'" "\<And>t. t \<in> set ts \<Longrightarrow> height t \<le> m'"
    using PNode.prems(3) by (cases m) (auto simp: fold_max_le_iff)
  have R: "R (P_child p) = Some (map (\<lambda>t. P_sib (proot t)) ts)" using PNode.prems(2) by simp
  let ?body = "\<lambda>pos s. do {
          pcb \<leftarrow> pcb_of_p_sib pos;
          (_, s) \<leftarrow> addNamespace m' pcb (Ref n) s;
          Some (False, s)
        }"
  have body: "?body (Ref (P_sib (proot t))) (s\<lparr>pcbs := f\<rparr>) =
      Some (False, s\<lparr>pcbs := in_namespace n ?k (set (members t)) f\<rparr>)" if t: "t \<in> set ts" for t f
    using PNode.IH [OF t, of "s\<lparr>pcbs := f\<rparr>" m'] PNode.prems(1,2,4) m(2) [OF t] t by simp
  let ?f = "in_namespace n ?k {p} (pcbs s)"
  have "list_for_each ?body lh (Ref (P_child p)) (s\<lparr>pcbs := ?f\<rparr>) =
      for_entries ?body (map (\<lambda>t. P_sib (proot t)) ts) (s\<lparr>pcbs := ?f\<rparr>)"
  proof (rule list_for_each_invariant [OF PNode.prems(1) R, where I = "\<lambda>u. \<exists>f. u = s\<lparr>pcbs := f\<rparr>"])
    show "\<exists>f. u' = s\<lparr>pcbs := f\<rparr>" if y: "y \<in> set (map (\<lambda>t. P_sib (proot t)) ts)"
      and u: "\<exists>f. u = s\<lparr>pcbs := f\<rparr>" "?body (Ref y) u = Some (b, u')" for y u b u'
    proof -
      obtain t f where "y = P_sib (proot t)" "t \<in> set ts" "u = s\<lparr>pcbs := f\<rparr>" using y u(1) by auto
      with body [of t f] u(2) show ?thesis by (metis option.inject prod.inject)
    qed
  qed auto
  then have loop: "list_for_each ?body lh (Ref (P_child p)) (s\<lparr>pcbs := ?f\<rparr>) =
      Some (s\<lparr>pcbs := in_namespace n ?k (set (concat (map members ts)) \<union> {p}) (pcbs s)\<rparr>)"
    using addNamespace_loop [of ts ?body s n ?k ?f, OF body] by (simp add: in_namespace_union)
  moreover have "(pcbs s)(p := (pcbs s p)\<lparr>namespaces := (namespaces (pcbs s p))(?k := Ref n)\<rparr>) = ?f"
    by (auto simp: in_namespace_def)
  ultimately show ?case
    using PNode.prems(4) by (simp add: m(1) Un_commute)
qed

section \<open>The pool of descriptors\<close>

lemma allocNamespace_rings:
  assumes R: "rings (lh s) R" "R (NsFree_h t) = Some (map N_link (n # ns))" "R (NsList_h t) = Some ys"
    and t: "t < NS_TYPE_MAX"
  shows "\<exists>h. allocNamespace (int t) s = Some (Ref n, s\<lparr>lh := h\<rparr>) \<and>
           rings h (R(NsFree_h t \<mapsto> map N_link ns, NsList_h t \<mapsto> N_link n # ys))"
proof -
  have l: "loose (N_link n) R" using R(2) unfolding loose_def by fastforce
  have U: "unlink (N_link n) R = R(NsFree_h t \<mapsto> map N_link ns)"
    using unlink_member [OF rings_shape [OF R(1)], of "NsFree_h t" "[]"] R(2) by simp
  obtain h1 where h1: "list_del (Ref (N_link n)) (lh s) = Some h1" "rings h1 (R(NsFree_h t \<mapsto> map N_link ns))"
    using list_del_rings [OF R(1) l] U by auto
  from list_add_rings [OF h1(2), of "NsList_h t" ys "N_link n"] obtain h where
    h: "list_add (Ref (N_link n)) (Ref (NsList_h t)) h1 = Some h"
      "rings h (R(NsFree_h t \<mapsto> map N_link ns, NsList_h t \<mapsto> N_link n # ys))"
    using R(3) not_in_nodes_unlink [OF rings_shape [OF R(1)] l] U by auto
  with h1(1) t show ?thesis
    using list_empty_rings [OF R(1,2)] get_next_head_rings [OF R(1), of "NsFree_h t" "N_link n"] R(2)
    by (intro exI [of _ h]) (simp add: allocNamespace_def)
qed

lemma allocNamespace_exhausted:
  assumes "rings (lh s) R" "R (NsFree_h t) = Some []"
  shows "allocNamespace (int t) s = Some (NULL, s)"
  using list_empty_rings [OF assms] by (simp add: allocNamespace_def)

lemma allocNamespace_bad_type:
  "type' < 0 \<or> int NS_TYPE_MAX \<le> type' \<Longrightarrow> allocNamespace type' s = Some (NULL, s)"
  by (simp add: allocNamespace_def)

lemma freeNamespace_rings:
  assumes R: "rings (lh s) R" "R (NsFree_h (n_type s n)) = Some xs" "N_link n \<notin> set xs"
    and l: "loose (N_link n) R"
  shows "\<exists>h. freeNamespace (Ref n) s = Some (s\<lparr>lh := h\<rparr>) \<and>
           rings h ((unlink (N_link n) R)(NsFree_h (n_type s n) \<mapsto> N_link n # xs))"
proof -
  obtain h1 where h1: "list_del (Ref (N_link n)) (lh s) = Some h1" "rings h1 (unlink (N_link n) R)"
    using list_del_rings [OF R(1) l] by blast
  have "unlink (N_link n) R (NsFree_h (n_type s n)) = Some xs"
    using R(2,3) by (simp add: unlink_def removeAll_id)
  from list_add_rings [OF h1(2) this not_in_nodes_unlink [OF rings_shape [OF R(1)] l]]
  show ?thesis using h1(1) by (auto simp: freeNamespace_def)
qed

definition nsd_pool :: "nat \<Rightarrow> 'z kmem_scheme \<Rightarrow> nsd list \<Rightarrow> nsd set \<Rightarrow> bool" where
  "nsd_pool t s ns U \<longleftrightarrow> t < NS_TYPE_MAX \<and> (\<exists>R us. rings (lh s) R \<and>
     R (NsFree_h t) = Some (map N_link ns) \<and> R (NsList_h t) = Some (map N_link us) \<and> set us = U \<and>
     (\<forall>n \<in> set ns \<union> U. n_type s n = t))"

lemma two_rings_disjoint:
  assumes "rings h R" "R a = Some xs" "R b = Some ys" "a \<noteq> b"
  shows "set xs \<inter> set ys = {}"
  using assms in_ring_unique [OF rings_shape [OF assms(1)], of a _ b] by (auto simp: in_ring_def)

lemma nsd_pool_alloc:
  assumes "nsd_pool t s (n # ns) U"
  shows "\<exists>s'. allocNamespace (int t) s = Some (Ref n, s') \<and> nsd_pool t s' ns (insert n U)"
proof -
  obtain R us where R: "t < NS_TYPE_MAX" "rings (lh s) R" "R (NsFree_h t) = Some (map N_link (n # ns))"
      "R (NsList_h t) = Some (map N_link us)" "set us = U" "\<forall>x \<in> set (n # ns) \<union> U. n_type s x = t"
    using assms unfolding nsd_pool_def by blast
  obtain h where h: "allocNamespace (int t) s = Some (Ref n, s\<lparr>lh := h\<rparr>)"
      "rings h (R(NsFree_h t \<mapsto> map N_link ns, NsList_h t \<mapsto> map N_link (n # us)))"
    using allocNamespace_rings [OF R(2-4,1)] by auto
  then have "nsd_pool t (s\<lparr>lh := h\<rparr>) ns (insert n U)"
    using R(1,5,6) unfolding nsd_pool_def
    by (intro conjI exI [of _ "R(NsFree_h t \<mapsto> map N_link ns, NsList_h t \<mapsto> map N_link (n # us))"]
        exI [of _ "n # us"]) auto
  with h(1) show ?thesis by blast
qed

lemma nsd_pool_free:
  assumes "nsd_pool t s ns U" "n \<in> U"
  shows "\<exists>s'. freeNamespace (Ref n) s = Some s' \<and> nsd_pool t s' (n # ns) (U - {n})"
proof -
  obtain R us where R: "t < NS_TYPE_MAX" "rings (lh s) R" "R (NsFree_h t) = Some (map N_link ns)"
      "R (NsList_h t) = Some (map N_link us)" "set us = U" "\<forall>x \<in> set ns \<union> U. n_type s x = t"
    using assms(1) unfolding nsd_pool_def by blast
  have n: "N_link n \<in> set (map N_link us)" "n_type s n = t" using assms(2) R(5,6) by auto
  have "N_link n \<notin> set (map N_link ns)"
    using two_rings_disjoint [OF R(2-4)] n(1) by blast
  moreover have "loose (N_link n) R" using R(4) n(1) unfolding loose_def by blast
  ultimately obtain h where h: "freeNamespace (Ref n) s = Some (s\<lparr>lh := h\<rparr>)"
      "rings h ((unlink (N_link n) R)(NsFree_h t \<mapsto> map N_link (n # ns)))" (is "rings h ?R'")
    using freeNamespace_rings [OF R(2), of n] R(3) n(2) by auto
  have "removeAll (N_link n) (map N_link us) = map N_link (removeAll n us)" by (induction us) auto
  then have "?R' (NsList_h t) = Some (map N_link (removeAll n us))"
    using R(4) by (simp add: unlink_def)
  then have "nsd_pool t (s\<lparr>lh := h\<rparr>) (n # ns) (U - {n})"
    using h(2) R(1,5,6) n(2) unfolding nsd_pool_def
    by (intro conjI exI [of _ ?R'] exI [of _ "removeAll n us"]) auto
  with h(1) show ?thesis by blast
qed

interpretation nsds_pool: allocator "nsd_pool t" "allocNamespace (int t)" freeNamespace for t
proof
  fix s :: "'z kmem_scheme" and xs U
  assume "nsd_pool t s xs U"
  then obtain R us where R: "rings (lh s) R" "R (NsFree_h t) = Some (map N_link xs)"
      "R (NsList_h t) = Some (map N_link us)" "set us = U"
    unfolding nsd_pool_def by blast
  have "set (map N_link xs) \<inter> set (map N_link us) = {}" using two_rings_disjoint [OF R(1-3)] by simp
  then show "distinct xs \<and> set xs \<inter> U = {}"
    using ringsD(2) [OF R(1,2)] R(4) by (auto simp: distinct_map)
next
  show "allocNamespace (int t) s = Some (NULL, s)" if "nsd_pool t s [] U" for s :: "'z kmem_scheme" and U
    using that allocNamespace_exhausted unfolding nsd_pool_def by auto
qed (rule nsd_pool_alloc nsd_pool_free; assumption)+

text \<open>The start of the kernel: all the descriptors of a type are free.\<close>

lemma fill_namespaces:
  assumes R: "rings (lh s) R" "R (NsFree_h i) = Some []" "\<And>j. N_link (i, j) \<notin> nodes R"
  shows "\<exists>h f. for_upto m (\<lambda>j s. do {
       s \<leftarrow> set_n_type (i, j) i s;
       on_lh (list_add (n_link (Ref (i, j))) (Ref (NsFree_h i))) s
     }) s = Some (s\<lparr>lh := h, n_type := f\<rparr>) \<and>
     rings h (R(NsFree_h i \<mapsto> map N_link (map (Pair i) (rev [0..<m])))) \<and> (\<forall>j < m. f (i, j) = i)"
    (is "\<exists>h f. for_upto m ?body s = _ \<and> _")
proof -
  let ?R = "\<lambda>j. R(NsFree_h i \<mapsto> map N_link (map (Pair i) (rev [0..<j])))"
  let ?P = "\<lambda>j t. \<exists>h f. t = s\<lparr>lh := h, n_type := f\<rparr> \<and> rings h (?R j) \<and> (\<forall>l < j. f (i, l) = i)"
  have "\<exists>t. for_upto m ?body s = Some t \<and> ?P m t"
  proof (rule for_upto_invariant)
    have "?R 0 = R" using R(2) by auto
    with R(1) show "?P 0 s" by (intro exI [of _ "lh s"] exI [of _ "n_type s"]) simp
  next
    fix j t assume "?P j t"
    then obtain h f where h: "t = s\<lparr>lh := h, n_type := f\<rparr>" "rings h (?R j)" "\<forall>l < j. f (i, l) = i" by blast
    have "N_link (i, j) \<notin> nodes (?R j)"
      using R(2) R(3) [of j] by (auto simp: not_in_nodes split: if_splits)
    from list_add_rings [OF h(2) _ this, of "NsFree_h i"] obtain h' where
      "list_add (Ref (N_link (i, j))) (Ref (NsFree_h i)) h = Some h'" "rings h' (?R (Suc j))" by auto
    then show "\<exists>t'. ?body j t = Some t' \<and> ?P (Suc j) t'"
      using h(1,3)
      by (intro exI [of _ "s\<lparr>lh := h', n_type := f((i, j) := i)\<rparr>"])
        (auto simp: on_lh_def less_Suc_eq intro!: exI [of _ h'] exI [of _ "f((i, j) := i)"])
  qed
  then show ?thesis by blast
qed

lemma initNamespaces_pool:
  assumes R: "rings (lh s) R" "\<And>i j. NsFree_h i \<notin> nodes R \<and> NsList_h i \<notin> nodes R \<and> N_link (i, j) \<notin> nodes R"
  shows "\<exists>h f R'. initNamespaces s = Some (s\<lparr>lh := h, n_type := f\<rparr>) \<and> rings h R' \<and>
     R' = R(NsList_h NS_PID \<mapsto> [], NsFree_h NS_PID \<mapsto> map N_link (map (Pair NS_PID) (rev [0..<MAX_PROC]))) \<and>
     (\<forall>j < MAX_PROC. f (NS_PID, j) = NS_PID)"
proof -
  obtain h1 where h1: "INIT_LIST_HEAD (Ref (NsFree_h 0)) (lh s) = Some h1" "rings h1 (R(NsFree_h 0 \<mapsto> []))"
    using INIT_LIST_HEAD_rings [OF R(1), of "NsFree_h 0"] R(2) by blast
  have "NsList_h 0 \<notin> nodes (R(NsFree_h 0 \<mapsto> []))" using R(2) by (auto simp: not_in_nodes)
  then obtain h2 where h2: "INIT_LIST_HEAD (Ref (NsList_h 0)) h1 = Some h2"
      "rings h2 (R(NsFree_h 0 \<mapsto> [], NsList_h 0 \<mapsto> []))" (is "rings h2 ?R2")
    using INIT_LIST_HEAD_rings [OF h1(2), of "NsList_h 0"] by blast
  have "?R2 (NsFree_h 0) = Some []" "\<And>j. N_link (0, j) \<notin> nodes ?R2"
    using R(2) by (auto simp: not_in_nodes)
  from fill_namespaces [of "s\<lparr>lh := h2\<rparr>", OF _ this, of MAX_PROC] h2(2) obtain h f where
    h: "for_upto MAX_PROC (\<lambda>j s. do {
         s \<leftarrow> set_n_type (0, j) 0 s;
         on_lh (list_add (n_link (Ref (0, j))) (Ref (NsFree_h 0))) s
       }) (s\<lparr>lh := h2\<rparr>) = Some (s\<lparr>lh := h, n_type := f\<rparr>)"
      "rings h (?R2(NsFree_h 0 \<mapsto> map N_link (map (Pair 0) (rev [0..<MAX_PROC]))))"
      "\<forall>j < MAX_PROC. f (0, j) = 0"
    by auto
  have "initNamespaces s = Some (s\<lparr>lh := h, n_type := f\<rparr>)"
    using h1(1) h2(1) h(1)
    by (simp add: initNamespaces_def on_lh_def NS_TYPE_MAX_def NS_TYPE_LAST_def NS_PID_def)
  moreover have "?R2(NsFree_h 0 \<mapsto> map N_link (map (Pair 0) (rev [0..<MAX_PROC]))) =
      R(NsList_h 0 \<mapsto> [], NsFree_h 0 \<mapsto> map N_link (map (Pair 0) (rev [0..<MAX_PROC])))" by auto
  ultimately show ?thesis using h(2,3) unfolding NS_PID_def by metis
qed

end
