(* ===== verification/Kernel.thy ===== *)
theory Kernel
  imports Semaphore Namespace
begin

text \<open>
  The state of phase 2 (the globals of \<open>phase2/nucleus.c\<close>, the registers and the memory
  that the nucleus reads and writes), the machine parameters, and what a function of the
  nucleus does: it returns, it leaves the kernel, or it is undefined.

  \<open>machine\<close> holds what the repository does not define: the constants of the uMPS3 headers
  and the addresses that the linker chooses.  Every definition that depends on them takes
  the machine as an argument.
\<close>

section \<open>Constants of lib/pandos_const.h\<close>

definition WORDLEN :: u32 where "WORDLEN = 4"
definition PSECOND :: u32 where "PSECOND = 100000"
definition TIMESLICE :: u32 where "TIMESLICE = 5000"
definition KERNELSTACK :: u32 where "KERNELSTACK = 0x20001000"
definition RAMBASEADDR :: u32 where "RAMBASEADDR = 0x10000000"
definition RAMBASESIZE :: u32 where "RAMBASESIZE = 0x10000004"
definition RAMSTART :: u32 where "RAMSTART = 0x20000000"
definition PGFAULTEXCEPT :: nat where "PGFAULTEXCEPT = 0"
definition GENERALEXCEPT :: nat where "GENERALEXCEPT = 1"
definition DEVICE_NUMBER :: nat where "DEVICE_NUMBER = 48"
definition PID_NS :: int where "PID_NS = 0"

section \<open>The state\<close>

record context_t =
  stackPtr :: u32
  ctx_status :: u32
  ctx_pc :: u32

record support_t =
  sup_asid :: u32
  sup_exceptState :: "nat \<Rightarrow> state_t"
  sup_exceptContext :: "nat \<Rightarrow> context_t"

record sysiostate =
  sem_mut :: u32
  sem_sync :: u32
  waiting_process :: "pcb ptr"

record passupvector_t =
  tlb_refill_handler :: u32
  tlb_refill_stackPtr :: u32
  exception_handler :: u32
  exception_stackPtr :: u32

text \<open>
  \<open>g_old_state\<close> is the processor state at \<open>BIOS_DATA_PAGE_BASE\<close>, to which the pointer of
  that name points.  \<open>mem\<close> holds the words of memory and the device registers,
  \<open>user_states\<close> and \<open>supports\<close> the processor states and support structures that the
  processes keep in memory, by address.  The n-th reading of the clock is
  \<open>tod_clock n\<close>; \<open>tod_reads\<close> counts the readings.
\<close>

record kernel = kmem +
  g_process_count :: u32
  g_soft_block_count :: u32
  g_current_process :: "pcb ptr"
  g_sysiostates :: "nat \<Rightarrow> sysiostate"
  g_pseudo_clock :: u32
  g_tod :: u32
  g_old_state :: state_t
  scheduler_old_status :: u32
  mem :: "u32 \<Rightarrow> u32"
  user_states :: "u32 \<Rightarrow> state_t"
  supports :: "u32 \<Rightarrow> support_t"
  passupvector :: passupvector_t
  cpu_status :: u32
  cpu_timer :: u32
  interval_timer :: u32
  tod_clock :: "nat \<Rightarrow> u32"
  tod_reads :: nat

section \<open>The machine\<close>

record machine =
  EXC_INT :: u32
  EXC_MOD :: u32
  EXC_TLBL :: u32
  EXC_TLBS :: u32
  EXC_ADEL :: u32
  EXC_ADES :: u32
  EXC_IBE :: u32
  EXC_DBE :: u32
  EXC_SYS :: u32
  EXC_BP :: u32
  EXC_RI :: u32
  EXC_CPU :: u32
  EXC_OV :: u32
  CAUSE_GET_EXCCODE :: "u32 \<Rightarrow> u32"
  STATUS_IEc :: u32
  STATUS_IEp :: u32
  STATUS_TE :: u32
  STATUS_IM_MASK :: u32
  DEVREGSIZE :: u32
  READY :: u32
  ACK :: u32
  sysiostates_addr :: u32
  pseudo_clock_addr :: u32
  pcb_table_addr :: u32
  pcb_size :: u32
  nsd_table_addr :: u32
  nsd_size :: u32
  test_addr :: u32
  uTLB_RefillHandler_addr :: u32
  exceptionHandler_addr :: u32

section \<open>What a function of the nucleus does\<close>

text \<open>
  \<open>LDST\<close>, \<open>LDCXT\<close>, \<open>HALT\<close> and \<open>PANIC\<close> do not return; \<open>WAIT\<close> gives the processor to the
  interrupts; \<open>SPIN\<close> is a loop that no step leaves.  An undefined run (a NULL or
  misaligned pointer, an array index out of range) is \<open>None\<close>.
\<close>

datatype event = LDST state_t | LDCXT u32 u32 u32 | HALT | PANIC | WAIT | SPIN

datatype 'a outcome = Exits event kernel | Returns 'a kernel

fun returning :: "'a outcome \<Rightarrow> ('a \<Rightarrow> kernel \<Rightarrow> 'b outcome option) \<Rightarrow> 'b outcome option" where
  "returning (Exits e s) f = Some (Exits e s)"
| "returning (Returns x s) f = f x s"

section \<open>Memory\<close>

text \<open>\<open>sizeof(sysiostate_t)\<close>: two integers and a pointer.\<close>

definition SIZEOF_SYSIOSTATE :: u32 where "SIZEOF_SYSIOSTATE = 12"

definition sysiostates_end :: "machine \<Rightarrow> u32" where
  "sysiostates_end M = sysiostates_addr M + SIZEOF_SYSIOSTATE * of_nat DEVICE_NUMBER"

definition in_sysiostates :: "machine \<Rightarrow> u32 \<Rightarrow> bool" where
  "in_sysiostates M a \<longleftrightarrow> sysiostates_addr M \<le> a \<and> a < sysiostates_end M"

text \<open>Addresses of the two semaphores of a device.\<close>

definition sem_mut_addr :: "machine \<Rightarrow> nat \<Rightarrow> u32" where
  "sem_mut_addr M d = sysiostates_addr M + SIZEOF_SYSIOSTATE * of_nat d"

definition sem_sync_addr :: "machine \<Rightarrow> nat \<Rightarrow> u32" where
  "sem_sync_addr M d = sem_mut_addr M d + 4"

text \<open>Pointers to descriptors as words; a word that is no descriptor's address is wild.\<close>

definition pcb_addr :: "machine \<Rightarrow> pcb ptr \<Rightarrow> u32" where
  "pcb_addr M p = (case p of NULL \<Rightarrow> 0 | Ref i \<Rightarrow> pcb_table_addr M + pcb_size M * of_nat i)"

definition pcb_at :: "machine \<Rightarrow> u32 \<Rightarrow> pcb ptr option" where
  "pcb_at M a =
     (if a = 0 then Some NULL
      else map_option Ref (List.find (\<lambda>i. pcb_addr M (Ref i) = a) [0..<MAX_PROC]))"

definition nsd_addr :: "machine \<Rightarrow> nsd ptr \<Rightarrow> u32" where
  "nsd_addr M n = (case n of NULL \<Rightarrow> 0
     | Ref (t, j) \<Rightarrow> nsd_table_addr M + nsd_size M * of_nat (t * MAX_PROC + j))"

definition nsd_at :: "machine \<Rightarrow> u32 \<Rightarrow> nsd ptr option" where
  "nsd_at M a =
     (if a = 0 then Some NULL
      else map_option Ref (List.find (\<lambda>n. nsd_addr M (Ref n) = a)
        (List.product [0..<NS_TYPE_MAX] [0..<MAX_PROC])))"

definition word_pointer :: "u32 \<Rightarrow> bool" where
  "word_pointer a \<longleftrightarrow> a \<noteq> 0 \<and> unat a mod 4 = 0"

definition load_int :: "machine \<Rightarrow> u32 \<Rightarrow> kernel \<Rightarrow> u32 option" where
  "load_int M a s =
     (if \<not> word_pointer a then None
      else if in_sysiostates M a then
        (let d = unat ((a - sysiostates_addr M) div SIZEOF_SYSIOSTATE);
             o' = (a - sysiostates_addr M) mod SIZEOF_SYSIOSTATE
         in if o' = 0 then Some (sem_mut (g_sysiostates s d))
            else if o' = 4 then Some (sem_sync (g_sysiostates s d))
            else if o' = 8 then Some (pcb_addr M (waiting_process (g_sysiostates s d)))
            else None)
      else if a = pseudo_clock_addr M then Some (g_pseudo_clock s)
      else Some (mem s a))"

definition upd_sysio :: "int \<Rightarrow> (sysiostate \<Rightarrow> sysiostate) \<Rightarrow> kernel \<Rightarrow> kernel option" where
  "upd_sysio d f s =
     (if 0 \<le> d \<and> d < int DEVICE_NUMBER
      then Some (s\<lparr>g_sysiostates := (g_sysiostates s)(nat d := f (g_sysiostates s (nat d)))\<rparr>)
      else None)"

definition get_sysio :: "int \<Rightarrow> kernel \<Rightarrow> sysiostate option" where
  "get_sysio d s = (if 0 \<le> d \<and> d < int DEVICE_NUMBER then Some (g_sysiostates s (nat d)) else None)"

text \<open>The pointer field of a \<open>sysiostate_t\<close> is never written through an integer pointer.\<close>

definition store_int :: "machine \<Rightarrow> u32 \<Rightarrow> u32 \<Rightarrow> kernel \<Rightarrow> kernel option" where
  "store_int M a v s =
     (if \<not> word_pointer a then None
      else if in_sysiostates M a then
        (let d = unat ((a - sysiostates_addr M) div SIZEOF_SYSIOSTATE);
             o' = (a - sysiostates_addr M) mod SIZEOF_SYSIOSTATE
         in if o' = 0 then upd_sysio (int d) (sem_mut_update (\<lambda>_. v)) s
            else if o' = 4 then upd_sysio (int d) (sem_sync_update (\<lambda>_. v)) s
            else None)
      else if a = pseudo_clock_addr M then Some (s\<lparr>g_pseudo_clock := v\<rparr>)
      else Some (s\<lparr>mem := (mem s)(a := v)\<rparr>))"

text \<open>A processor state read through a pointer of a process.\<close>

definition load_state :: "u32 \<Rightarrow> kernel \<Rightarrow> state_t option" where
  "load_state a s = (if word_pointer a then Some (user_states s a) else None)"

section \<open>The clock\<close>

definition STCK :: "kernel \<Rightarrow> u32 \<times> kernel" where
  "STCK s = (tod_clock s (tod_reads s), s\<lparr>tod_reads := Suc (tod_reads s)\<rparr>)"

definition getPassedTime :: "kernel \<Rightarrow> u32 \<times> kernel" where
  "getPassedTime s = (let (tod, s) = STCK s in (tod - g_tod s, s))"

definition updateProcessTime :: "kernel \<Rightarrow> kernel option" where
  "updateProcessTime s = do {
     s \<leftarrow> (if g_current_process s \<noteq> NULL
            then let (t, s) = getPassedTime s
                 in upd_pcb (\<lambda>c. c\<lparr>p_time := p_time c + t\<rparr>) (g_current_process s) s
            else Some s);
     let (tod, s) = STCK s;
     Some (s\<lparr>g_tod := tod\<rparr>)
   }"

lemma updateProcessTime_charges:
  "g_current_process s = Ref p \<Longrightarrow> updateProcessTime s = Some (s\<lparr>pcbs := (pcbs s)(p := (pcbs s p)\<lparr>p_time :=
     p_time (pcbs s p) + (tod_clock s (tod_reads s) - g_tod s)\<rparr>), g_tod := tod_clock s (Suc (tod_reads s)),
     tod_reads := Suc (Suc (tod_reads s))\<rparr>)"
  by (simp add: updateProcessTime_def STCK_def getPassedTime_def Let_def)

text \<open>No process is charged, on the same clock.\<close>

definition same_times :: "kernel \<Rightarrow> kernel \<Rightarrow> bool" where
  "same_times s s' \<longleftrightarrow> (\<forall>p. p_time (pcbs s' p) = p_time (pcbs s p)) \<and> tod_clock s' = tod_clock s"

lemma same_times_refl: "same_times s s"
  by (simp add: same_times_def)

lemma same_times_trans: "same_times s s' \<Longrightarrow> same_times s' s'' \<Longrightarrow> same_times s s''"
  by (simp add: same_times_def)

text \<open>\<open>memcpy(&g_current_process->p_s, g_old_state, sizeof(state_t))\<close>.\<close>

definition save_current :: "kernel \<Rightarrow> kernel option" where
  "save_current s = upd_pcb (p_s_update (\<lambda>_. g_old_state s)) (g_current_process s) s"

section \<open>Semaphore addresses\<close>

text \<open>
  What the layout must satisfy: the array \<open>g_sysiostates\<close> is a word-aligned part of the
  RAM, \<open>g_pseudo_clock\<close> is another word of it, the tables of descriptors fit in the address
  space, and a device has four registers (\<open>DEVREGSIZE\<close> is 16).
\<close>

definition table_ok :: "u32 \<Rightarrow> u32 \<Rightarrow> nat \<Rightarrow> bool" where
  "table_ok base size' n \<longleftrightarrow> base \<noteq> 0 \<and> size' \<noteq> 0 \<and> unat base + unat size' * n < 2 ^ 32"

definition machine_ok :: "machine \<Rightarrow> bool" where
  "machine_ok M \<longleftrightarrow>
     unat (sysiostates_addr M) mod 4 = 0 \<and> sysiostates_addr M \<noteq> 0 \<and>
     unat (sysiostates_addr M) + 12 * DEVICE_NUMBER < 2 ^ 32 \<and>
     word_pointer (pseudo_clock_addr M) \<and> \<not> in_sysiostates M (pseudo_clock_addr M) \<and>
     RAMSTART \<le> sysiostates_addr M \<and> RAMSTART \<le> pseudo_clock_addr M \<and> DEVREGSIZE M = 16 \<and>
     table_ok (pcb_table_addr M) (pcb_size M) MAX_PROC \<and>
     table_ok (nsd_table_addr M) (nsd_size M) (NS_TYPE_MAX * MAX_PROC)"

lemma unat_of_nat_small: "n < 2 ^ 32 \<Longrightarrow> unat (of_nat n :: u32) = n"
  by (simp add: unat_of_nat)

lemma table_entry:
  assumes "table_ok base size' n" "i < n" "j < n"
  shows "base + size' * of_nat i \<noteq> 0" "base + size' * of_nat i = base + size' * of_nat j \<longleftrightarrow> i = j"
proof -
  have u: "unat (base + size' * of_nat k) = unat base + unat size' * k" if "k < n" for k
  proof -
    have "base + size' * of_nat k = of_nat (unat base + unat size' * k)" by simp
    moreover have "unat base + unat size' * k < 2 ^ 32"
    proof -
      have "unat size' * k \<le> unat size' * n" using that by (simp add: mult_le_mono2)
      with assms(1) show ?thesis unfolding table_ok_def by linarith
    qed
    ultimately show ?thesis using unat_of_nat_small by metis
  qed
  have z: "unat base \<noteq> 0" "unat size' \<noteq> 0" using assms(1) by (simp_all add: table_ok_def unat_eq_0)
  show "base + size' * of_nat i \<noteq> 0" using u [OF assms(2)] z by (metis add_is_0 unat_0)
  show "base + size' * of_nat i = base + size' * of_nat j \<longleftrightarrow> i = j"
    using u [OF assms(2)] u [OF assms(3)] z by (metis add_left_cancel mult_cancel1)
qed

lemma pcb_at_addr:
  assumes "machine_ok M" "p < MAX_PROC"
  shows "pcb_at M (pcb_addr M (Ref p)) = Some (Ref p)" "pcb_addr M (Ref p) \<noteq> 0"
proof -
  have t: "table_ok (pcb_table_addr M) (pcb_size M) MAX_PROC" using assms(1) by (simp add: machine_ok_def)
  show "pcb_addr M (Ref p) \<noteq> 0" using table_entry(1) [OF t assms(2) assms(2)] by (simp add: pcb_addr_def)
  moreover have "List.find (\<lambda>i. pcb_addr M (Ref i) = pcb_addr M (Ref p)) [0..<MAX_PROC] = Some p"
    using table_entry(2) [OF t _ assms(2)] assms(2) by (intro find_unique) (auto simp: pcb_addr_def)
  ultimately show "pcb_at M (pcb_addr M (Ref p)) = Some (Ref p)" by (simp add: pcb_at_def)
qed

lemma nsd_at_addr:
  assumes "machine_ok M" "t < NS_TYPE_MAX" "j < MAX_PROC"
  shows "nsd_at M (nsd_addr M (Ref (t, j))) = Some (Ref (t, j))" "nsd_addr M (Ref (t, j)) \<noteq> 0"
proof -
  have tb: "table_ok (nsd_table_addr M) (nsd_size M) (NS_TYPE_MAX * MAX_PROC)" using assms(1) by (simp add: machine_ok_def)
  have t: "u = 0" if "u < NS_TYPE_MAX" for u using that by (simp add: NS_TYPE_MAX_def NS_TYPE_LAST_def NS_PID_def)
  have b: "k < NS_TYPE_MAX * MAX_PROC" if "k < MAX_PROC" for k
    using that by (simp add: NS_TYPE_MAX_def NS_TYPE_LAST_def NS_PID_def)
  show "nsd_addr M (Ref (t, j)) \<noteq> 0"
    using table_entry(1) [OF tb b [OF assms(3)] b [OF assms(3)]] t [OF assms(2)] by (simp add: nsd_addr_def)
  moreover have "List.find (\<lambda>n. nsd_addr M (Ref n) = nsd_addr M (Ref (t, j)))
      (List.product [0..<NS_TYPE_MAX] [0..<MAX_PROC]) = Some (t, j)"
  proof (rule find_unique)
    show "(t, j) \<in> set (List.product [0..<NS_TYPE_MAX] [0..<MAX_PROC])" using assms by simp
    show "n = (t, j)" if "n \<in> set (List.product [0..<NS_TYPE_MAX] [0..<MAX_PROC])"
      "nsd_addr M (Ref n) = nsd_addr M (Ref (t, j))" for n
    proof -
      from that(1) obtain u k where n: "n = (u, k)" "u < NS_TYPE_MAX" "k < MAX_PROC" by auto
      with that(2) t [OF n(2)] t [OF assms(2)] table_entry(2) [OF tb b b, of k j] assms(3)
      show ?thesis by (simp add: nsd_addr_def)
    qed
  qed simp
  ultimately show "nsd_at M (nsd_addr M (Ref (t, j))) = Some (Ref (t, j))" by (simp add: nsd_at_def)
qed

lemma field_addr:
  assumes M: "machine_ok M" and d: "d < DEVICE_NUMBER" and x: "x < 12"
    and a: "a = sysiostates_addr M + SIZEOF_SYSIOSTATE * of_nat d + of_nat x"
  shows "unat a = unat (sysiostates_addr M) + 12 * d + x" "in_sysiostates M a"
    "unat ((a - sysiostates_addr M) div SIZEOF_SYSIOSTATE) = d"
    "(a - sysiostates_addr M) mod SIZEOF_SYSIOSTATE = of_nat x"
proof -
  let ?b = "unat (sysiostates_addr M)"
  have b: "?b + 12 * DEVICE_NUMBER < 2 ^ 32" using M by (simp add: machine_ok_def)
  have "a = of_nat (?b + 12 * d + x)" using a by (simp add: SIZEOF_SYSIOSTATE_def)
  moreover have lt: "12 * d + x < 12 * DEVICE_NUMBER" using d x by (simp add: DEVICE_NUMBER_def)
  ultimately show ua: "unat a = ?b + 12 * d + x"
    using b unat_of_nat_small [of "?b + 12 * d + x"] by simp
  have "sysiostates_end M = of_nat (?b + 12 * DEVICE_NUMBER)"
    by (simp add: sysiostates_end_def SIZEOF_SYSIOSTATE_def)
  then have "unat (sysiostates_end M) = ?b + 12 * DEVICE_NUMBER"
    using b unat_of_nat_small by metis
  then show "in_sysiostates M a"
    using ua lt by (simp add: in_sysiostates_def word_le_nat_alt word_less_nat_alt)
  have diff: "a - sysiostates_addr M = of_nat (12 * d + x)"
    using a by (simp add: SIZEOF_SYSIOSTATE_def)
  have ud: "unat (of_nat (12 * d + x) :: u32) = 12 * d + x"
    using lt b by (intro unat_of_nat_small) simp
  show "unat ((a - sysiostates_addr M) div SIZEOF_SYSIOSTATE) = d"
    unfolding diff SIZEOF_SYSIOSTATE_def unat_div ud using x by simp
  have "unat ((a - sysiostates_addr M) mod SIZEOF_SYSIOSTATE) = x"
    unfolding diff SIZEOF_SYSIOSTATE_def unat_mod ud using x by simp
  then show "(a - sysiostates_addr M) mod SIZEOF_SYSIOSTATE = of_nat x"
    by (drule_tac arg_cong [of _ _ "of_nat :: nat \<Rightarrow> u32"]) simp
qed


definition sem_addr :: "machine \<Rightarrow> u32 \<Rightarrow> bool" where
  "sem_addr M a \<longleftrightarrow> word_pointer a \<and>
     (in_sysiostates M a \<longrightarrow> (\<exists>d < DEVICE_NUMBER. a = sem_mut_addr M d \<or> a = sem_sync_addr M d))"

lemma sem_addr_fields:
  assumes "machine_ok M" "d < DEVICE_NUMBER"
  shows "sem_addr M (sem_mut_addr M d)" "sem_addr M (sem_sync_addr M d)" "sem_addr M (pseudo_clock_addr M)"
proof -
  note f = field_addr(1,2) [OF assms, of 0 "sem_mut_addr M d"] field_addr(1,2) [OF assms, of 4 "sem_sync_addr M d"]
  have m: "unat (sysiostates_addr M) mod 4 = 0" "unat (sysiostates_addr M) \<noteq> 0"
    using assms(1) by (auto simp: machine_ok_def unat_eq_0)
  have "unat (sem_mut_addr M d) \<noteq> 0" "unat (sem_sync_addr M d) \<noteq> 0"
    using f m by (auto simp: sem_mut_addr_def sem_sync_addr_def)
  moreover have "unat (sem_mut_addr M d) mod 4 = 0" "unat (sem_sync_addr M d) mod 4 = 0"
    using f m by (auto simp: sem_mut_addr_def sem_sync_addr_def mod_add_eq [symmetric])
  ultimately show "sem_addr M (sem_mut_addr M d)" "sem_addr M (sem_sync_addr M d)"
    using assms(2) by (auto simp: sem_addr_def word_pointer_def)
  show "sem_addr M (pseudo_clock_addr M)"
    using assms(1) by (auto simp: sem_addr_def machine_ok_def)
qed

lemma sem_in_sysiostates:
  assumes "machine_ok M" "d < DEVICE_NUMBER"
  shows "in_sysiostates M (sem_mut_addr M d)" "in_sysiostates M (sem_sync_addr M d)"
  using field_addr(2) [OF assms, of 0 "sem_mut_addr M d"] field_addr(2) [OF assms, of 4 "sem_sync_addr M d"]
  by (auto simp: sem_mut_addr_def sem_sync_addr_def)

lemma load_fields:
  assumes "machine_ok M" "d < DEVICE_NUMBER"
  shows "load_int M (sem_mut_addr M d) s = Some (sem_mut (g_sysiostates s d))"
    "load_int M (sem_sync_addr M d) s = Some (sem_sync (g_sysiostates s d))"
    "load_int M (pseudo_clock_addr M) s = Some (g_pseudo_clock s)"
  using sem_addr_fields [OF assms] assms(1)
    field_addr(2-4) [OF assms, of 0 "sem_mut_addr M d"] field_addr(2-4) [OF assms, of 4 "sem_sync_addr M d"]
  by (auto simp: load_int_def sem_addr_def machine_ok_def sem_mut_addr_def sem_sync_addr_def)

lemma store_fields:
  assumes "machine_ok M" "d < DEVICE_NUMBER"
  shows "store_int M (sem_mut_addr M d) v s = upd_sysio (int d) (sem_mut_update (\<lambda>_. v)) s"
    "store_int M (sem_sync_addr M d) v s = upd_sysio (int d) (sem_sync_update (\<lambda>_. v)) s"
    "store_int M (pseudo_clock_addr M) v s = Some (s\<lparr>g_pseudo_clock := v\<rparr>)"
  using sem_addr_fields [OF assms] assms(1)
    field_addr(2-4) [OF assms, of 0 "sem_mut_addr M d"] field_addr(2-4) [OF assms, of 4 "sem_sync_addr M d"]
  by (auto simp: store_int_def sem_addr_def machine_ok_def sem_mut_addr_def sem_sync_addr_def)

lemma sysio_simps [simp]:
  assumes "d < DEVICE_NUMBER"
  shows "upd_sysio (int d) f s = Some (s\<lparr>g_sysiostates := (g_sysiostates s)(d := f (g_sysiostates s d))\<rparr>)"
    "get_sysio (int d) s = Some (g_sysiostates s d)"
  using assms by (auto simp: upd_sysio_def get_sysio_def)

lemma sem_addr_cases:
  assumes "sem_addr M a"
  obtains d where "d < DEVICE_NUMBER" "a = sem_mut_addr M d" | d where "d < DEVICE_NUMBER" "a = sem_sync_addr M d"
  | "a = pseudo_clock_addr M" "\<not> in_sysiostates M a"
  | "word_pointer a" "a \<noteq> pseudo_clock_addr M" "\<not> in_sysiostates M a"
  using assms by (cases "in_sysiostates M a") (auto simp: sem_addr_def)

lemma sem_addr_distinct:
  assumes "machine_ok M" "d < DEVICE_NUMBER" "e < DEVICE_NUMBER"
  shows "sem_mut_addr M d \<noteq> sem_sync_addr M e" "sem_mut_addr M d = sem_mut_addr M e \<longleftrightarrow> d = e"
    "sem_sync_addr M d = sem_sync_addr M e \<longleftrightarrow> d = e"
proof -
  have u: "unat (sem_mut_addr M d) = unat (sysiostates_addr M) + 12 * d"
    "unat (sem_sync_addr M d) = unat (sysiostates_addr M) + 12 * d + 4" if "d < DEVICE_NUMBER" for d
    using field_addr(1) [OF assms(1) that, of 0 "sem_mut_addr M d"]
      field_addr(1) [OF assms(1) that, of 4 "sem_sync_addr M d"]
    by (auto simp: sem_mut_addr_def sem_sync_addr_def)
  have "12 * d \<noteq> 12 * e + 4" by presburger
  then show "sem_mut_addr M d \<noteq> sem_sync_addr M e"
    using u(1) [OF assms(2)] u(2) [OF assms(3)] by auto
  have "d = e" if "sem_mut_addr M d = sem_mut_addr M e"
    using u(1) [OF assms(2)] u(1) [OF assms(3)] unfolding that by simp
  then show "sem_mut_addr M d = sem_mut_addr M e \<longleftrightarrow> d = e" by blast
  have "d = e" if "sem_sync_addr M d = sem_sync_addr M e"
    using u(2) [OF assms(2)] u(2) [OF assms(3)] unfolding that by simp
  then show "sem_sync_addr M d = sem_sync_addr M e \<longleftrightarrow> d = e" by blast
qed

lemma load_int_other:
  assumes "word_pointer a" "a \<noteq> pseudo_clock_addr M" "\<not> in_sysiostates M a"
  shows "load_int M a s = Some (mem s a)" "store_int M a v s = Some (s\<lparr>mem := (mem s)(a := v)\<rparr>)"
  using assms by (auto simp: load_int_def store_int_def)

lemma load_int_sem: "sem_addr M a \<Longrightarrow> machine_ok M \<Longrightarrow> \<exists>v. load_int M a s = Some v"
  by (erule sem_addr_cases; cases "a = pseudo_clock_addr M")
    (auto simp: load_fields load_int_other load_fields(3) [where d = 0] DEVICE_NUMBER_def)

text \<open>Two states that agree on the words of a semaphore.\<close>

lemma load_int_cong:
  assumes "machine_ok M" "sem_addr M b"
    and "\<And>d. d < DEVICE_NUMBER \<Longrightarrow> b = sem_mut_addr M d \<Longrightarrow>
           sem_mut (g_sysiostates s' d) = sem_mut (g_sysiostates s d)"
    and "\<And>d. d < DEVICE_NUMBER \<Longrightarrow> b = sem_sync_addr M d \<Longrightarrow>
           sem_sync (g_sysiostates s' d) = sem_sync (g_sysiostates s d)"
    and "b = pseudo_clock_addr M \<Longrightarrow> g_pseudo_clock s' = g_pseudo_clock s"
    and "\<not> in_sysiostates M b \<Longrightarrow> b \<noteq> pseudo_clock_addr M \<Longrightarrow> mem s' b = mem s b"
  shows "load_int M b s' = load_int M b s"
  using assms(2)
proof (cases rule: sem_addr_cases)
  case (1 d)
  then show ?thesis using load_fields(1) [OF assms(1)] assms(3) by simp
next
  case (2 d)
  then show ?thesis using load_fields(2) [OF assms(1)] assms(4) by simp
next
  case 3
  have "0 < DEVICE_NUMBER" by (simp add: DEVICE_NUMBER_def)
  then show ?thesis using load_fields(3) [OF assms(1)] assms(5) 3 by simp
next
  case 4
  then show ?thesis using assms(6) by (simp add: load_int_other)
qed

text \<open>A store to a semaphore, and the loads after it.\<close>

lemma store_int_sem:
  assumes M: "machine_ok M" and a: "sem_addr M a"
  shows "\<exists>g c m. store_int M a v s = Some (s\<lparr>g_sysiostates := g, g_pseudo_clock := c, mem := m\<rparr>) \<and>
     load_int M a (s\<lparr>g_sysiostates := g, g_pseudo_clock := c, mem := m\<rparr>) = Some v \<and>
     (\<forall>b. sem_addr M b \<longrightarrow> b \<noteq> a \<longrightarrow>
        load_int M b (s\<lparr>g_sysiostates := g, g_pseudo_clock := c, mem := m\<rparr>) = load_int M b s) \<and>
     (\<forall>d. waiting_process (g d) = waiting_process (g_sysiostates s d)) \<and>
     (\<not> in_sysiostates M a \<longrightarrow> g = g_sysiostates s)"
  using a
proof (cases rule: sem_addr_cases)
  case (1 d)
  let ?g = "(g_sysiostates s)(d := (g_sysiostates s d)\<lparr>sem_mut := v\<rparr>)"
  show ?thesis
  proof (intro exI [of _ ?g] exI [of _ "g_pseudo_clock s"] exI [of _ "mem s"] conjI allI impI)
    fix b assume b: "sem_addr M b" "b \<noteq> a"
    show "load_int M b (s\<lparr>g_sysiostates := ?g, g_pseudo_clock := g_pseudo_clock s, mem := mem s\<rparr>) = load_int M b s"
      by (rule load_int_cong [OF M b(1)]) (use b(2) 1 in auto)
  qed (use 1 M in \<open>simp_all add: store_fields load_fields sem_in_sysiostates\<close>)
next
  case (2 d)
  let ?g = "(g_sysiostates s)(d := (g_sysiostates s d)\<lparr>sem_sync := v\<rparr>)"
  show ?thesis
  proof (intro exI [of _ ?g] exI [of _ "g_pseudo_clock s"] exI [of _ "mem s"] conjI allI impI)
    fix b assume b: "sem_addr M b" "b \<noteq> a"
    show "load_int M b (s\<lparr>g_sysiostates := ?g, g_pseudo_clock := g_pseudo_clock s, mem := mem s\<rparr>) = load_int M b s"
      by (rule load_int_cong [OF M b(1)]) (use b(2) 2 in auto)
  qed (use 2 M in \<open>simp_all add: store_fields load_fields sem_in_sysiostates\<close>)
next
  case 3
  have d: "0 < DEVICE_NUMBER" by (simp add: DEVICE_NUMBER_def)
  show ?thesis
  proof (intro exI [of _ "g_sysiostates s"] exI [of _ v] exI [of _ "mem s"] conjI allI impI)
    fix b assume b: "sem_addr M b" "b \<noteq> a"
    show "load_int M b (s\<lparr>g_sysiostates := g_sysiostates s, g_pseudo_clock := v, mem := mem s\<rparr>) = load_int M b s"
      by (rule load_int_cong [OF M b(1)]) (use b(2) 3 in auto)
  qed (use 3 M d in \<open>simp_all add: store_fields load_fields\<close>)
next
  case 4
  show ?thesis
  proof (intro exI [of _ "g_sysiostates s"] exI [of _ "g_pseudo_clock s"] exI [of _ "(mem s)(a := v)"] conjI allI impI)
    fix b assume b: "sem_addr M b" "b \<noteq> a"
    show "load_int M b (s\<lparr>g_sysiostates := g_sysiostates s, g_pseudo_clock := g_pseudo_clock s,
        mem := (mem s)(a := v)\<rparr>) = load_int M b s"
      by (rule load_int_cong [OF M b(1)]) (use b(2) 4 in auto)
  qed (use 4 in \<open>simp_all add: load_int_other\<close>)
qed

end
