(* ===== verification/Scheduler.thy ===== *)
theory Scheduler
  imports Kernel
begin

text \<open>
  \<open>phase2/scheduler.c\<close>.  The loop waits on an empty ready queue: \<open>WAIT\<close> hands the
  processor to the interrupts, and the run goes on with \<open>scheduler_resume\<close> after the
  interrupt has been served.
\<close>

section \<open>The scheduler\<close>

definition setSTATUS :: "u32 \<Rightarrow> kernel \<Rightarrow> kernel" where
  "setSTATUS w s = s\<lparr>cpu_status := w\<rparr>"

definition schedule_next :: "machine \<Rightarrow> kernel \<Rightarrow> unit outcome option" where
  "schedule_next M s = do {
     let s = setSTATUS (scheduler_old_status s) s;
     (p, s) \<leftarrow> removeProcQ (Ref Ready_queue) s;
     let s = s\<lparr>g_current_process := p\<rparr>;
     let s = s\<lparr>cpu_timer := TIMESLICE\<rparr>;
     let (tod, s) = STCK s;
     let s = s\<lparr>g_tod := tod\<rparr>;
     c \<leftarrow> get_pcb (g_current_process s) s;
     Some (Exits (LDST (p_s c)) s)
   }"

definition scheduler_loop :: "machine \<Rightarrow> kernel \<Rightarrow> unit outcome option" where
  "scheduler_loop M s = do {
     e \<leftarrow> emptyProcQ (Ref Ready_queue) s;
     if e then
       if g_process_count s = 0 then Some (Exits HALT s)
       else if 0 < sint (g_process_count s) \<and> 0 < sint (g_soft_block_count s) then do {
         let s = setSTATUS ((scheduler_old_status s OR STATUS_IEc M OR STATUS_IM_MASK M) AND
                            NOT (STATUS_TE M)) s;
         e \<leftarrow> emptyProcQ (Ref Ready_queue) s;
         if \<not> e then schedule_next M s else Some (Exits WAIT s)
       }
       else if 0 < sint (g_process_count s) \<and> g_soft_block_count s = 0 then Some (Exits PANIC s)
       else Some (Exits SPIN s)
     else schedule_next M s
   }"

definition scheduler :: "machine \<Rightarrow> kernel \<Rightarrow> unit outcome option" where
  "scheduler M s = scheduler_loop M (s\<lparr>scheduler_old_status := cpu_status s\<rparr>)"

text \<open>The rest of the iteration after \<open>WAIT\<close> returns, and the iterations that follow.\<close>

definition scheduler_resume :: "machine \<Rightarrow> kernel \<Rightarrow> unit outcome option" where
  "scheduler_resume M s = scheduler_loop M (setSTATUS (scheduler_old_status s) s)"

section \<open>Queues of the nucleus\<close>

text \<open>
  The ready queue holds \<open>rq\<close>, the semaphores hold \<open>A\<close>, and the \<open>p_list\<close> of the current
  process is in no queue.
\<close>

definition queues :: "kernel \<Rightarrow> lnode rmap \<Rightarrow> ash \<Rightarrow> pcb list \<Rightarrow> bool" where
  "queues s R A rq \<longleftrightarrow> ash s R A \<and> R Ready_queue = Some (map P_list rq) \<and>
     (\<forall>k. set (A k) \<subseteq> {..<MAX_PROC}) \<and> set rq \<subseteq> {..<MAX_PROC} \<and>
     (case g_current_process s of NULL \<Rightarrow> True | Ref p \<Rightarrow> p < MAX_PROC \<and> R (P_list p) = Some [])"

fun queue_node :: "lnode \<Rightarrow> bool" where
  "queue_node Ready_queue = True" | "queue_node (P_list _) = True" | "queue_node q = sem_node q"

text \<open>The tree of processes, the free lists and the namespaces are as before.\<close>

definition same_rest :: "lnode rmap \<Rightarrow> lnode rmap \<Rightarrow> bool" where
  "same_rest R R' \<longleftrightarrow> (\<forall>q. \<not> queue_node q \<longrightarrow> R' q = R q) \<and> no_tree_entries R R'"

lemma queuesD:
  assumes "queues s R A rq"
  shows "ash s R A" "R Ready_queue = Some (map P_list rq)" "set (A k) \<subseteq> {..<MAX_PROC}"
    and "set rq \<subseteq> {..<MAX_PROC}" "rings (lh s) R"
    and "g_current_process s = Ref p \<Longrightarrow> p < MAX_PROC" "g_current_process s = Ref p \<Longrightarrow> R (P_list p) = Some []"
  using assms ash_rings by (auto simp: queues_def)

lemma ready_empty:
  assumes "rings (lh s) R" "R Ready_queue = Some (map P_list rq)"
  shows "emptyProcQ (Ref Ready_queue) s = Some (rq = [])"
  using list_empty_rings [OF assms] by (simp add: emptyProcQ_def)

lemma schedule_next_rings:
  assumes R: "rings (lh s) R" "R Ready_queue = Some (map P_list (p # rq))"
  shows "\<exists>h. schedule_next M s = Some (Exits (LDST (p_s (pcbs s p)))
       (s\<lparr>lh := h, g_current_process := Ref p, g_tod := tod_clock s (tod_reads s),
          cpu_status := scheduler_old_status s, cpu_timer := TIMESLICE,
          tod_reads := Suc (tod_reads s)\<rparr>)) \<and>
     rings h (R(Ready_queue \<mapsto> map P_list rq, P_list p \<mapsto> []))"
proof -
  obtain h where h: "removeProcQ (Ref Ready_queue) (setSTATUS (scheduler_old_status s) s) =
        Some (Ref p, setSTATUS (scheduler_old_status s) s\<lparr>lh := h\<rparr>)"
      "rings h (R(Ready_queue \<mapsto> map P_list rq, P_list p \<mapsto> []))"
    using removeProcQ_rings [of "setSTATUS (scheduler_old_status s) s" R Ready_queue p rq] R
    by (auto simp: setSTATUS_def)
  then show ?thesis
    by (intro exI [of _ h]) (simp add: schedule_next_def Let_def STCK_def setSTATUS_def)
qed

lemma scheduler_cases:
  assumes R: "rings (lh s) R" "R Ready_queue = Some (map P_list rq)"
  shows "scheduler M s =
     (let s1 = s\<lparr>scheduler_old_status := cpu_status s\<rparr> in
      if rq \<noteq> [] then schedule_next M s1
      else if g_process_count s = 0 then Some (Exits HALT s1)
      else if 0 < sint (g_process_count s) \<and> 0 < sint (g_soft_block_count s)
      then Some (Exits WAIT (s1\<lparr>cpu_status :=
             (cpu_status s OR STATUS_IEc M OR STATUS_IM_MASK M) AND NOT (STATUS_TE M)\<rparr>))
      else if 0 < sint (g_process_count s) \<and> g_soft_block_count s = 0 then Some (Exits PANIC s1)
      else Some (Exits SPIN s1))"
  using ready_empty [of "s\<lparr>scheduler_old_status := cpu_status s\<rparr>" R rq] R
    ready_empty [of "s\<lparr>scheduler_old_status := cpu_status s, cpu_status :=
             (cpu_status s OR STATUS_IEc M OR STATUS_IM_MASK M) AND NOT (STATUS_TE M)\<rparr>" R rq]
  by (simp add: scheduler_def scheduler_loop_def Let_def setSTATUS_def)

lemma scheduler_dispatch:
  assumes R: "rings (lh s) R" "R Ready_queue = Some (map P_list (p # rq))"
  shows "\<exists>h. scheduler M s = Some (Exits (LDST (p_s (pcbs s p)))
       (s\<lparr>lh := h, g_current_process := Ref p, g_tod := tod_clock s (tod_reads s),
          scheduler_old_status := cpu_status s, cpu_timer := TIMESLICE,
          tod_reads := Suc (tod_reads s)\<rparr>)) \<and>
     rings h (R(Ready_queue \<mapsto> map P_list rq, P_list p \<mapsto> []))"
proof -
  let ?s1 = "s\<lparr>scheduler_old_status := cpu_status s\<rparr>"
  obtain h where h: "schedule_next M ?s1 = Some (Exits (LDST (p_s (pcbs ?s1 p)))
       (?s1\<lparr>lh := h, g_current_process := Ref p, g_tod := tod_clock ?s1 (tod_reads ?s1),
          cpu_status := scheduler_old_status ?s1, cpu_timer := TIMESLICE,
          tod_reads := Suc (tod_reads ?s1)\<rparr>))"
      "rings h (R(Ready_queue \<mapsto> map P_list rq, P_list p \<mapsto> []))"
    using schedule_next_rings [of ?s1 R p rq M] R by auto
  then show ?thesis
    by (intro exI [of _ h]) (simp add: scheduler_cases [OF R] Let_def)
qed

text \<open>
  The scheduler overwrites \<open>g_current_process\<close>, whatever it is when the scheduler is called.
\<close>

definition dispatched :: "pcb \<Rightarrow> lnode lheap \<Rightarrow> kernel \<Rightarrow> kernel" where
  "dispatched p h s = s\<lparr>lh := h, g_current_process := Ref p, g_tod := tod_clock s (tod_reads s),
     scheduler_old_status := cpu_status s, cpu_timer := TIMESLICE, tod_reads := Suc (tod_reads s)\<rparr>"

lemma dispatched_simps [simp]:
  "lh (dispatched p h s) = h" "hh (dispatched p h s) = hh s" "pcbs (dispatched p h s) = pcbs s"
  "s_key (dispatched p h s) = s_key s" "g_current_process (dispatched p h s) = Ref p"
  "g_process_count (dispatched p h s) = g_process_count s"
  "g_soft_block_count (dispatched p h s) = g_soft_block_count s"
  "g_sysiostates (dispatched p h s) = g_sysiostates s" "mem (dispatched p h s) = mem s"
  "g_pseudo_clock (dispatched p h s) = g_pseudo_clock s"
  by (simp_all add: dispatched_def)

lemma scheduler_queues:
  assumes q: "queues (s\<lparr>g_current_process := NULL\<rparr>) R A (p # rq)"
  shows "\<exists>h. scheduler M s = Some (Exits (LDST (p_s (pcbs s p))) (dispatched p h s)) \<and>
     queues (dispatched p h s) (R(Ready_queue \<mapsto> map P_list rq, P_list p \<mapsto> [])) A rq \<and>
     same_rest R (R(Ready_queue \<mapsto> map P_list rq, P_list p \<mapsto> []))"
proof -
  note D = queuesD [OF q]
  have r: "rings (lh s) R" using D(5) by simp
  obtain h where h: "scheduler M s = Some (Exits (LDST (p_s (pcbs s p))) (dispatched p h s))"
      "rings h (R(Ready_queue \<mapsto> map P_list rq, P_list p \<mapsto> []))" (is "rings h ?R'")
    using scheduler_dispatch [OF r D(2)] unfolding dispatched_def by blast
  have "ash (dispatched p h s) ?R' A"
    using h(2) D(2) by (intro ash_transfer [OF D(1)])
      (auto simp: keeps_sems_def vacant_def not_in_nodes split: if_splits)
  then have "queues (dispatched p h s) ?R' A rq"
    using q by (auto simp: queues_def)
  moreover have "same_rest R ?R'" by (auto simp: same_rest_def no_tree_entries_def)
  ultimately show ?thesis using h(1) by blast
qed

end
