(* ===== verification/Sync.thy ===== *)
theory Sync
  imports Scheduler
begin

text \<open>
  The two semaphore operations of \<open>phase2/syscall.c\<close>, \<open>sysPasseren\<close> and \<open>sysVerhogen\<close>,
  and the two things that they do to the queues: the current process blocks, or the first
  blocked process becomes ready.
\<close>

section \<open>The operations\<close>

definition sysPasseren :: "machine \<Rightarrow> u32 \<Rightarrow> kernel \<Rightarrow> unit outcome option" where
  "sysPasseren M semaddr s = do {
     v \<leftarrow> load_int M semaddr s;
     if v = 1 then do {
       (removed_pcb, s) \<leftarrow> removeBlocked semaddr s;
       s \<leftarrow> (if removed_pcb \<noteq> NULL then insertProcQ (Ref Ready_queue) removed_pcb s
             else do {
               v \<leftarrow> load_int M semaddr s;
               store_int M semaddr (v - 1) s
             });
       Some (Returns () s)
     } else do {
       s \<leftarrow> save_current s;
       s \<leftarrow> updateProcessTime s;
       (_, s) \<leftarrow> insertBlocked semaddr (g_current_process s) s;
       let s = s\<lparr>g_current_process := NULL\<rparr>;
       scheduler M s
     }
   }"

definition sysVerhogen :: "machine \<Rightarrow> u32 \<Rightarrow> kernel \<Rightarrow> unit outcome option" where
  "sysVerhogen M semaddr s = do {
     v \<leftarrow> load_int M semaddr s;
     if v = 0 then do {
       (removed_pcb, s) \<leftarrow> removeBlocked semaddr s;
       s \<leftarrow> (if removed_pcb \<noteq> NULL then insertProcQ (Ref Ready_queue) removed_pcb s
             else do {
               v \<leftarrow> load_int M semaddr s;
               store_int M semaddr (v + 1) s
             });
       Some (Returns () s)
     } else do {
       s \<leftarrow> save_current s;
       s \<leftarrow> updateProcessTime s;
       (_, s) \<leftarrow> insertBlocked semaddr (g_current_process s) s;
       let s = s\<lparr>g_current_process := NULL\<rparr>;
       scheduler M s
     }
   }"

section \<open>The current process stops\<close>

lemma stop_current:
  assumes "g_current_process s = Ref p"
  shows "do { s \<leftarrow> save_current s; updateProcessTime s } =
     Some (s\<lparr>pcbs := (pcbs s)(p := (pcbs s p)\<lparr>p_s := g_old_state s,
                p_time := p_time (pcbs s p) + (tod_clock s (tod_reads s) - g_tod s)\<rparr>),
             g_tod := tod_clock s (Suc (tod_reads s)), tod_reads := Suc (Suc (tod_reads s))\<rparr>)"
  using assms
  by (simp add: save_current_def updateProcessTime_def getPassedTime_def STCK_def Let_def)

text \<open>A step that does not touch the lists and the semaphore keys of the processes.\<close>

lemma queues_cong:
  assumes "queues s R A rq" "lh s' = lh s" "hh s' = hh s" "s_key s' = s_key s"
    and "\<And>p. p_semAdd (pcbs s' p) = p_semAdd (pcbs s p)"
    and "g_current_process s' = g_current_process s \<or> g_current_process s' = NULL"
  shows "queues s' R A rq"
proof -
  note D = queuesD [OF assms(1)]
  have "ash s' R A"
    using D(5) assms(2-5) by (intro ash_transfer [OF D(1)]) (auto simp: keeps_sems_def)
  moreover have "case g_current_process s' of NULL \<Rightarrow> True | Ref p \<Rightarrow> p < MAX_PROC \<and> R (P_list p) = Some []"
  proof (cases "g_current_process s'")
    case (Ref p)
    with assms(6) have "g_current_process s = Ref p" by simp
    with D(6,7) Ref show ?thesis by simp
  qed simp
  ultimately show ?thesis using D(2-4) by (simp add: queues_def)
qed

lemma queues_alone: "queues s R A rq \<Longrightarrow> g_current_process s = Ref p \<Longrightarrow> alone (lh s) (P_list p)"
  by (rule rings_alone [OF queuesD(5) queuesD(7)])

lemma queues_current:
  assumes "queues s R A rq" "g_current_process s = Ref p"
  shows "p \<notin> set (A k)" "p \<notin> set rq"
proof -
  note D = queuesD [OF assms(1)]
  show "p \<notin> set (A k)" by (rule alone_not_blocked [OF D(1) queues_alone [OF assms]])
  show "p \<notin> set rq" using alone_not_entry [OF D(5) queues_alone [OF assms] D(2)] by auto
qed

text \<open>The current process moves to the end of the queue of \<open>k\<close>.\<close>

lemma queues_block:
  assumes q: "queues s R A rq" "g_current_process s = Ref p"
  shows "\<exists>h hh' ks R'. insertBlocked k (Ref p) s =
       Some (False, s\<lparr>lh := h, hh := hh', s_key := ks, pcbs := (pcbs s)(p := (pcbs s p)\<lparr>p_semAdd := k\<rparr>)\<rparr>) \<and>
     queues (s\<lparr>lh := h, hh := hh', s_key := ks, pcbs := (pcbs s)(p := (pcbs s p)\<lparr>p_semAdd := k\<rparr>),
               g_current_process := NULL\<rparr>) R' (A(k := A k @ [p])) rq \<and> same_rest R R'"
proof -
  note D = queuesD [OF q(1)]
  note c = D(6,7) [OF q(2)] and out = queues_current(1) [OF q]
  have u: "unlink (P_list p) R = R(P_list p := None)"
    by (rule unlink_self [OF rings_shape [OF D(5)] c(2)])
  have "loose (P_list p) R" using c(2) by (simp add: loose_def)
  from insertBlocked_ash [OF D(1) this out] semd_suffice [OF D(1,3) c(1) out]
  obtain h hh' ks R' where
    i: "insertBlocked k (Ref p) s =
       Some (False, s\<lparr>lh := h, hh := hh', s_key := ks, pcbs := (pcbs s)(p := (pcbs s p)\<lparr>p_semAdd := k\<rparr>)\<rparr>)"
    "ash (s\<lparr>lh := h, hh := hh', s_key := ks, pcbs := (pcbs s)(p := (pcbs s p)\<lparr>p_semAdd := k\<rparr>)\<rparr>) R'
       (A(k := A k @ [p]))" "same_elsewhere (R(P_list p := None)) R'"
    unfolding u by metis
  let ?s1 = "s\<lparr>lh := h, hh := hh', s_key := ks, pcbs := (pcbs s)(p := (pcbs s p)\<lparr>p_semAdd := k\<rparr>)\<rparr>"
  let ?s' = "?s1\<lparr>g_current_process := NULL\<rparr>"
  have "ash ?s' R' (A(k := A k @ [p]))"
    using ash_rings [OF i(2)] by (intro ash_transfer [OF i(2)]) (auto simp: keeps_sems_def)
  moreover have "R' Ready_queue = Some (map P_list rq)"
    using i(3) D(2) by (simp add: same_elsewhere_def)
  ultimately have "queues ?s' R' (A(k := A k @ [p])) rq"
    using D(3,4) c(1) by (auto simp: queues_def)
  moreover have "same_rest R R'"
    unfolding same_rest_def
  proof (intro conjI allI impI)
    show "R' q = R q" if "\<not> queue_node q" for q
      using that i(3) by (cases q) (auto simp: same_elsewhere_def)
    show "no_tree_entries R R'"
      by (rule no_tree_entries_trans [of _ "R(P_list p := None)"])
        (use i(3) in \<open>auto simp: same_elsewhere_def no_tree_entries_def\<close>)
  qed
  ultimately show ?thesis using i(1) by auto
qed

text \<open>
  The first process blocked on \<open>k\<close> becomes the last ready one.  While the scheduler waits,
  \<open>g_current_process\<close> can be stale, so the statement is about the queues with another
  current process \<open>c\<close>.
\<close>

lemma ash_current [simp]: "ash (s\<lparr>g_current_process := c\<rparr>) R A = ash s R A"
  by (simp add: ash_def ash_rep_def)

text \<open>The first process blocked on \<open>k\<close> is taken out; it is then in no queue.\<close>

lemma queues_take:
  assumes q: "queues (s\<lparr>g_current_process := c\<rparr>) R A rq" and k: "A k = w # ws"
  shows "\<exists>h hh' R'. removeBlocked k s =
       Some (Ref w, s\<lparr>lh := h, hh := hh', pcbs := (pcbs s)(w := (pcbs s w)\<lparr>p_semAdd := 0\<rparr>)\<rparr>) \<and>
     queues (s\<lparr>lh := h, hh := hh', pcbs := (pcbs s)(w := (pcbs s w)\<lparr>p_semAdd := 0\<rparr>),
               g_current_process := c\<rparr>) R' (A(k := ws)) rq \<and> same_rest R R' \<and> R' (P_list w) = Some []"
proof -
  note D = queuesD [OF q]
  from removeBlocked_ash [OF D(1) [simplified] k] obtain h hh' R1 where
    r: "removeBlocked k s =
       Some (Ref w, s\<lparr>lh := h, hh := hh', pcbs := (pcbs s)(w := (pcbs s w)\<lparr>p_semAdd := 0\<rparr>)\<rparr>)"
    "ash (s\<lparr>lh := h, hh := hh', pcbs := (pcbs s)(w := (pcbs s w)\<lparr>p_semAdd := 0\<rparr>)\<rparr>) R1 (A(k := ws))"
    "same_elsewhere (R(P_list w \<mapsto> [])) R1" by blast
  let ?s1 = "s\<lparr>lh := h, hh := hh', pcbs := (pcbs s)(w := (pcbs s w)\<lparr>p_semAdd := 0\<rparr>)\<rparr>"
  have "queues (?s1\<lparr>g_current_process := c\<rparr>) R1 (A(k := ws)) rq"
    unfolding queues_def
  proof (intro conjI allI)
    show "set ((A(k := ws)) j) \<subseteq> {..<MAX_PROC}" for j using D(3) [of j] k by auto
    show "R1 Ready_queue = Some (map P_list rq)" using r(3) D(2) by (auto simp: same_elsewhere_def)
    show "case g_current_process (?s1\<lparr>g_current_process := c\<rparr>) of NULL \<Rightarrow> True | Ref p \<Rightarrow> p < MAX_PROC \<and> R1 (P_list p) = Some []"
    proof (cases c)
      case (Ref p)
      then have c: "g_current_process (s\<lparr>g_current_process := c\<rparr>) = Ref p" by simp
      have "R1 (P_list p) = Some []" using r(3) D(7) [OF c] by (auto simp: same_elsewhere_def)
      then show ?thesis using Ref D(6) [OF c] by simp
    qed simp
  qed (use r(2) D(4) in auto)
  moreover have "same_rest R R1"
    unfolding same_rest_def
  proof (intro conjI allI impI)
    show "R1 q = R q" if "\<not> queue_node q" for q
      using that r(3) by (cases q) (auto simp: same_elsewhere_def)
    show "no_tree_entries R R1"
      by (rule no_tree_entries_trans [of _ "R(P_list w \<mapsto> [])"])
        (use r(3) in \<open>auto simp: same_elsewhere_def no_tree_entries_def\<close>)
  qed
  moreover have "R1 (P_list w) = Some []" using r(3) by (auto simp: same_elsewhere_def)
  ultimately show ?thesis using r(1) by blast
qed

lemma queues_wake_at:
  assumes q: "queues (s\<lparr>g_current_process := c\<rparr>) R A rq" and k: "A k = w # ws"
  shows "\<exists>s1 h hh' R'. removeBlocked k s = Some (Ref w, s1) \<and>
     insertProcQ (Ref Ready_queue) (Ref w) s1 =
       Some (s\<lparr>lh := h, hh := hh', pcbs := (pcbs s)(w := (pcbs s w)\<lparr>p_semAdd := 0\<rparr>)\<rparr>) \<and>
     queues (s\<lparr>lh := h, hh := hh', pcbs := (pcbs s)(w := (pcbs s w)\<lparr>p_semAdd := 0\<rparr>),
               g_current_process := c\<rparr>) R' (A(k := ws)) (rq @ [w]) \<and> same_rest R R'"
proof -
  from queues_take [OF q k] obtain h1 hh' R1 where
    r: "removeBlocked k s =
       Some (Ref w, s\<lparr>lh := h1, hh := hh', pcbs := (pcbs s)(w := (pcbs s w)\<lparr>p_semAdd := 0\<rparr>)\<rparr>)"
    "queues (s\<lparr>lh := h1, hh := hh', pcbs := (pcbs s)(w := (pcbs s w)\<lparr>p_semAdd := 0\<rparr>),
       g_current_process := c\<rparr>) R1 (A(k := ws)) rq"
    "same_rest R R1" "R1 (P_list w) = Some []" by blast
  let ?s1 = "s\<lparr>lh := h1, hh := hh', pcbs := (pcbs s)(w := (pcbs s w)\<lparr>p_semAdd := 0\<rparr>)\<rparr>"
  note D = queuesD [OF r(2)]
  have a1: "ash ?s1 R1 (A(k := ws))" using D(1) by simp
  note g1 = ash_rings [OF a1]
  have "queueable Ready_queue ?s1 w" using rings_alone [OF g1 r(4)] by (simp add: queueable_def)
  from insertProcQ_alone [OF g1 D(2) this] obtain h where
    h: "insertProcQ (Ref Ready_queue) (Ref w) ?s1 = Some (?s1\<lparr>lh := h\<rparr>)"
    "rings h (R1(P_list w := None, Ready_queue \<mapsto> map P_list (rq @ [w])))" by blast
  let ?R' = "R1(P_list w := None, Ready_queue \<mapsto> map P_list (rq @ [w]))"
  let ?s' = "s\<lparr>lh := h, hh := hh', pcbs := (pcbs s)(w := (pcbs s w)\<lparr>p_semAdd := 0\<rparr>)\<rparr>"
  have s': "?s1\<lparr>lh := h\<rparr> = ?s'" by simp
  have a: "ash ?s' ?R' (A(k := ws))"
    using h(2) r(4) D(2) by (intro ash_transfer [OF a1])
      (auto simp: keeps_sems_def vacant_def not_in_nodes split: if_splits)
  have w: "w < MAX_PROC" using queuesD(3) [OF q, of k] k by auto
  have "queues (?s'\<lparr>g_current_process := c\<rparr>) ?R' (A(k := ws)) (rq @ [w])"
    unfolding queues_def
  proof (intro conjI allI)
    show "set ((A(k := ws)) j) \<subseteq> {..<MAX_PROC}" for j using D(3) by simp
    show "case g_current_process (?s'\<lparr>g_current_process := c\<rparr>) of NULL \<Rightarrow> True | Ref p \<Rightarrow> p < MAX_PROC \<and> ?R' (P_list p) = Some []"
    proof (cases c)
      case (Ref p)
      then have c: "g_current_process (s\<lparr>g_current_process := c\<rparr>) = Ref p" by simp
      then have "p \<noteq> w" using queues_current(1) [OF q c, of k] k by auto
      moreover have "p < MAX_PROC" "R1 (P_list p) = Some []" using D(6,7) [of p] Ref by simp_all
      ultimately show ?thesis using Ref by simp
    qed simp
  qed (use a D(4) w in auto)
  moreover have "same_rest R ?R'"
    unfolding same_rest_def
  proof (intro conjI allI impI)
    show "?R' q = R q" if "\<not> queue_node q" for q
      using that r(3) by (cases q) (auto simp: same_rest_def)
    have "no_tree_entries R R1" using r(3) by (simp add: same_rest_def)
    then show "no_tree_entries R ?R'"
      by (rule no_tree_entries_trans) (auto simp: no_tree_entries_def)
  qed
  ultimately show ?thesis using r(1) h(1) s'
    by (intro exI [of _ ?s1] exI [of _ h] exI [of _ hh'] exI [of _ ?R']) simp
qed

lemma current_same: "g_current_process s = c \<Longrightarrow> s\<lparr>g_current_process := c\<rparr> = s"
  by auto

lemma queues_wake:
  assumes "queues s R A rq" "A k = w # ws"
  shows "\<exists>s1 h hh' R'. removeBlocked k s = Some (Ref w, s1) \<and>
     insertProcQ (Ref Ready_queue) (Ref w) s1 =
       Some (s\<lparr>lh := h, hh := hh', pcbs := (pcbs s)(w := (pcbs s w)\<lparr>p_semAdd := 0\<rparr>)\<rparr>) \<and>
     queues (s\<lparr>lh := h, hh := hh', pcbs := (pcbs s)(w := (pcbs s w)\<lparr>p_semAdd := 0\<rparr>)\<rparr>) R'
       (A(k := ws)) (rq @ [w]) \<and> same_rest R R'"
  using queues_wake_at [where s = s and c = "g_current_process s"] assms by (simp add: current_same)

section \<open>Pointers to semaphores\<close>

text \<open>Every pointer of a process to a semaphore is the key of the queue in which it is.\<close>

definition sem_ptrs :: "kernel \<Rightarrow> ash \<Rightarrow> bool" where
  "sem_ptrs s A \<longleftrightarrow> A 0 = [] \<and>
     (\<forall>p. p_semAdd (pcbs s p) \<noteq> 0 \<longrightarrow> p \<in> set (A (p_semAdd (pcbs s p))))"

lemma sem_ptrs_block:
  assumes "sem_ptrs s A" "a \<noteq> 0" "\<And>q. q \<noteq> p \<Longrightarrow> p_semAdd (pcbs s' q) = p_semAdd (pcbs s q)"
    "p_semAdd (pcbs s' p) = a" "\<And>k. p \<notin> set (A k)"
  shows "sem_ptrs s' (A(a := A a @ [p]))"
proof -
  have "q \<in> set ((A(a := A a @ [p])) (p_semAdd (pcbs s' q)))" if "p_semAdd (pcbs s' q) \<noteq> 0" for q
    using assms that by (cases "q = p") (auto simp: sem_ptrs_def)
  then show ?thesis using assms(1,2) by (auto simp: sem_ptrs_def)
qed

lemma sem_ptrs_wake:
  assumes "sem_ptrs s A" "A k = w # ws" "\<And>q. q \<noteq> w \<Longrightarrow> p_semAdd (pcbs s' q) = p_semAdd (pcbs s q)"
    "p_semAdd (pcbs s' w) = 0"
  shows "sem_ptrs s' (A(k := ws))"
proof -
  have "k \<noteq> 0" using assms(1,2) by (auto simp: sem_ptrs_def)
  moreover have "q \<in> set ((A(k := ws)) (p_semAdd (pcbs s' q)))" if "p_semAdd (pcbs s' q) \<noteq> 0" for q
    using assms that by (cases "q = w") (auto simp: sem_ptrs_def)
  ultimately show ?thesis using assms(1) by (auto simp: sem_ptrs_def)
qed

lemma queues_no_waiter: "queues s R A rq \<Longrightarrow> A k = [] \<Longrightarrow> removeBlocked k s = Some (NULL, s)"
  using removeBlocked_none queuesD(1) by blast

text \<open>The loads see no change of the lists and of the process table.\<close>

lemma load_int_lists:
  assumes "g_sysiostates s' = g_sysiostates s" "g_pseudo_clock s' = g_pseudo_clock s" "mem s' = mem s"
  shows "load_int M b s' = load_int M b s"
  unfolding load_int_def assms by (rule refl)

section \<open>What P and V share\<close>

text \<open>
  The blocking branch: the current process stops, its time is charged, it joins the queue
  of the semaphore, and the scheduler takes over.
\<close>

definition stopped :: "pcb \<Rightarrow> kernel \<Rightarrow> pcb_t" where
  "stopped p s = (pcbs s p)\<lparr>p_s := g_old_state s,
     p_time := p_time (pcbs s p) + (tod_clock s (tod_reads s) - g_tod s)\<rparr>"

definition block_current :: "machine \<Rightarrow> u32 \<Rightarrow> kernel \<Rightarrow> unit outcome option" where
  "block_current M a s = do {
     s \<leftarrow> save_current s;
     s \<leftarrow> updateProcessTime s;
     (_, s) \<leftarrow> insertBlocked a (g_current_process s) s;
     let s = s\<lparr>g_current_process := NULL\<rparr>;
     scheduler M s
   }"

text \<open>
  A semaphore operation that passes on the value \<open>v0\<close> and then moves the value by \<open>d\<close>,
  unless a process waits for it.
\<close>

definition sem_op :: "machine \<Rightarrow> u32 \<Rightarrow> u32 \<Rightarrow> u32 \<Rightarrow> kernel \<Rightarrow> unit outcome option" where
  "sem_op M v0 d a s = do {
     v \<leftarrow> load_int M a s;
     if v = v0 then do {
       (removed_pcb, s) \<leftarrow> removeBlocked a s;
       s \<leftarrow> (if removed_pcb \<noteq> NULL then insertProcQ (Ref Ready_queue) removed_pcb s
             else do { v \<leftarrow> load_int M a s; store_int M a (v + d) s });
       Some (Returns () s)
     } else block_current M a s
   }"

lemma sysPasseren_op: "sysPasseren M a s = sem_op M 1 (- 1) a s"
  unfolding sysPasseren_def sem_op_def block_current_def diff_conv_add_uminus by (rule refl)

lemma sysVerhogen_op: "sysVerhogen M a s = sem_op M 0 1 a s"
  unfolding sysVerhogen_def sem_op_def block_current_def by simp

lemma sem_op_free:
  assumes "machine_ok M" "sem_addr M a" "queues s R A rq" "load_int M a s = Some v0" "A a = []"
  shows "\<exists>g c m. sem_op M v0 d a s = Some (Returns () (s\<lparr>g_sysiostates := g, g_pseudo_clock := c, mem := m\<rparr>)) \<and>
     queues (s\<lparr>g_sysiostates := g, g_pseudo_clock := c, mem := m\<rparr>) R A rq \<and>
     load_int M a (s\<lparr>g_sysiostates := g, g_pseudo_clock := c, mem := m\<rparr>) = Some (v0 + d) \<and>
     (\<forall>b. sem_addr M b \<longrightarrow> b \<noteq> a \<longrightarrow>
        load_int M b (s\<lparr>g_sysiostates := g, g_pseudo_clock := c, mem := m\<rparr>) = load_int M b s) \<and>
     (\<forall>d. waiting_process (g d) = waiting_process (g_sysiostates s d)) \<and>
     (\<not> in_sysiostates M a \<longrightarrow> g = g_sysiostates s)"
proof -
  from store_int_sem [OF assms(1,2), of "v0 + d" s] obtain g c m where
    st: "store_int M a (v0 + d) s = Some (s\<lparr>g_sysiostates := g, g_pseudo_clock := c, mem := m\<rparr>)"
    "load_int M a (s\<lparr>g_sysiostates := g, g_pseudo_clock := c, mem := m\<rparr>) = Some (v0 + d)"
    "\<forall>b. sem_addr M b \<longrightarrow> b \<noteq> a \<longrightarrow>
        load_int M b (s\<lparr>g_sysiostates := g, g_pseudo_clock := c, mem := m\<rparr>) = load_int M b s"
    "\<forall>d. waiting_process (g d) = waiting_process (g_sysiostates s d)"
    "\<not> in_sysiostates M a \<longrightarrow> g = g_sysiostates s" by blast
  have "queues (s\<lparr>g_sysiostates := g, g_pseudo_clock := c, mem := m\<rparr>) R A rq"
    by (rule queues_cong [OF assms(3)]) simp_all
  with st queues_no_waiter [OF assms(3,5)] assms(4) show ?thesis
    by (intro exI [of _ g] exI [of _ c] exI [of _ m]) (simp add: sem_op_def)
qed

lemma sem_op_wakes:
  assumes "queues s R A rq" "load_int M a s = Some v0" "A a = w # ws"
  shows "\<exists>h hh' R'. sem_op M v0 d a s =
       Some (Returns () (s\<lparr>lh := h, hh := hh', pcbs := (pcbs s)(w := (pcbs s w)\<lparr>p_semAdd := 0\<rparr>)\<rparr>)) \<and>
     queues (s\<lparr>lh := h, hh := hh', pcbs := (pcbs s)(w := (pcbs s w)\<lparr>p_semAdd := 0\<rparr>)\<rparr>) R'
       (A(a := ws)) (rq @ [w]) \<and> same_rest R R'"
proof -
  from queues_wake [OF assms(1,3)] obtain s1 h hh' R' where
    w: "removeBlocked a s = Some (Ref w, s1)" "insertProcQ (Ref Ready_queue) (Ref w) s1 =
       Some (s\<lparr>lh := h, hh := hh', pcbs := (pcbs s)(w := (pcbs s w)\<lparr>p_semAdd := 0\<rparr>)\<rparr>)"
    "queues (s\<lparr>lh := h, hh := hh', pcbs := (pcbs s)(w := (pcbs s w)\<lparr>p_semAdd := 0\<rparr>)\<rparr>) R'
       (A(a := ws)) (rq @ [w])" "same_rest R R'" by blast
  have "sem_op M v0 d a s =
      Some (Returns () (s\<lparr>lh := h, hh := hh', pcbs := (pcbs s)(w := (pcbs s w)\<lparr>p_semAdd := 0\<rparr>)\<rparr>))"
    using w(1,2) assms(2) by (simp add: sem_op_def)
  with w(3,4) show ?thesis by blast
qed

lemma sem_op_taken:
  assumes "load_int M a s = Some v" "v \<noteq> v0"
  shows "sem_op M v0 d a s = block_current M a s"
  using assms by (simp add: sem_op_def)

lemma block_current_queues:
  assumes q: "queues s R A rq" "g_current_process s = Ref p"
  shows "\<exists>s' R'. block_current M a s = scheduler M s' \<and> queues s' R' (A(a := A a @ [p])) rq \<and>
     g_current_process s' = NULL \<and> pcbs s' = (pcbs s)(p := (stopped p s)\<lparr>p_semAdd := a\<rparr>) \<and>
     g_process_count s' = g_process_count s \<and> g_soft_block_count s' = g_soft_block_count s \<and>
     (\<forall>b. load_int M b s' = load_int M b s) \<and> same_rest R R' \<and>
     g_sysiostates s' = g_sysiostates s \<and> mem s' = mem s"
proof -
  let ?s1 = "s\<lparr>pcbs := (pcbs s)(p := stopped p s), g_tod := tod_clock s (Suc (tod_reads s)),
               tod_reads := Suc (Suc (tod_reads s))\<rparr>"
  have stop: "do { s \<leftarrow> save_current s; updateProcessTime s } = Some ?s1"
    using stop_current [OF q(2)] by (simp add: stopped_def)
  have q1: "queues ?s1 R A rq" by (rule queues_cong [OF q(1)]) (simp_all add: stopped_def)
  have c1: "g_current_process ?s1 = Ref p" using q(2) by simp
  from queues_block [OF q1 c1, of a] obtain h hh' ks R' where
    b: "insertBlocked a (Ref p) ?s1 = Some (False, ?s1\<lparr>lh := h, hh := hh', s_key := ks,
          pcbs := (pcbs ?s1)(p := (pcbs ?s1 p)\<lparr>p_semAdd := a\<rparr>)\<rparr>)"
    "queues (?s1\<lparr>lh := h, hh := hh', s_key := ks, pcbs := (pcbs ?s1)(p := (pcbs ?s1 p)\<lparr>p_semAdd := a\<rparr>),
               g_current_process := NULL\<rparr>) R' (A(a := A a @ [p])) rq" "same_rest R R'" by blast
  let ?s' = "?s1\<lparr>lh := h, hh := hh', s_key := ks, pcbs := (pcbs ?s1)(p := (pcbs ?s1 p)\<lparr>p_semAdd := a\<rparr>),
               g_current_process := NULL\<rparr>"
  obtain s0 where s0: "save_current s = Some s0" "updateProcessTime s0 = Some ?s1"
    using stop by (auto split: Option.bind_splits)
  have "block_current M a s = scheduler M ?s'"
    unfolding block_current_def s0(1) Option.bind.bind_lunit s0(2) c1 b(1) by simp
  moreover have "\<forall>b. load_int M b ?s' = load_int M b s"
    by (intro allI load_int_lists) simp_all
  ultimately show ?thesis using b(2,3) by (intro exI [of _ ?s'] exI [of _ R']) simp
qed

end
