(* ===== verification/Devices.thy ===== *)
theory Devices
  imports Sync
begin

text \<open>
  \<open>phase2/devices.c\<close>: the device registers, the semaphores of the devices, and the
  handler of a device interrupt.
\<close>

section \<open>Constants of lib/pandos_const.h\<close>

definition DEVICESTATUSMASK :: u32 where "DEVICESTATUSMASK = 0xFF"
definition DEVREG_START_ADDR :: u32 where "DEVREG_START_ADDR = 0x10000054"
definition DEVREG_END_ADDR :: u32 where "DEVREG_END_ADDR = 0x10000254"
definition TERMREG_START_ADDR :: u32 where "TERMREG_START_ADDR = 0x10000254"
definition TERMREG_END_ADDR :: u32 where "TERMREG_END_ADDR = 0x10000264"
definition INTDEV_BITMAP :: u32 where "INTDEV_BITMAP = 0x10000040"
definition DISK_INTLINE :: nat where "DISK_INTLINE = 3"
definition FLASH_INTLINE :: nat where "FLASH_INTLINE = 4"
definition NET_INTLINE :: nat where "NET_INTLINE = 5"
definition PRINTER_INTLINE :: nat where "PRINTER_INTLINE = 6"
definition TERM_INTLINE :: nat where "TERM_INTLINE = 7"
definition RECEIVED :: u32 where "RECEIVED = 5"
definition TRANSMITTED :: u32 where "TRANSMITTED = 5"

definition DEVADDR :: "nat \<Rightarrow> nat \<Rightarrow> u32" where
  "DEVADDR line dev = DEVREG_START_ADDR + of_nat (line - 3) * 0x80 + of_nat dev * 0x10"

declare DEVREG_START_ADDR_def [device_regs] TERMREG_START_ADDR_def [device_regs]
  TERMREG_END_ADDR_def [device_regs] INTDEV_BITMAP_def [device_regs] DEVADDR_def [device_regs]

section \<open>Addresses\<close>

definition resolveDeviceAddress :: "machine \<Rightarrow> u32 \<Rightarrow> int" where
  "resolveDeviceAddress M memaddress =
     (if memaddress < DEVREG_START_ADDR then -1
      else if DEVREG_START_ADDR \<le> memaddress \<and> memaddress < TERMREG_START_ADDR
      then int (unat ((memaddress - DEVREG_START_ADDR) div DEVREGSIZE M))
      else if TERMREG_START_ADDR \<le> memaddress \<and> memaddress < TERMREG_END_ADDR
      then int (unat ((TERMREG_START_ADDR - DEVREG_START_ADDR) div DEVREGSIZE M +
                      (memaddress - TERMREG_START_ADDR) div (DEVREGSIZE M div 2)))
      else -1)"

definition resolveSemAddr :: "machine \<Rightarrow> u32 \<Rightarrow> int" where
  "resolveSemAddr M semaddr =
     (if in_sysiostates M semaddr
      then int (unat ((semaddr - sysiostates_addr M) div SIZEOF_SYSIOSTATE))
      else -1)"

definition getNumRegister :: "u32 \<Rightarrow> int" where
  "getNumRegister cmdAddr =
     (if DEVREG_START_ADDR \<le> cmdAddr \<and> cmdAddr < DEVREG_END_ADDR then 4
      else if TERMREG_START_ADDR \<le> cmdAddr \<and> cmdAddr < TERMREG_END_ADDR then 2
      else -1)"

definition isTermReg :: "u32 \<Rightarrow> bool" where
  "isTermReg addr \<longleftrightarrow> TERMREG_START_ADDR \<le> addr \<and> addr < TERMREG_END_ADDR"

text \<open>
  \<open>devreg_addr\<close> counts words, so \<open>devreg_addr + sizeof(termdev_t) / sizeof(int)\<close> is eight
  bytes further.
\<close>

definition findDevRegAddr :: "machine \<Rightarrow> nat \<Rightarrow> kernel \<Rightarrow> u32 option" where
  "findDevRegAddr M device_type s = do {
     bitmap \<leftarrow> load_int M (INTDEV_BITMAP + 4 * of_nat (device_type - 3)) s;
     let devreg_addr = (case List.find (\<lambda>i. bitmap AND push_bit i 1 \<noteq> 0) [0..<8] of
                          None \<Rightarrow> 0 | Some i \<Rightarrow> DEVADDR device_type i);
     if isTermReg devreg_addr then do {
       status \<leftarrow> load_int M (devreg_addr + 8) s;
       Some (if status AND DEVICESTATUSMASK = TRANSMITTED then devreg_addr + 8 else devreg_addr)
     } else Some devreg_addr
   }"

definition ackDevice :: "machine \<Rightarrow> u32 \<Rightarrow> kernel \<Rightarrow> kernel option" where
  "ackDevice M devreg_addr s =
     (if DEVREG_START_ADDR \<le> devreg_addr \<and> devreg_addr < TERMREG_END_ADDR
      then store_int M (devreg_addr + 4) (ACK M) s else Some s)"

definition setReturnValue :: "machine \<Rightarrow> int \<Rightarrow> u32 \<Rightarrow> kernel \<Rightarrow> kernel option" where
  "setReturnValue M dev_num devreg_addr s = do {
     status \<leftarrow> load_int M devreg_addr s;
     io \<leftarrow> get_sysio dev_num s;
     let ok = (if isTermReg devreg_addr
               then status AND DEVICESTATUSMASK = TRANSMITTED OR RECEIVED
               else status AND DEVICESTATUSMASK = READY M);
     upd_pcb (\<lambda>c. c\<lparr>p_s := (p_s c)\<lparr>reg_v0 := if ok then 0 else - 1\<rparr>\<rparr>) (waiting_process io) s
   }"

section \<open>Input and output\<close>

text \<open>The loop that copies the registers of a device, from one array to the other.\<close>

definition copy_registers :: "machine \<Rightarrow> int \<Rightarrow> u32 \<Rightarrow> u32 \<Rightarrow> kernel \<Rightarrow> kernel option" where
  "copy_registers M n to' from' s = for_upto (nat n) (\<lambda>i s. do {
     v \<leftarrow> load_int M (from' + 4 * of_nat i) s;
     store_int M (to' + 4 * of_nat i) v s
   }) s"

definition beginIO :: "machine \<Rightarrow> int \<Rightarrow> pcb ptr \<Rightarrow> kernel \<Rightarrow> unit outcome option" where
  "beginIO M devnum process s = do {
     s \<leftarrow> upd_sysio devnum (waiting_process_update (\<lambda>_. process)) s;
     c \<leftarrow> get_pcb process s;
     s \<leftarrow> copy_registers M (getNumRegister (cmd_addr c)) (cmd_addr c) (cmd_values c) s;
     let s = s\<lparr>g_soft_block_count := g_soft_block_count s + 1\<rparr>;
     sysPasseren M (sem_sync_addr M (nat devnum)) s
   }"

definition endIO :: "machine \<Rightarrow> int \<Rightarrow> kernel \<Rightarrow> kernel option" where
  "endIO M devnum s = do {
     io \<leftarrow> get_sysio devnum s;
     c \<leftarrow> get_pcb (waiting_process io) s;
     s \<leftarrow> copy_registers M (getNumRegister (cmd_addr c)) (cmd_values c) (cmd_addr c) s;
     Some (s\<lparr>g_soft_block_count := g_soft_block_count s - 1\<rparr>)
   }"

definition handleDeviceInt :: "machine \<Rightarrow> nat \<Rightarrow> kernel \<Rightarrow> unit outcome option" where
  "handleDeviceInt M device_type s = do {
     devreg_addr \<leftarrow> findDevRegAddr M device_type s;
     if devreg_addr = 0 then Some (Returns () s)
     else do {
       let dev_num = resolveDeviceAddress M devreg_addr;
       io \<leftarrow> get_sysio dev_num s;
       s \<leftarrow> (if sem_sync io \<noteq> - 1 then do {
               s \<leftarrow> endIO M dev_num s;
               setReturnValue M dev_num devreg_addr s
             } else Some s);
       s \<leftarrow> ackDevice M devreg_addr s;
       r \<leftarrow> sysVerhogen M (sem_sync_addr M (nat dev_num)) s;
       returning r (\<lambda>_ s. do {
         (removed_pcb, s) \<leftarrow> removeBlocked (sem_mut_addr M (nat dev_num)) s;
         if removed_pcb \<noteq> NULL then beginIO M dev_num removed_pcb s
         else do {
           s \<leftarrow> upd_sysio dev_num (waiting_process_update (\<lambda>_. NULL)) s;
           s \<leftarrow> upd_sysio dev_num (\<lambda>io. io\<lparr>sem_mut := sem_mut io + 1\<rparr>) s;
           Some (Returns () s)
         }
       })
     }
   }"

end
