(* ===== verification/Syscall.thy ===== *)
theory Syscall
  imports Devices
begin

text \<open>
  \<open>phase2/syscall.c\<close>, but for the semaphore operations (theory \<open>Sync\<close>) and the
  dispatcher (theory \<open>Exceptions\<close>).  The recursions of \<open>terminateProcess\<close> and
  \<open>getChildsByNamespace\<close> over the process tree have a fuel; a tree of distinct processes
  is at most \<open>MAX_PROC\<close> deep (\<open>height_MAX_PROC\<close>).
\<close>

section \<open>Creation and termination\<close>

definition sysCreateProcess ::
  "machine \<Rightarrow> u32 \<Rightarrow> u32 \<Rightarrow> nsd ptr \<Rightarrow> kernel \<Rightarrow> (u32 \<times> kernel) option" where
  "sysCreateProcess M statep supportp ns s = do {
     (pcb, s) \<leftarrow> allocPcb s;
     if pcb = NULL then Some (- 1, s)
     else do {
       let s = s\<lparr>g_process_count := g_process_count s + 1\<rparr>;
       st \<leftarrow> load_state statep s;
       s \<leftarrow> upd_pcb (p_s_update (\<lambda>_. st)) pcb s;
       s \<leftarrow> upd_pcb (p_supportStruct_update (\<lambda>_. supportp)) pcb s;
       s \<leftarrow> (if ns \<noteq> NULL then do {
               (_, s) \<leftarrow> addNamespace MAX_PROC pcb ns s;
               Some s
             } else for_upto NS_TYPE_MAX (\<lambda>i s. do {
               c \<leftarrow> get_pcb (g_current_process s) s;
               upd_pcb (\<lambda>p. p\<lparr>namespaces := (namespaces p)(i := namespaces c i)\<rparr>) pcb s
             }) s);
       s \<leftarrow> insertProcQ (Ref Ready_queue) pcb s;
       s \<leftarrow> insertChild (g_current_process s) pcb s;
       Some (pcb_addr M pcb, s)
     }
   }"

definition isDeviceSemaphore :: "machine \<Rightarrow> u32 \<Rightarrow> bool" where
  "isDeviceSemaphore M semaddr \<longleftrightarrow>
     (semaddr - sysiostates_addr M) mod SIZEOF_SYSIOSTATE \<le> 2 * 4 \<and>
     sysiostates_addr M \<le> semaddr \<and> semaddr < sysiostates_end M"

primrec terminateProcess :: "machine \<Rightarrow> nat \<Rightarrow> pcb ptr \<Rightarrow> kernel \<Rightarrow> kernel option" where
  "terminateProcess M 0 pcb s = None"
| "terminateProcess M (Suc n) pcb s = do {
     c \<leftarrow> get_pcb pcb s;
     let blocked_sem = p_semAdd c;
     s \<leftarrow> (if blocked_sem \<noteq> 0 then do {
             (removed_pcb, s) \<leftarrow> outBlocked pcb s;
             let semnum = resolveSemAddr M blocked_sem;
             if removed_pcb \<noteq> NULL \<and> isDeviceSemaphore M blocked_sem then do {
               io \<leftarrow> get_sysio semnum s;
               if waiting_process io = pcb then do {
                 let s = s\<lparr>g_soft_block_count := g_soft_block_count s - 1\<rparr>;
                 upd_sysio semnum (sem_sync_update (\<lambda>_. - 1)) s
               } else Some s
             } else Some s
           } else Some s);
     s \<leftarrow> drain (removeChild pcb) (\<lambda>child_pcb s. terminateProcess M n child_pcb s) s;
     let s = s\<lparr>g_process_count := g_process_count s - 1\<rparr>;
     freePcb pcb s
   }"

definition sysTerminateProcess :: "machine \<Rightarrow> u32 \<Rightarrow> kernel \<Rightarrow> unit outcome option" where
  "sysTerminateProcess M pid s = do {
     current \<leftarrow> pcb_at M pid;
     let current = (if current = NULL then g_current_process s else current);
     (_, s) \<leftarrow> outChild current s;
     s \<leftarrow> terminateProcess M MAX_PROC current s;
     scheduler M s
   }"

section \<open>Input and output, time and clock\<close>

definition sysDoIO :: "machine \<Rightarrow> u32 \<Rightarrow> u32 \<Rightarrow> kernel \<Rightarrow> u32 outcome option" where
  "sysDoIO M cmdAddr cmdValues s = (let dev_num = resolveDeviceAddress M cmdAddr in
     if dev_num = - 1 then Some (Exits PANIC s)
     else do {
       s \<leftarrow> upd_pcb (cmd_addr_update (\<lambda>_. cmdAddr)) (g_current_process s) s;
       s \<leftarrow> upd_pcb (cmd_values_update (\<lambda>_. cmdValues)) (g_current_process s) s;
       r \<leftarrow> sysPasseren M (sem_mut_addr M (nat dev_num)) s;
       returning r (\<lambda>_ s. do {
         r \<leftarrow> beginIO M dev_num (g_current_process s) s;
         returning r (\<lambda>_ s. Some (Returns 0 s))
       })
     })"

definition sysGetTime :: "kernel \<Rightarrow> (u32 \<times> kernel) option" where
  "sysGetTime s = do {
     c \<leftarrow> get_pcb (g_current_process s) s;
     let (t, s) = getPassedTime s;
     Some (p_time c + t, s)
   }"

definition sysClockWait :: "machine \<Rightarrow> kernel \<Rightarrow> unit outcome option" where
  "sysClockWait M s =
     sysPasseren M (pseudo_clock_addr M) (s\<lparr>g_soft_block_count := g_soft_block_count s + 1\<rparr>)"

section \<open>Information about processes\<close>

definition sysGetSupportPtr :: "kernel \<Rightarrow> u32 option" where
  "sysGetSupportPtr s = do {
     c \<leftarrow> get_pcb (g_current_process s) s;
     Some (p_supportStruct c)
   }"

definition sysGetProcessID :: "machine \<Rightarrow> u32 \<Rightarrow> kernel \<Rightarrow> u32 option" where
  "sysGetProcessID M is_parent s = do {
     c \<leftarrow> get_pcb (g_current_process s) s;
     let parent_pcb = p_parent c;
     parent_namespace \<leftarrow> (if parent_pcb \<noteq> NULL then getNamespace parent_pcb PID_NS s else Some NULL);
     current_namespace \<leftarrow> getNamespace (g_current_process s) PID_NS s;
     if is_parent = 0 then Some (pcb_addr M (g_current_process s))
     else if parent_namespace \<noteq> current_namespace then Some 0
     else Some (pcb_addr M parent_pcb)
   }"

text \<open>The result, \<open>*used_size\<close> and the state.\<close>

primrec getChildsByNamespace ::
  "machine \<Rightarrow> nat \<Rightarrow> u32 \<Rightarrow> int \<Rightarrow> int \<Rightarrow> nsd ptr \<Rightarrow> pcb ptr \<Rightarrow> kernel \<Rightarrow> (int \<times> int \<times> kernel) option"
where
  "getChildsByNamespace M 0 children total_size used_size current_namespace pcb s = None"
| "getChildsByNamespace M (Suc n) children total_size used_size current_namespace pcb s = do {
     ns \<leftarrow> getNamespace pcb PID_NS s;
     if ns \<noteq> current_namespace then Some (0, used_size, s)
     else do {
       (used_size, s) \<leftarrow> (if used_size < total_size \<and> pcb \<noteq> g_current_process s then do {
           s \<leftarrow> store_int M (children + 4 * of_int used_size) (pcb_addr M pcb) s;
           Some (used_size + 1, s)
         } else Some (used_size, s));
       (same_namespace_num, used_size, s) \<leftarrow> list_for_each
         (\<lambda>pos (num, used_size, s). do {
            curr_pcb \<leftarrow> pcb_of_p_sib pos;
            (k, used_size, s) \<leftarrow>
              getChildsByNamespace M n children total_size used_size current_namespace curr_pcb s;
            Some (False, num + k, used_size, s)
          }) (\<lambda>(_, _, s). lh s) (p_child pcb) (0, used_size, s);
       Some (same_namespace_num + 1, used_size, s)
     }
   }"

definition sysGetChildren :: "machine \<Rightarrow> u32 \<Rightarrow> u32 \<Rightarrow> kernel \<Rightarrow> (u32 \<times> kernel) option" where
  "sysGetChildren M children size' s = do {
     current_namespace \<leftarrow> getNamespace (g_current_process s) PID_NS s;
     (n, _, s) \<leftarrow> getChildsByNamespace M MAX_PROC children (sint size') 0 current_namespace
                   (g_current_process s) s;
     Some (of_int (n - 1), s)
   }"

end
