(* ===== verification/Process_Tree.thy ===== *)
theory Process_Tree
  imports Syscall
begin

text \<open>
  What \<open>terminateProcess\<close> does to a tree of processes: every process of the tree leaves the
  queue in which it is and becomes a free descriptor, children before their parent.
\<close>

section \<open>Where a process can be\<close>

definition kstate :: "kernel \<Rightarrow> lnode rmap \<Rightarrow> ash \<Rightarrow> pcb list \<Rightarrow> pcb list \<Rightarrow> bool" where
  "kstate s R A rq fs \<longleftrightarrow> ash s R A \<and> R Ready_queue = Some (map P_list rq) \<and>
     R PcbFree_h = Some (map P_list fs)"

text \<open>A process is ready, blocked on a semaphore, or (the current one) in no queue.\<close>

definition placed :: "lnode rmap \<Rightarrow> ash \<Rightarrow> pcb list \<Rightarrow> pcb \<Rightarrow> bool" where
  "placed R A rq p \<longleftrightarrow> p \<in> set rq \<or> (\<exists>k. p \<in> set (A k)) \<or> R (P_list p) = Some []"

lemma kstateD:
  assumes "kstate s R A rq fs"
  shows "ash s R A" "rings (lh s) R" "R Ready_queue = Some (map P_list rq)" "R PcbFree_h = Some (map P_list fs)"
  using assms ash_rings by (auto simp: kstate_def)

lemma kstate_transfer:
  assumes "kstate s R A rq fs" "lh s' = lh s" "hh s' = hh s" "s_key s' = s_key s"
    and "\<And>k p. p \<in> set (A k) \<Longrightarrow> p_semAdd (pcbs s' p) = p_semAdd (pcbs s p)"
  shows "kstate s' R A rq fs"
proof -
  note D = kstateD [OF assms(1)]
  have "ash s' R A"
    by (rule ash_transfer [OF D(1)]) (use D(2) assms in \<open>simp_all add: keeps_sems_def\<close>)
  with D(3,4) show ?thesis by (simp add: kstate_def)
qed

section \<open>Freeing a process\<close>

lemma unlink_placed:
  assumes R: "rings h R" "R Ready_queue = Some (map P_list rq)" and p: "p \<in> set rq \<or> R (P_list p) = Some []"
  shows "unlink (P_list p) R = R(Ready_queue \<mapsto> map P_list (removeAll p rq), P_list p := None)"
    "loose (P_list p) R"
proof -
  note sh = rings_shape [OF R(1)]
  have d: "distinct rq" using ringsD(2) [OF R] by (simp add: distinct_map)
  show "loose (P_list p) R" using p R(2) unfolding loose_def by (metis image_eqI list.set_map)
  show "unlink (P_list p) R = R(Ready_queue \<mapsto> map P_list (removeAll p rq), P_list p := None)"
  proof (cases "p \<in> set rq")
    case True
    then obtain us vs where rq: "rq = us @ p # vs" by (meson split_list)
    have "R (P_list p) = None"
    proof (rule ccontr)
      assume "R (P_list p) \<noteq> None"
      then have "in_ring R (P_list p) (P_list p)" by (auto simp: in_ring_def)
      moreover have "in_ring R Ready_queue (P_list p)" using R(2) True by (auto simp: in_ring_def)
      ultimately have "P_list p = Ready_queue" by (rule in_ring_unique [OF sh])
      then show False by simp
    qed
    moreover have "removeAll p rq = us @ vs" using d unfolding rq by (rule removeAll_split)
    ultimately show ?thesis
      using unlink_member [OF sh, of Ready_queue "map P_list us" "P_list p" "map P_list vs"] R(2) rq
      by (auto simp: fun_eq_iff)
  next
    case False
    then have "R (P_list p) = Some []" using p by simp
    with False R(2) show ?thesis
      using unlink_self [OF sh] by (auto simp: fun_eq_iff removeAll_id)
  qed
qed

lemma freePcb_placed:
  assumes k: "kstate s R A rq fs" and p: "p \<in> set rq \<or> R (P_list p) = Some []" "p \<notin> set fs"
  shows "\<exists>h. freePcb (Ref p) s = Some (s\<lparr>lh := h\<rparr>) \<and>
     kstate (s\<lparr>lh := h\<rparr>) (R(Ready_queue \<mapsto> map P_list (removeAll p rq), P_list p := None,
        PcbFree_h \<mapsto> map P_list (p # fs))) A (removeAll p rq) (p # fs)"
proof -
  note D = kstateD [OF k]
  note u = unlink_placed [OF D(2,3) p(1)]
  let ?R' = "R(Ready_queue \<mapsto> map P_list (removeAll p rq), P_list p := None, PcbFree_h \<mapsto> map P_list (p # fs))"
  obtain h where h: "freePcb (Ref p) s = Some (s\<lparr>lh := h\<rparr>)" "rings h ?R'"
    using freePcb_rings [OF D(2,4) u(2)] p(2) unfolding u(1) by (auto simp: removeAll_id)
  have "ash (s\<lparr>lh := h\<rparr>) ?R' A"
  proof (rule ash_transfer [OF D(1)])
    show "keeps_sems R ?R'"
      unfolding keeps_sems_def
      using D(3,4) by (auto simp: vacant_def not_in_nodes split: if_splits)
  qed (use h(2) in simp_all)
  then show ?thesis using h(1) by (intro exI [of _ h]) (simp add: kstate_def)
qed

section \<open>Leaving a semaphore\<close>

text \<open>
  The first part of \<open>terminateProcess\<close>: the process leaves the queue of its semaphore, and
  when it waits for a device, the operation of the device is marked as abandoned.
\<close>

definition unblock :: "machine \<Rightarrow> pcb ptr \<Rightarrow> kernel \<Rightarrow> kernel option" where
  "unblock M pcb s = do {
     c \<leftarrow> get_pcb pcb s;
     let blocked_sem = p_semAdd c;
     if blocked_sem \<noteq> 0 then do {
       (removed_pcb, s) \<leftarrow> outBlocked pcb s;
       let semnum = resolveSemAddr M blocked_sem;
       if removed_pcb \<noteq> NULL \<and> isDeviceSemaphore M blocked_sem then do {
         io \<leftarrow> get_sysio semnum s;
         if waiting_process io = pcb then do {
           let s = s\<lparr>g_soft_block_count := g_soft_block_count s - 1\<rparr>;
           upd_sysio semnum (sem_sync_update (\<lambda>_. - 1)) s
         } else Some s
       } else Some s
     } else Some s
   }"

lemma terminateProcess_unblock:
  "terminateProcess M (Suc n) pcb s = do {
     s \<leftarrow> unblock M pcb s;
     s \<leftarrow> drain (removeChild pcb) (\<lambda>child_pcb s. terminateProcess M n child_pcb s) s;
     let s = s\<lparr>g_process_count := g_process_count s - 1\<rparr>;
     freePcb pcb s
   }"
  by (simp add: unblock_def Let_def)

text \<open>The device whose operation a process waits for, seen from its semaphore.\<close>

definition io_of :: "machine \<Rightarrow> kernel \<Rightarrow> pcb \<Rightarrow> nat option" where
  "io_of M s p = (let k = p_semAdd (pcbs s p); d = nat (resolveSemAddr M k) in
     if k \<noteq> 0 \<and> isDeviceSemaphore M k \<and> waiting_process (g_sysiostates s d) = Ref p then Some d else None)"

lemma resolveSemAddr_bound:
  assumes "machine_ok M" "in_sysiostates M a"
  shows "\<exists>d < DEVICE_NUMBER. resolveSemAddr M a = int d"
proof -
  let ?b = "unat (sysiostates_addr M)"
  have b: "?b + 12 * DEVICE_NUMBER < 2 ^ 32" using assms(1) by (simp add: machine_ok_def)
  have "sysiostates_end M = of_nat (?b + 12 * DEVICE_NUMBER)"
    by (simp add: sysiostates_end_def SIZEOF_SYSIOSTATE_def)
  then have e: "unat (sysiostates_end M) = ?b + 12 * DEVICE_NUMBER"
    using b unat_of_nat_small by metis
  have a: "?b \<le> unat a" "unat a < ?b + 12 * DEVICE_NUMBER"
    using assms(2) e by (auto simp: in_sysiostates_def word_le_nat_alt word_less_nat_alt)
  then have "unat (a - sysiostates_addr M) = unat a - ?b"
    by (simp add: unat_sub word_le_nat_alt)
  then have "unat ((a - sysiostates_addr M) div SIZEOF_SYSIOSTATE) < DEVICE_NUMBER"
    using a by (simp add: SIZEOF_SYSIOSTATE_def unat_div less_mult_imp_div_less)
  then show ?thesis using assms(2) unfolding resolveSemAddr_def
    by (intro exI [of _ "unat ((a - sysiostates_addr M) div SIZEOF_SYSIOSTATE)"]) simp
qed

text \<open>
  The state after the processes \<open>ps\<close> have been unblocked and \<open>n\<close> of them have been
  counted out.
\<close>

definition killed ::
  "machine \<Rightarrow> kernel \<Rightarrow> pcb list \<Rightarrow> nat \<Rightarrow> lnode lheap \<Rightarrow> (nat, semd) hheap \<Rightarrow> kernel" where
  "killed M s ps n h x = s\<lparr>lh := h, hh := x,
     pcbs := (\<lambda>q. if q \<in> set ps then (pcbs s q)\<lparr>p_semAdd := 0\<rparr> else pcbs s q),
     g_process_count := g_process_count s - of_nat n,
     g_soft_block_count := g_soft_block_count s - of_nat (length (filter (\<lambda>p. io_of M s p \<noteq> None) ps)),
     g_sysiostates := (\<lambda>d. if \<exists>p \<in> set ps. io_of M s p = Some d
                            then (g_sysiostates s d)\<lparr>sem_sync := - 1\<rparr> else g_sysiostates s d)\<rparr>"

lemma io_of_killed:
  assumes "q \<notin> set ps"
  shows "io_of M (killed M s ps n h x) q = io_of M s q"
  using assms by (simp add: io_of_def killed_def Let_def)

lemma killed_compose:
  assumes "set ps \<inter> set qs = {}"
  shows "killed M (killed M s ps n h1 x1) qs m h2 x2 = killed M s (ps @ qs) (n + m) h2 x2"
proof -
  have q: "io_of M (killed M s ps n h1 x1) q = io_of M s q" if "q \<in> set qs" for q
    using assms that by (intro io_of_killed) auto
  have f: "filter (\<lambda>p. io_of M (killed M s ps n h1 x1) p \<noteq> None) qs = filter (\<lambda>p. io_of M s p \<noteq> None) qs"
    by (rule filter_cong) (simp_all add: q)
  have e: "(\<exists>p \<in> set qs. io_of M (killed M s ps n h1 x1) p = Some d) \<longleftrightarrow> (\<exists>p \<in> set qs. io_of M s p = Some d)" for d
    by (simp add: q)
  show ?thesis
    unfolding killed_def [of M "killed M s ps n h1 x1"] f e
    by (rule kernel.equality) (auto simp: killed_def fun_eq_iff algebra_simps)
qed

lemma killed_nil: "killed M s [] 0 (lh s) (hh s) = s"
  by (simp add: killed_def)

lemma unblock_kstate:
  assumes M: "machine_ok M" and k: "kstate s R A rq fs" "A 0 = []" and p: "placed R A rq p"
    and sp: "p_semAdd (pcbs s p) \<noteq> 0 \<Longrightarrow> p \<in> set (A (p_semAdd (pcbs s p)))"
  shows "\<exists>h x R'. unblock M (Ref p) s = Some (killed M s [p] 0 h x) \<and>
     kstate (killed M s [p] 0 h x) R' (\<lambda>k. removeAll p (A k)) rq fs \<and>
     (p \<in> set rq \<or> R' (P_list p) = Some []) \<and>
     (\<forall>q. \<not> sem_node q \<longrightarrow> q \<noteq> P_list p \<longrightarrow> R' q = R q) \<and> no_tree_entries R R'"
proof (cases "p_semAdd (pcbs s p) = 0")
  case True
  note D = kstateD [OF k(1)]
  have out: "p \<notin> set (A k)" for k
    using ash_key_unique [OF D(1), of p k] True k(2) by auto
  then have "(\<lambda>k. removeAll p (A k)) = A" by (simp add: fun_eq_iff removeAll_id)
  moreover have "killed M s [p] 0 (lh s) (hh s) = s"
    using True by (simp add: killed_def io_of_def Let_def fun_eq_iff)
  moreover have "unblock M (Ref p) s = Some s" using True by (simp add: unblock_def)
  moreover have "p \<in> set rq \<or> R (P_list p) = Some []" using p out by (auto simp: placed_def)
  ultimately show ?thesis
    using k(1) by (intro exI [of _ "lh s"] exI [of _ "hh s"] exI [of _ R]) simp
next
  case False
  let ?k = "p_semAdd (pcbs s p)"
  note D = kstateD [OF k(1)]
  note pk = sp [OF False]
  from outBlocked_ash [OF D(1) pk] obtain h x R' where
    o: "outBlocked (Ref p) s = Some (Ref p, s\<lparr>lh := h, hh := x, pcbs := (pcbs s)(p := (pcbs s p)\<lparr>p_semAdd := 0\<rparr>)\<rparr>)"
    "ash (s\<lparr>lh := h, hh := x, pcbs := (pcbs s)(p := (pcbs s p)\<lparr>p_semAdd := 0\<rparr>)\<rparr>) R' (A(?k := removeAll p (A ?k)))"
    "same_elsewhere (R(P_list p \<mapsto> [])) R'" by blast
  let ?s1 = "s\<lparr>lh := h, hh := x, pcbs := (pcbs s)(p := (pcbs s p)\<lparr>p_semAdd := 0\<rparr>)\<rparr>"
  have A': "A(?k := removeAll p (A ?k)) = (\<lambda>k. removeAll p (A k))"
  proof
    fix j show "(A(?k := removeAll p (A ?k))) j = removeAll p (A j)"
    proof (cases "j = ?k")
      case False
      then have "p \<notin> set (A j)" using ash_key_unique [OF D(1), of p j] by auto
      with False show ?thesis by (simp add: removeAll_id)
    qed simp
  qed
  have R'q: "R' q = (R(P_list p \<mapsto> [])) q" if "\<not> sem_node q" for q
    using o(3) that by (simp add: same_elsewhere_def)
  then have k1: "kstate ?s1 R' (\<lambda>k. removeAll p (A k)) rq fs"
    using o(2) D(3,4) unfolding A' by (simp add: kstate_def)
  have "no_tree_entries R R'"
    by (rule no_tree_entries_trans [of _ "R(P_list p \<mapsto> [])"])
      (use o(3) in \<open>auto simp: same_elsewhere_def no_tree_entries_def\<close>)
  moreover have "unblock M (Ref p) s = Some (killed M s [p] 0 h x)"
  proof (cases "isDeviceSemaphore M ?k")
    case dev: True
    then have "in_sysiostates M ?k" by (simp add: isDeviceSemaphore_def in_sysiostates_def)
    then obtain d where d: "d < DEVICE_NUMBER" "resolveSemAddr M ?k = int d"
      using resolveSemAddr_bound [OF M] by blast
    then show ?thesis
      using False dev o(1) by (simp add: unblock_def killed_def io_of_def Let_def fun_eq_iff) 
  next
    case False
    with \<open>?k \<noteq> 0\<close> o(1) show ?thesis
      by (simp add: unblock_def killed_def io_of_def Let_def fun_eq_iff)
  qed
  moreover have "kstate (killed M s [p] 0 h x) R' (\<lambda>k. removeAll p (A k)) rq fs"
    by (rule kstate_transfer [OF k1]) (auto simp: killed_def)
  ultimately show ?thesis using R'q by (intro exI [of _ h] exI [of _ x] exI [of _ R']) auto
qed

section \<open>Terminating a tree\<close>

fun postorder :: "ptree \<Rightarrow> pcb list" where
  "postorder (PNode p ts) = concat (map postorder ts) @ [p]"

lemma set_postorder [simp]: "set (postorder t) = set (members t)"
  by (induction t) auto

definition keep :: "pcb list \<Rightarrow> pcb list \<Rightarrow> pcb list" where
  "keep ps xs = filter (\<lambda>q. q \<notin> set ps) xs"

lemma keep_simps [simp]: "keep [] xs = xs" "keep ps [] = []" "set (keep ps xs) = set xs - set ps"
  by (auto simp: keep_def)

lemma keep_append: "keep qs (keep ps xs) = keep (ps @ qs) xs"
  by (auto simp: keep_def intro: filter_cong)

lemma removeAll_keep: "removeAll p xs = keep [p] xs"
  by (induction xs) (auto simp: keep_def)

lemma sem_ptrs_killed:
  "sem_ptrs s A \<Longrightarrow> sem_ptrs (killed M s ps n h x) (\<lambda>k. keep ps (A k))"
  by (auto simp: sem_ptrs_def killed_def)

definition killable :: "lnode rmap \<Rightarrow> ash \<Rightarrow> pcb list \<Rightarrow> pcb list \<Rightarrow> pcb list \<Rightarrow> bool" where
  "killable R A rq fs ps \<longleftrightarrow> distinct ps \<and> set ps \<inter> set fs = {} \<and> (\<forall>p \<in> set ps. placed R A rq p)"

text \<open>The nodes that change when the processes of \<open>P\<close> end.\<close>

fun kill_node :: "pcb set \<Rightarrow> lnode \<Rightarrow> bool" where
  "kill_node P (P_list p) \<longleftrightarrow> p \<in> P" | "kill_node P (P_child p) \<longleftrightarrow> p \<in> P"
| "kill_node P (P_sib p) \<longleftrightarrow> p \<in> P" | "kill_node P Ready_queue \<longleftrightarrow> True"
| "kill_node P PcbFree_h \<longleftrightarrow> True" | "kill_node P q \<longleftrightarrow> sem_node q"

definition kill_frame :: "pcb set \<Rightarrow> lnode set \<Rightarrow> lnode rmap \<Rightarrow> lnode rmap \<Rightarrow> bool" where
  "kill_frame P X R R' \<longleftrightarrow> (\<forall>q. \<not> kill_node P q \<longrightarrow> q \<notin> X \<longrightarrow> R' q = R q) \<and>
     (\<forall>n. tree_node n \<longrightarrow> vacant n R \<longrightarrow> vacant n R')"

lemma kill_frameD:
  assumes "kill_frame P X R R'"
  shows "\<not> kill_node P q \<Longrightarrow> q \<notin> X \<Longrightarrow> R' q = R q" "tree_node n \<Longrightarrow> vacant n R \<Longrightarrow> vacant n R'"
  using assms by (auto simp: kill_frame_def)

lemma kill_node_mono: "kill_node P q \<Longrightarrow> P \<subseteq> Q \<Longrightarrow> kill_node Q q"
  by (cases q) auto

lemma kill_frame_trans:
  assumes "kill_frame P X R R1" "kill_frame Q X R1 R2" "P \<union> Q \<subseteq> U"
  shows "kill_frame U X R R2"
  using assms kill_node_mono [of P _ U] kill_node_mono [of Q _ U] unfolding kill_frame_def
  by (metis le_sup_iff)

lemma tree_at_cong:
  "(\<And>x. x \<in> set (members t) \<Longrightarrow> R' (P_child x) = R (P_child x)) \<Longrightarrow> tree_at R' t = tree_at R t"
  by (induction t) auto

lemma killed_lh: "killed M (s\<lparr>lh := h0\<rparr>) ps n h x = killed M s ps n h x"
  by (rule kernel.equality) (simp_all add: killed_def io_of_def fun_eq_iff)

lemma killable_mono:
  assumes "killable R A rq fs (ps @ qs)"
    and "\<And>x. x \<in> set qs \<Longrightarrow> R' (P_list x) = R (P_list x)" "set fs' \<subseteq> set ps \<union> set fs"
  shows "killable R' (\<lambda>k. keep ps (A k)) (keep ps rq) fs' qs"
  using assms unfolding killable_def placed_def by auto

text \<open>What terminating the processes \<open>ms\<close> (freed in the order \<open>ord\<close>) does.\<close>

definition ended ::
  "machine \<Rightarrow> kernel \<Rightarrow> lnode rmap \<Rightarrow> ash \<Rightarrow> pcb list \<Rightarrow> pcb list \<Rightarrow> pcb list \<Rightarrow> pcb list \<Rightarrow> lnode set \<Rightarrow>
   kernel \<Rightarrow> lnode rmap \<Rightarrow> bool" where
  "ended M s R A rq fs ms ord X s' R' \<longleftrightarrow>
     (\<exists>h x. s' = killed M s ms (length ms) h x) \<and>
     kstate s' R' (\<lambda>k. keep ms (A k)) (keep ms rq) (rev ord @ fs) \<and> kill_frame (set ms) X R R' \<and>
     (\<forall>p \<in> set ms. R' (P_child p) = Some [] \<and> R' (P_sib p) = Some [])"

lemma endedD:
  assumes "ended M s R A rq fs ms ord X s' R'"
  obtains h x where "s' = killed M s ms (length ms) h x"
    "kstate s' R' (\<lambda>k. keep ms (A k)) (keep ms rq) (rev ord @ fs)" "kill_frame (set ms) X R R'"
    "\<And>p. p \<in> set ms \<Longrightarrow> R' (P_child p) = Some [] \<and> R' (P_sib p) = Some []"
  using assms unfolding ended_def by blast

lemma ended_append:
  assumes 1: "ended M s R A rq fs ms ord {P_child p} s1 R1"
    and 2: "ended M s1 R1 (\<lambda>k. keep ms (A k)) (keep ms rq) (rev ord @ fs) ms' ord' {P_child p} s' R'"
    and dis: "set ms \<inter> set ms' = {}" "p \<notin> set ms"
  shows "ended M s R A rq fs (ms @ ms') (ord @ ord') {P_child p} s' R'"
proof -
  obtain h1 x1 where s1: "s1 = killed M s ms (length ms) h1 x1" "kill_frame (set ms) {P_child p} R R1"
      "\<And>q. q \<in> set ms \<Longrightarrow> R1 (P_child q) = Some [] \<and> R1 (P_sib q) = Some []"
    by (rule endedD [OF 1]) blast
  obtain h x where s': "s' = killed M s1 ms' (length ms') h x"
      "kstate s' R' (\<lambda>k. keep ms' (keep ms (A k))) (keep ms' (keep ms rq)) (rev ord' @ rev ord @ fs)"
      "kill_frame (set ms') {P_child p} R1 R'"
      "\<And>q. q \<in> set ms' \<Longrightarrow> R' (P_child q) = Some [] \<and> R' (P_sib q) = Some []"
    by (rule endedD [OF 2]) blast
  have "s' = killed M s (ms @ ms') (length (ms @ ms')) h x"
    unfolding s'(1) s1(1) by (simp add: killed_compose [OF dis(1)])
  moreover have "kill_frame (set (ms @ ms')) {P_child p} R R'"
    by (rule kill_frame_trans [OF s1(2) s'(3)]) simp
  moreover have "R' (P_child q) = Some [] \<and> R' (P_sib q) = Some []" if q: "q \<in> set (ms @ ms')" for q
  proof (cases "q \<in> set ms'")
    case False
    with q dis(2) have "q \<in> set ms" "q \<noteq> p" by auto
    with False s1(3) kill_frameD(1) [OF s'(3), of "P_child q"] kill_frameD(1) [OF s'(3), of "P_sib q"]
    show ?thesis by simp
  qed (rule s'(4))
  ultimately show ?thesis using s'(2) unfolding ended_def keep_append by auto
qed

text \<open>The first child leaves the list of its parent, and its tree ends.\<close>

lemma ended_child:
  assumes R: "R (P_child p) = Some (map P_sib (c # cs))" and c: "c \<in> set ms" "p \<notin> set ms"
    and e: "ended M (s\<lparr>lh := h1\<rparr>) (R(P_child p \<mapsto> map P_sib cs, P_sib c \<mapsto> [])) A rq fs ms ord {} s' R'"
  shows "ended M s R A rq fs ms ord {P_child p} s' R'" "R' (P_child p) = Some (map P_sib cs)"
proof -
  let ?R1 = "R(P_child p \<mapsto> map P_sib cs, P_sib c \<mapsto> [])"
  obtain h x where s': "s' = killed M s ms (length ms) h x"
      "kstate s' R' (\<lambda>k. keep ms (A k)) (keep ms rq) (rev ord @ fs)" "kill_frame (set ms) {} ?R1 R'"
      "\<And>q. q \<in> set ms \<Longrightarrow> R' (P_child q) = Some [] \<and> R' (P_sib q) = Some []"
    by (rule endedD [OF e, unfolded killed_lh]) blast
  have "kill_frame (set ms) {P_child p} R R'"
    unfolding kill_frame_def
  proof (intro conjI allI impI)
    fix q assume q: "\<not> kill_node (set ms) q" "q \<notin> {P_child p}"
    then have "q \<noteq> P_sib c" using c(1) by auto
    with q kill_frameD(1) [OF s'(3) q(1)] show "R' q = R q" by simp
  next
    fix n assume n: "tree_node n" "vacant n R"
    have "n \<notin> nodes ?R1" if "n \<notin> nodes R"
    proof -
      have "n \<notin> set (map P_sib (c # cs))" "n \<noteq> P_child p" using that R unfolding not_in_nodes by blast+
      then show ?thesis using that unfolding not_in_nodes by (auto split: if_splits)
    qed
    then have "vacant n ?R1" using n(2) R by (auto simp: vacant_def)
    then show "vacant n R'" by (rule kill_frameD(2) [OF s'(3) n(1)])
  qed
  with s'(1,2,4) show "ended M s R A rq fs ms ord {P_child p} s' R'" unfolding ended_def by blast
  show "R' (P_child p) = Some (map P_sib cs)"
    using kill_frameD(1) [OF s'(3), of "P_child p"] c(2) by simp
qed

text \<open>What the rest of a forest needs after the first tree has ended.\<close>

lemma ended_rest:
  assumes e: "ended M s R A rq fs ms ord {P_child p} s' R'" and ord: "set ord = set ms"
    and sp: "sem_ptrs s A" and kb: "killable R A rq fs (ms @ ms')" and p: "p \<notin> set ms'"
  shows "kstate s' R' (\<lambda>k. keep ms (A k)) (keep ms rq) (rev ord @ fs)" "sem_ptrs s' (\<lambda>k. keep ms (A k))"
    "killable R' (\<lambda>k. keep ms (A k)) (keep ms rq) (rev ord @ fs) ms'"
    "set (members t) \<subseteq> set ms' \<Longrightarrow> tree_at R' t = tree_at R t"
proof -
  obtain h x where s': "s' = killed M s ms (length ms) h x"
      "kstate s' R' (\<lambda>k. keep ms (A k)) (keep ms rq) (rev ord @ fs)" "kill_frame (set ms) {P_child p} R R'"
    by (rule endedD [OF e]) blast
  show "kstate s' R' (\<lambda>k. keep ms (A k)) (keep ms rq) (rev ord @ fs)" by (rule s'(2))
  show "sem_ptrs s' (\<lambda>k. keep ms (A k))" unfolding s'(1) by (rule sem_ptrs_killed [OF sp])
  have dis: "set ms \<inter> set ms' = {}" using kb by (auto simp: killable_def)
  have same: "R' (P_list x) = R (P_list x)" "R' (P_child x) = R (P_child x)" if "x \<in> set ms'" for x
    using kill_frameD(1) [OF s'(3), of "P_list x"] kill_frameD(1) [OF s'(3), of "P_child x"] that dis p
    by auto
  show "killable R' (\<lambda>k. keep ms (A k)) (keep ms rq) (rev ord @ fs) ms'"
    by (rule killable_mono [OF kb]) (use same ord in auto)
  show "tree_at R' t = tree_at R t" if "set (members t) \<subseteq> set ms'"
    by (rule tree_at_cong) (use same(2) that in auto)
qed

text \<open>The loop over the children.\<close>

lemma removeChild_kstate:
  assumes k: "kstate s R A rq fs" and R: "R (P_child p) = Some (map P_sib (c # cs))"
  shows "\<exists>h. removeChild (Ref p) s = Some (Ref c, s\<lparr>lh := h\<rparr>) \<and>
     kstate (s\<lparr>lh := h\<rparr>) (R(P_child p \<mapsto> map P_sib cs, P_sib c \<mapsto> [])) A rq fs"
proof -
  note D = kstateD [OF k]
  let ?R1 = "R(P_child p \<mapsto> map P_sib cs, P_sib c \<mapsto> [])"
  obtain h where h: "removeChild (Ref p) s = Some (Ref c, s\<lparr>lh := h\<rparr>)" "rings h ?R1"
    using removeChild_rings [OF D(2) R] by blast
  have "ash (s\<lparr>lh := h\<rparr>) ?R1 A"
  proof (rule ash_transfer [OF D(1)])
    show "keeps_sems R ?R1" unfolding keeps_sems_def
      using R by (auto simp: vacant_def not_in_nodes split: if_splits)
  qed (use h(2) in simp_all)
  with h(1) D(3,4) show ?thesis by (intro exI [of _ h]) (simp add: kstate_def)
qed

lemma terminate_children:
  assumes "\<And>t s R A rq fs. t \<in> set ts \<Longrightarrow> kstate s R A rq fs \<Longrightarrow> sem_ptrs s A \<Longrightarrow> tree_at R t \<Longrightarrow>
      R (P_sib (proot t)) = Some [] \<Longrightarrow> killable R A rq fs (members t) \<Longrightarrow>
      \<exists>s' R'. f (Ref (proot t)) s = Some s' \<and> ended M s R A rq fs (members t) (postorder t) {} s' R'"
    and "kstate s R A rq fs" "sem_ptrs s A" "R (P_child p) = Some (map (\<lambda>t. P_sib (proot t)) ts)"
    and "\<And>t. t \<in> set ts \<Longrightarrow> tree_at R t" "killable R A rq fs (concat (map members ts))"
    and "p \<notin> set (concat (map members ts))"
  shows "\<exists>s' R'. drain (removeChild (Ref p)) f s = Some s' \<and>
     ended M s R A rq fs (concat (map members ts)) (concat (map postorder ts)) {P_child p} s' R' \<and>
     R' (P_child p) = Some []"
  using assms
proof (induction ts arbitrary: s R A rq fs)
  case Nil
  have R: "R (P_child p) = Some []" using Nil.prems(4) by simp
  have "drain (removeChild (Ref p)) f s = Some s"
    using removeChild_empty [OF kstateD(2) [OF Nil.prems(2)] R] by (simp add: drain.simps)
  moreover have "ended M s R A rq fs [] [] {P_child p} s R"
    unfolding ended_def kill_frame_def
    using Nil.prems(2) by (intro conjI exI [of _ "lh s"] exI [of _ "hh s"]) (simp_all add: killed_nil)
  ultimately show ?case using R by (intro exI [of _ s] exI [of _ R]) simp
next
  case (Cons t ts)
  let ?c = "proot t" and ?ms = "members t" and ?ms' = "concat (map members ts)"
  have R: "R (P_child p) = Some (map P_sib (?c # map proot ts))" using Cons.prems(4) by (simp add: comp_def)
  from removeChild_kstate [OF Cons.prems(2) R] obtain h1 where
    r: "removeChild (Ref p) s = Some (Ref ?c, s\<lparr>lh := h1\<rparr>)"
      "kstate (s\<lparr>lh := h1\<rparr>) (R(P_child p \<mapsto> map P_sib (map proot ts), P_sib ?c \<mapsto> [])) A rq fs" by blast
  let ?R1 = "R(P_child p \<mapsto> map P_sib (map proot ts), P_sib ?c \<mapsto> [])"
  have sp: "sem_ptrs (s\<lparr>lh := h1\<rparr>) A" using Cons.prems(3) by (simp add: sem_ptrs_def)
  have kb: "killable R A rq fs (?ms @ ?ms')" using Cons.prems(6) by simp
  have dis: "set ?ms \<inter> set ?ms' = {}" "p \<notin> set ?ms" "p \<notin> set ?ms'"
    using kb Cons.prems(7) by (auto simp: killable_def)
  have c: "?c \<in> set ?ms" by (cases t) simp
  have "tree_at ?R1 t = tree_at R t" by (rule tree_at_cong) (use dis(2) in auto)
  then have t1: "tree_at ?R1 t" using Cons.prems(5) by simp
  have kb1: "killable ?R1 A rq fs ?ms" using kb by (auto simp: killable_def placed_def)
  have c1: "?R1 (P_sib ?c) = Some []" by simp
  obtain s2 R2 where e: "f (Ref ?c) (s\<lparr>lh := h1\<rparr>) = Some s2"
      "ended M (s\<lparr>lh := h1\<rparr>) ?R1 A rq fs ?ms (postorder t) {} s2 R2"
    using Cons.prems(1) [OF list.set_intros(1) r(2) sp t1 c1 kb1] by blast
  note e2 = ended_child [OF R c dis(2) e(2)]
  note rest = ended_rest [OF e2(1) set_postorder Cons.prems(3) kb dis(3)]
  have ps: "R2 (P_child p) = Some (map (\<lambda>t. P_sib (proot t)) ts)" using e2(2) by (simp add: comp_def)
  have t2: "tree_at R2 t'" if "t' \<in> set ts" for t'
  proof -
    have "tree_at R2 t' = tree_at R t'" by (rule rest(4)) (use that in auto)
    then show ?thesis using Cons.prems(5) that by simp
  qed
  obtain s' R' where l: "drain (removeChild (Ref p)) f s2 = Some s'"
     "ended M s2 R2 (\<lambda>k. keep ?ms (A k)) (keep ?ms rq) (rev (postorder t) @ fs) ?ms'
        (concat (map postorder ts)) {P_child p} s' R'" "R' (P_child p) = Some []"
  proof -
    have "\<exists>s' R'. drain (removeChild (Ref p)) f s2 = Some s' \<and>
       ended M s2 R2 (\<lambda>k. keep ?ms (A k)) (keep ?ms rq) (rev (postorder t) @ fs) ?ms'
         (concat (map postorder ts)) {P_child p} s' R' \<and> R' (P_child p) = Some []"
      by (rule Cons.IH [OF Cons.prems(1) rest(1,2) ps t2 rest(3) dis(3)]) simp_all
    then show ?thesis using that by blast
  qed
  have "drain (removeChild (Ref p)) f s = Some s'"
    using r(1) e(1) l(1) by (simp add: drain.simps [of _ _ s])
  with ended_append [OF e2(1) l(2) dis(1,2)] l(3) show ?case by auto
qed

lemma killed_count:
  "(killed M s ps n h x)\<lparr>g_process_count := g_process_count (killed M s ps n h x) - 1\<rparr> =
   killed M s ps (Suc n) h x"
  by (rule kernel.equality) (simp_all add: killed_def)

lemma killed_free: "(killed M s ps n h x)\<lparr>lh := h'\<rparr> = killed M s ps n h' x"
  by (rule kernel.equality) (simp_all add: killed_def)

text \<open>The root leaves its queue.\<close>

lemma unblock_ended:
  assumes M: "machine_ok M" and k: "kstate s R A rq fs" "sem_ptrs s A" and p: "placed R A rq p" "p \<notin> set fs"
    and kb: "killable R A rq fs (p # ms)"
  shows "\<exists>h x R1. unblock M (Ref p) s = Some (killed M s [p] 0 h x) \<and>
     kstate (killed M s [p] 0 h x) R1 (\<lambda>k. keep [p] (A k)) rq fs \<and>
     sem_ptrs (killed M s [p] 0 h x) (\<lambda>k. keep [p] (A k)) \<and>
     killable R1 (\<lambda>k. keep [p] (A k)) rq fs ms \<and> (p \<in> set rq \<or> R1 (P_list p) = Some []) \<and>
     (\<forall>q. \<not> sem_node q \<longrightarrow> q \<noteq> P_list p \<longrightarrow> R1 q = R q) \<and> no_tree_entries R R1"
proof -
  have k0: "A 0 = []" and pk: "p_semAdd (pcbs s p) \<noteq> 0 \<Longrightarrow> p \<in> set (A (p_semAdd (pcbs s p)))"
    using k(2) by (auto simp: sem_ptrs_def)
  obtain h x R1 where u: "unblock M (Ref p) s = Some (killed M s [p] 0 h x)"
     "kstate (killed M s [p] 0 h x) R1 (\<lambda>k. keep [p] (A k)) rq fs"
     "p \<in> set rq \<or> R1 (P_list p) = Some []"
     "\<forall>q. \<not> sem_node q \<longrightarrow> q \<noteq> P_list p \<longrightarrow> R1 q = R q" "no_tree_entries R R1"
    using unblock_kstate [OF M k(1) k0 p(1) pk] unfolding removeAll_keep by blast
  have "killable R1 (\<lambda>k. keep [p] (A k)) rq fs ms"
    unfolding killable_def
  proof (intro conjI ballI)
    fix q assume q: "q \<in> set ms"
    then have "q \<noteq> p" "placed R A rq q" using kb by (auto simp: killable_def)
    moreover have "R1 (P_list q) = R (P_list q)" using u(4) \<open>q \<noteq> p\<close> by simp
    ultimately show "placed R1 (\<lambda>k. keep [p] (A k)) rq q" by (auto simp: placed_def)
  qed (use kb in \<open>auto simp: killable_def\<close>)
  with u sem_ptrs_killed [OF k(2)] show ?thesis by blast
qed

text \<open>The root is freed after its children.\<close>

lemma free_ended:
  assumes e: "ended M (killed M s [p] 0 h x) R1 (\<lambda>k. keep [p] (A k)) rq fs ms ord {P_child p} s2 R2"
    and pc: "R2 (P_child p) = Some []" and ord: "set ord = set ms" and p: "p \<notin> set ms" "p \<notin> set fs"
    and R1: "p \<in> set rq \<or> R1 (P_list p) = Some []" "R1 (P_sib p) = Some []"
      "\<And>q. \<not> sem_node q \<Longrightarrow> q \<noteq> P_list p \<Longrightarrow> R1 q = R q" "no_tree_entries R R1"
  shows "\<exists>s' R'. freePcb (Ref p) (s2\<lparr>g_process_count := g_process_count s2 - 1\<rparr>) = Some s' \<and>
     ended M s R A rq fs (p # ms) (ord @ [p]) {} s' R'"
proof -
  obtain h2 x2 where s2: "s2 = killed M (killed M s [p] 0 h x) ms (length ms) h2 x2"
      "kstate s2 R2 (\<lambda>k. keep ms (keep [p] (A k))) (keep ms rq) (rev ord @ fs)"
      "kill_frame (set ms) {P_child p} R1 R2"
      "\<And>q. q \<in> set ms \<Longrightarrow> R2 (P_child q) = Some [] \<and> R2 (P_sib q) = Some []"
    by (rule endedD [OF e]) blast
  have s2': "s2 = killed M s (p # ms) (length ms) h2 x2"
    using s2(1) p(1) by (simp add: killed_compose)
  let ?s3 = "s2\<lparr>g_process_count := g_process_count s2 - 1\<rparr>"
  have k3: "kstate ?s3 R2 (\<lambda>k. keep (p # ms) (A k)) (keep ms rq) (rev ord @ fs)"
    using kstate_transfer [OF s2(2), of ?s3] by (simp add: keep_append)
  have same: "R2 q = R1 q" if "\<not> kill_node (set ms) q" "q \<noteq> P_child p" for q
    using kill_frameD(1) [OF s2(3) that(1)] that(2) by simp
  have "p \<in> set (keep ms rq) \<or> R2 (P_list p) = Some []" using R1(1) same [of "P_list p"] p(1) by auto
  moreover have "p \<notin> set (rev ord @ fs)" using ord p by simp
  ultimately obtain h3 where h3: "freePcb (Ref p) ?s3 = Some (?s3\<lparr>lh := h3\<rparr>)"
      "kstate (?s3\<lparr>lh := h3\<rparr>) (R2(Ready_queue \<mapsto> map P_list (removeAll p (keep ms rq)), P_list p := None,
         PcbFree_h \<mapsto> map P_list (p # rev ord @ fs))) (\<lambda>k. keep (p # ms) (A k)) (removeAll p (keep ms rq))
         (p # rev ord @ fs)" (is "kstate _ ?R3 _ _ _")
    using freePcb_placed [OF k3] by blast
  have "?s3\<lparr>lh := h3\<rparr> = killed M s (p # ms) (length (p # ms)) h3 x2"
    unfolding s2' killed_count killed_free by simp
  moreover have "removeAll p (keep ms rq) = keep (p # ms) rq"
    by (simp add: removeAll_keep keep_append) (simp add: keep_def disj_commute)
  moreover have "kill_frame (set (p # ms)) {} R ?R3"
    unfolding kill_frame_def
  proof (intro conjI allI impI)
    fix q assume q: "\<not> kill_node (set (p # ms)) q"
    then have "\<not> kill_node (set ms) q" "q \<noteq> P_child p" "q \<noteq> P_list p" "q \<noteq> Ready_queue" "q \<noteq> PcbFree_h"
        "\<not> sem_node q"
      by (cases q; simp)+
    with same R1(3) show "?R3 q = R q" by simp
  next
    fix n assume n: "tree_node n" "vacant n R"
    then have "R1 n = R n" by (intro R1(3)) (cases n; simp)+
    then have "vacant n R1" by (rule no_tree_entries_vacant [OF R1(4) _ n])
    then have "vacant n R2" by (rule kill_frameD(2) [OF s2(3) n(1)])
    then show "vacant n ?R3" using n(1) by (auto simp: vacant_def not_in_nodes split: if_splits)
  qed
  moreover have "?R3 (P_child q) = Some [] \<and> ?R3 (P_sib q) = Some []" if "q \<in> set (p # ms)" for q
    using that s2(4) [of q] pc same [of "P_sib p"] p(1) R1(2) by auto
  ultimately have "ended M s R A rq fs (p # ms) (ord @ [p]) {} (?s3\<lparr>lh := h3\<rparr>) ?R3"
    using h3(2) unfolding ended_def by auto
  with h3(1) show ?thesis by blast
qed

lemma terminate_tree:
  assumes M: "machine_ok M"
  shows "height t \<le> n \<Longrightarrow> kstate s R A rq fs \<Longrightarrow> sem_ptrs s A \<Longrightarrow> tree_at R t \<Longrightarrow>
    R (P_sib (proot t)) = Some [] \<Longrightarrow> killable R A rq fs (members t) \<Longrightarrow>
    \<exists>s' R'. terminateProcess M n (Ref (proot t)) s = Some s' \<and>
      ended M s R A rq fs (members t) (postorder t) {} s' R'"
proof (induction t arbitrary: n s R A rq fs)
  case (PNode p ts)
  let ?ms = "concat (map members ts)"
  obtain m where m: "n = Suc m" "\<And>t. t \<in> set ts \<Longrightarrow> height t \<le> m"
    using PNode.prems(1) by (cases n) (auto simp: fold_max_le_iff)
  have kb: "killable R A rq fs (p # ?ms)" using PNode.prems(6) by simp
  then have p: "placed R A rq p" "p \<notin> set fs" "p \<notin> set ?ms" by (auto simp: killable_def)
  from unblock_ended [OF M PNode.prems(2,3) p(1,2) kb] obtain h x R1 where
    u: "unblock M (Ref p) s = Some (killed M s [p] 0 h x)"
     "kstate (killed M s [p] 0 h x) R1 (\<lambda>k. keep [p] (A k)) rq fs"
     "sem_ptrs (killed M s [p] 0 h x) (\<lambda>k. keep [p] (A k))"
     "killable R1 (\<lambda>k. keep [p] (A k)) rq fs ?ms" "p \<in> set rq \<or> R1 (P_list p) = Some []"
     "\<And>q. \<not> sem_node q \<Longrightarrow> q \<noteq> P_list p \<Longrightarrow> R1 q = R q" "no_tree_entries R R1" by blast
  have pc: "R1 (P_child p) = Some (map (\<lambda>t. P_sib (proot t)) ts)" "R1 (P_sib p) = Some []"
    using u(6) [of "P_child p"] u(6) [of "P_sib p"] PNode.prems(4,5) by simp_all
  have ta: "tree_at R1 t" if "t \<in> set ts" for t
  proof -
    have "tree_at R1 t = tree_at R t" by (rule tree_at_cong) (simp add: u(6))
    then show ?thesis using PNode.prems(4) that by simp
  qed
  have IH: "\<exists>s' R'. terminateProcess M m (Ref (proot t)) s = Some s' \<and>
      ended M s R A rq fs (members t) (postorder t) {} s' R'"
    if "t \<in> set ts" "kstate s R A rq fs" "sem_ptrs s A" "tree_at R t" "R (P_sib (proot t)) = Some []"
      "killable R A rq fs (members t)" for t s R A rq fs
    by (rule PNode.IH [OF that(1) m(2) [OF that(1)] that(2-)])
  from terminate_children [OF IH u(2,3) pc(1) ta u(4) p(3)] obtain s2 R2 where
    l: "drain (removeChild (Ref p)) (\<lambda>c. terminateProcess M m c) (killed M s [p] 0 h x) = Some s2"
     "ended M (killed M s [p] 0 h x) R1 (\<lambda>k. keep [p] (A k)) rq fs ?ms (concat (map postorder ts))
        {P_child p} s2 R2" "R2 (P_child p) = Some []" by blast
  have ord: "set (concat (map postorder ts)) = set ?ms" by simp
  from free_ended [OF l(2,3) ord p(3,2) u(5) pc(2) u(6,7)] obtain s' R' where
    f: "freePcb (Ref p) (s2\<lparr>g_process_count := g_process_count s2 - 1\<rparr>) = Some s'"
     "ended M s R A rq fs (p # ?ms) (concat (map postorder ts) @ [p]) {} s' R'" by blast
  have "terminateProcess M n (Ref p) s = Some s'"
    unfolding m(1) terminateProcess_unblock using u(1) l(1) f(1) by simp
  with f(2) show ?case by auto
qed

end
