(* ===== verification/Exceptions.thy ===== *)
theory Exceptions
  imports Syscall
begin

text \<open>
  \<open>phase2/exceptions.c\<close> and the dispatcher of \<open>phase2/syscall.c\<close>.
\<close>

section \<open>Constants\<close>

definition LOCALTIMERINT :: u32 where "LOCALTIMERINT = 0x200"
definition TIMERINTERRUPT :: u32 where "TIMERINTERRUPT = 0x400"
definition DISKINTERRUPT :: u32 where "DISKINTERRUPT = 0x800"
definition FLASHINTERRUPT :: u32 where "FLASHINTERRUPT = 0x1000"
definition PRINTINTERRUPT :: u32 where "PRINTINTERRUPT = 0x4000"
definition TERMINTERRUPT :: u32 where "TERMINTERRUPT = 0x8000"

declare LOCALTIMERINT_def [interrupt_lines] TIMERINTERRUPT_def [interrupt_lines]
  DISKINTERRUPT_def [interrupt_lines] FLASHINTERRUPT_def [interrupt_lines]
  PRINTINTERRUPT_def [interrupt_lines] TERMINTERRUPT_def [interrupt_lines]

definition SYSCALL_CREATEPROCESS :: u32 where "SYSCALL_CREATEPROCESS = 1"
definition SYSCALL_TERMPROCESS :: u32 where "SYSCALL_TERMPROCESS = 2"
definition SYSCALL_PASSEREN :: u32 where "SYSCALL_PASSEREN = 3"
definition SYSCALL_VERHOGEN :: u32 where "SYSCALL_VERHOGEN = 4"
definition SYSCALL_DOIO :: u32 where "SYSCALL_DOIO = 5"
definition SYSCALL_GETTIME :: u32 where "SYSCALL_GETTIME = 6"
definition SYSCALL_CLOCKWAIT :: u32 where "SYSCALL_CLOCKWAIT = 7"
definition SYSCALL_GETSUPPORTPTR :: u32 where "SYSCALL_GETSUPPORTPTR = 8"
definition SYSCALL_GETPROCESSID :: u32 where "SYSCALL_GETPROCESSID = 9"
definition SYSCALL_GETCHILDREN :: u32 where "SYSCALL_GETCHILDREN = 10"

section \<open>Pass up or die\<close>

definition passUpOrDie :: "machine \<Rightarrow> nat \<Rightarrow> kernel \<Rightarrow> unit outcome option" where
  "passUpOrDie M passupType s = do {
     die \<leftarrow> (if g_current_process s = NULL then Some True
             else do { c \<leftarrow> get_pcb (g_current_process s) s; Some (p_supportStruct c = 0) });
     if die then sysTerminateProcess M (pcb_addr M (g_current_process s)) s
     else do {
       c \<leftarrow> get_pcb (g_current_process s) s;
       let a = p_supportStruct c;
       _ \<leftarrow> (if word_pointer a then Some () else None);
       let sup = supports s a;
       let context = sup_exceptContext sup passupType;
       let sup = sup\<lparr>sup_exceptState := (sup_exceptState sup)(passupType := g_old_state s)\<rparr>;
       let s = s\<lparr>supports := (supports s)(a := sup)\<rparr>;
       Some (Exits (LDCXT (stackPtr context) (ctx_status context) (ctx_pc context)) s)
     }
   }"

section \<open>System calls\<close>

definition returns_value :: "(u32 \<times> kernel) option \<Rightarrow> u32 outcome option" where
  "returns_value r = do { (v, s) \<leftarrow> r; Some (Returns v s) }"

text \<open>The operations without a result leave \<open>result\<close> as it was initialised, zero.\<close>

definition returns_zero :: "unit outcome option \<Rightarrow> u32 outcome option" where
  "returns_zero r = do { r \<leftarrow> r; returning r (\<lambda>_ s. Some (Returns 0 s)) }"

definition syscallHandler :: "machine \<Rightarrow> kernel \<Rightarrow> unit outcome option" where
  "syscallHandler M s = do {
     let syscall_code = reg_a0 (g_old_state s);
     let a1 = reg_a1 (g_old_state s);
     let a2 = reg_a2 (g_old_state s);
     let a3 = reg_a3 (g_old_state s);
     r \<leftarrow> (if syscall_code = SYSCALL_CREATEPROCESS
           then do { ns \<leftarrow> nsd_at M a3; returns_value (sysCreateProcess M a1 a2 ns s) }
           else if syscall_code = SYSCALL_TERMPROCESS then returns_zero (sysTerminateProcess M a1 s)
           else if syscall_code = SYSCALL_PASSEREN then returns_zero (sysPasseren M a1 s)
           else if syscall_code = SYSCALL_VERHOGEN then returns_zero (sysVerhogen M a1 s)
           else if syscall_code = SYSCALL_DOIO then sysDoIO M a1 a2 s
           else if syscall_code = SYSCALL_GETTIME then returns_value (sysGetTime s)
           else if syscall_code = SYSCALL_CLOCKWAIT then returns_zero (sysClockWait M s)
           else if syscall_code = SYSCALL_GETSUPPORTPTR
           then do { v \<leftarrow> sysGetSupportPtr s; Some (Returns v s) }
           else if syscall_code = SYSCALL_GETPROCESSID
           then do { v \<leftarrow> sysGetProcessID M a1 s; Some (Returns v s) }
           else if syscall_code = SYSCALL_GETCHILDREN then returns_value (sysGetChildren M a1 a2 s)
           else returns_zero (passUpOrDie M GENERALEXCEPT s));
     returning r (\<lambda>result s. do {
       let s = s\<lparr>g_old_state := (g_old_state s)\<lparr>reg_v0 := result\<rparr>\<rparr>;
       Some (Exits (LDST (g_old_state s)) s)
     })
   }"

section \<open>Interrupts\<close>

definition wake_clock :: "pcb ptr \<Rightarrow> kernel \<Rightarrow> kernel option" where
  "wake_clock p s =
     insertProcQ (Ref Ready_queue) p (s\<lparr>g_soft_block_count := g_soft_block_count s - 1\<rparr>)"

definition handleSysTimer :: "machine \<Rightarrow> kernel \<Rightarrow> kernel option" where
  "handleSysTimer M s = do {
     s \<leftarrow> drain (removeBlocked (pseudo_clock_addr M)) wake_clock s;
     let s = s\<lparr>g_pseudo_clock := 0\<rparr>;
     Some (s\<lparr>interval_timer := PSECOND\<rparr>)
   }"

definition handleLocalTimer :: "machine \<Rightarrow> kernel \<Rightarrow> unit outcome option" where
  "handleLocalTimer M s = do {
     s \<leftarrow> save_current s;
     s \<leftarrow> insertProcQ (Ref Ready_queue) (g_current_process s) s;
     let s = s\<lparr>g_current_process := NULL\<rparr>;
     scheduler M s
   }"

definition interrupt_mask :: u32 where
  "interrupt_mask = DISKINTERRUPT OR FLASHINTERRUPT OR PRINTINTERRUPT OR TERMINTERRUPT OR
     LOCALTIMERINT OR TIMERINTERRUPT"

definition clear_cause :: "u32 \<Rightarrow> kernel \<Rightarrow> kernel" where
  "clear_cause b s = s\<lparr>g_old_state := (g_old_state s)\<lparr>cause := cause (g_old_state s) AND NOT b\<rparr>\<rparr>"

text \<open>
  The recursion of \<open>interruptHandler\<close> handles one line at a time and clears its bit; the
  fuel bounds its depth, and the six lines need a fuel of six.
\<close>

primrec interruptHandler :: "machine \<Rightarrow> nat \<Rightarrow> kernel \<Rightarrow> unit outcome option" where
  "interruptHandler M 0 s = None"
| "interruptHandler M (Suc n) s = do {
     let c = cause (g_old_state s);
     r \<leftarrow> (if c AND LOCALTIMERINT \<noteq> 0 then handleLocalTimer M (clear_cause LOCALTIMERINT s)
           else if c AND TIMERINTERRUPT \<noteq> 0
           then do { s \<leftarrow> handleSysTimer M (clear_cause TIMERINTERRUPT s); Some (Returns () s) }
           else if c AND DISKINTERRUPT \<noteq> 0
           then handleDeviceInt M DISK_INTLINE (clear_cause DISKINTERRUPT s)
           else if c AND FLASHINTERRUPT \<noteq> 0
           then handleDeviceInt M FLASH_INTLINE (clear_cause FLASHINTERRUPT s)
           else if c AND PRINTINTERRUPT \<noteq> 0
           then handleDeviceInt M PRINTER_INTLINE (clear_cause PRINTINTERRUPT s)
           else if c AND TERMINTERRUPT \<noteq> 0
           then handleDeviceInt M TERM_INTLINE (clear_cause TERMINTERRUPT s)
           else Some (Returns () s));
     returning r (\<lambda>_ s. do {
       r \<leftarrow> (if cause (g_old_state s) AND interrupt_mask \<noteq> 0 then interruptHandler M n s
             else Some (Returns () s));
       returning r (\<lambda>_ s. do {
         let (tod, s) = STCK s;
         let s = s\<lparr>g_tod := tod\<rparr>;
         Some (Exits (LDST (g_old_state s)) s)
       })
     })
   }"

definition INTERRUPT_LINES :: nat where "INTERRUPT_LINES = 6"

section \<open>Exceptions\<close>

definition exceptionHandler :: "machine \<Rightarrow> kernel \<Rightarrow> unit outcome option" where
  "exceptionHandler M s = do {
     let cause_bits = CAUSE_GET_EXCCODE M (cause (g_old_state s));
     if cause_bits = EXC_INT M then do {
       s \<leftarrow> updateProcessTime s;
       interruptHandler M INTERRUPT_LINES s
     }
     else if cause_bits \<in> {EXC_MOD M, EXC_TLBL M, EXC_TLBS M} then passUpOrDie M PGFAULTEXCEPT s
     else if cause_bits \<in> {EXC_ADEL M, EXC_ADES M, EXC_IBE M, EXC_DBE M, EXC_BP M, EXC_RI M,
                           EXC_CPU M, EXC_OV M} then passUpOrDie M GENERALEXCEPT s
     else if cause_bits = EXC_SYS M then
       syscallHandler M (s\<lparr>g_old_state := (g_old_state s)\<lparr>pc_epc := pc_epc (g_old_state s) + WORDLEN\<rparr>\<rparr>)
     else passUpOrDie M GENERALEXCEPT s
   }"

section \<open>The interval timer\<close>

lemma insertProcQ_soft:
  assumes "insertProcQ q p s = Some t"
  shows "insertProcQ q p (s\<lparr>g_soft_block_count := c\<rparr>) = Some (t\<lparr>g_soft_block_count := c\<rparr>)"
  using assms by (auto simp: insertProcQ_def on_lh_def split: Option.bind_splits)

text \<open>
  While the processes of the pseudo clock are woken: \<open>xs\<close> are still blocked, \<open>ys\<close> are ready,
  and the rest is as in the state \<open>s0\<close> at the start.  \<open>c\<close> is the process that the queues
  leave out, the current one or none.
\<close>

definition waking ::
  "machine \<Rightarrow> pcb ptr \<Rightarrow> kernel \<Rightarrow> lnode rmap \<Rightarrow> ash \<Rightarrow> kernel \<Rightarrow> pcb list \<Rightarrow> pcb list \<Rightarrow> bool" where
  "waking M c s0 R0 A0 s xs ys \<longleftrightarrow>
     (\<exists>R. queues (s\<lparr>g_current_process := c\<rparr>) R (A0(pseudo_clock_addr M := xs)) ys \<and> same_rest R0 R) \<and>
     g_current_process s = g_current_process s0 \<and> g_process_count s = g_process_count s0 \<and>
     g_soft_block_count s - of_nat (length xs) =
       g_soft_block_count s0 - of_nat (length (A0 (pseudo_clock_addr M))) \<and>
     g_sysiostates s = g_sysiostates s0 \<and> mem s = mem s0 \<and> g_old_state s = g_old_state s0 \<and>
     n_type s = n_type s0 \<and> tod_clock s = tod_clock s0 \<and> (\<forall>p. (pcbs s p)\<lparr>p_semAdd := 0\<rparr> = (pcbs s0 p)\<lparr>p_semAdd := 0\<rparr>) \<and>
     (sem_ptrs s0 A0 \<longrightarrow> sem_ptrs s (A0(pseudo_clock_addr M := xs)))"

lemma same_rest_trans: "same_rest R R1 \<Longrightarrow> same_rest R1 R2 \<Longrightarrow> same_rest R R2"
  unfolding same_rest_def using no_tree_entries_trans by metis

lemma waking_step:
  assumes "waking M c s0 R0 A0 s (x # xs) ys"
  shows "\<exists>s1 s2. removeBlocked (pseudo_clock_addr M) s = Some (Ref x, s1) \<and>
     wake_clock (Ref x) s1 = Some s2 \<and> waking M c s0 R0 A0 s2 xs (ys @ [x])"
proof -
  let ?k = "pseudo_clock_addr M"
  obtain R where R: "queues (s\<lparr>g_current_process := c\<rparr>) R (A0(?k := x # xs)) ys" "same_rest R0 R"
    using assms unfolding waking_def by blast
  from queues_wake_at [OF R(1), of ?k x xs] obtain s1 h hh' R' where
    w: "removeBlocked ?k s = Some (Ref x, s1)" "insertProcQ (Ref Ready_queue) (Ref x) s1 =
       Some (s\<lparr>lh := h, hh := hh', pcbs := (pcbs s)(x := (pcbs s x)\<lparr>p_semAdd := 0\<rparr>)\<rparr>)"
    "queues (s\<lparr>lh := h, hh := hh', pcbs := (pcbs s)(x := (pcbs s x)\<lparr>p_semAdd := 0\<rparr>),
               g_current_process := c\<rparr>) R' (A0(?k := xs)) (ys @ [x])" "same_rest R R'" by auto
  have soft: "g_soft_block_count s1 = g_soft_block_count s"
  proof -
    have "g_soft_block_count t = g_soft_block_count s1" if "insertProcQ (Ref Ready_queue) (Ref x) s1 = Some t" for t
      using that by (auto simp: insertProcQ_def on_lh_def split: Option.bind_splits)
    from this [OF w(2)] show ?thesis by simp
  qed
  let ?s2 = "s\<lparr>lh := h, hh := hh', pcbs := (pcbs s)(x := (pcbs s x)\<lparr>p_semAdd := 0\<rparr>),
               g_soft_block_count := g_soft_block_count s - 1\<rparr>"
  have "wake_clock (Ref x) s1 = Some ?s2"
    using insertProcQ_soft [OF w(2)] soft by (simp add: wake_clock_def)
  moreover have "queues (?s2\<lparr>g_current_process := c\<rparr>) R' (A0(?k := xs)) (ys @ [x])"
    by (rule queues_cong [OF w(3)]) simp_all
  moreover have "sem_ptrs ?s2 (A0(?k := xs))" if "sem_ptrs s (A0(?k := x # xs))"
    using sem_ptrs_wake [OF that, of ?k x xs ?s2] by simp
  ultimately have "waking M c s0 R0 A0 ?s2 xs (ys @ [x])"
    using assms same_rest_trans [OF R(2) w(4)] unfolding waking_def by (auto simp: algebra_simps)
  with \<open>wake_clock (Ref x) s1 = Some ?s2\<close> show ?thesis using w(1) by blast
qed

interpretation clock_tick: transfer "waking M c s0 R0 A0" "\<lambda>p. p" "removeBlocked (pseudo_clock_addr M)" wake_clock
  for M c s0 R0 A0
proof
  fix s ys assume "waking M c s0 R0 A0 s [] ys"
  then obtain R where "queues (s\<lparr>g_current_process := c\<rparr>) R (A0(pseudo_clock_addr M := [])) ys"
    unfolding waking_def by blast
  then have "ash s R (A0(pseudo_clock_addr M := []))" using queuesD(1) by fastforce
  then show "removeBlocked (pseudo_clock_addr M) s = Some (NULL, s)" by (rule removeBlocked_none) simp
next
  fix s x xs ys assume "waking M c s0 R0 A0 s (x # xs) ys"
  then show "\<exists>s1 s2. removeBlocked (pseudo_clock_addr M) s = Some (Ref x, s1) \<and>
      wake_clock (Ref x) s1 = Some s2 \<and> waking M c s0 R0 A0 s2 xs (ys @ [x])"
    by (rule waking_step)
qed

lemma handleSysTimer_queues:
  assumes "queues (s\<lparr>g_current_process := c\<rparr>) R A rq" "A (pseudo_clock_addr M) = ws"
  shows "\<exists>s' R'. handleSysTimer M s = Some s' \<and>
     queues (s'\<lparr>g_current_process := c\<rparr>) R' (A(pseudo_clock_addr M := [])) (rq @ ws) \<and>
     same_rest R R' \<and> g_pseudo_clock s' = 0 \<and> interval_timer s' = PSECOND \<and>
     g_soft_block_count s' = g_soft_block_count s - of_nat (length ws) \<and>
     g_process_count s' = g_process_count s \<and> g_current_process s' = g_current_process s \<and>
     g_sysiostates s' = g_sysiostates s \<and> mem s' = mem s \<and> g_old_state s' = g_old_state s \<and>
     n_type s' = n_type s \<and> tod_clock s' = tod_clock s \<and>
     (\<forall>p. (pcbs s' p)\<lparr>p_semAdd := 0\<rparr> = (pcbs s p)\<lparr>p_semAdd := 0\<rparr>) \<and>
     (sem_ptrs s A \<longrightarrow> sem_ptrs s' (A(pseudo_clock_addr M := [])))"
proof -
  have "A(pseudo_clock_addr M := ws) = A" using assms(2) by auto
  then have "waking M c s R A s ws rq" using assms by (auto simp: waking_def same_rest_def)
  from clock_tick.drain_moves_all [OF this] obtain t where
    t: "drain (removeBlocked (pseudo_clock_addr M)) wake_clock s = Some t" "waking M c s R A t [] (rq @ ws)"
    by auto
  let ?s' = "t\<lparr>g_pseudo_clock := 0, interval_timer := PSECOND\<rparr>"
  obtain R' where R': "queues (t\<lparr>g_current_process := c\<rparr>) R' (A(pseudo_clock_addr M := [])) (rq @ ws)"
    "same_rest R R'" using t(2) unfolding waking_def by blast
  have "queues (?s'\<lparr>g_current_process := c\<rparr>) R' (A(pseudo_clock_addr M := [])) (rq @ ws)"
    by (rule queues_cong [OF R'(1)]) simp_all
  then show ?thesis
    using t R'(2) assms(2) unfolding waking_def
    by (intro exI [of _ ?s'] exI [of _ R']) (simp add: handleSysTimer_def sem_ptrs_def)
qed

end
