(* ===== verification/Nucleus.thy ===== *)
theory Nucleus
  imports Exceptions
begin

text \<open>
  \<open>phase2/nucleus.c\<close>: the start of the kernel.
\<close>

definition initSysIOState :: "nat \<Rightarrow> kernel \<Rightarrow> kernel option" where
  "initSysIOState dev_num s = do {
     s \<leftarrow> upd_sysio (int dev_num) (sem_mut_update (\<lambda>_. 1)) s;
     s \<leftarrow> upd_sysio (int dev_num) (sem_sync_update (\<lambda>_. 0)) s;
     upd_sysio (int dev_num) (waiting_process_update (\<lambda>_. NULL)) s
   }"

definition initGlobalVariable :: "machine \<Rightarrow> kernel \<Rightarrow> kernel option" where
  "initGlobalVariable M s = do {
     let s = s\<lparr>g_process_count := 0\<rparr>;
     let s = s\<lparr>g_soft_block_count := 0\<rparr>;
     s \<leftarrow> mkEmptyProcQ (Ref Ready_queue) s;
     let s = s\<lparr>g_current_process := NULL\<rparr>;
     s \<leftarrow> for_upto DEVICE_NUMBER initSysIOState s;
     let s = s\<lparr>g_pseudo_clock := 1\<rparr>;
     let s = s\<lparr>g_tod := 0\<rparr>;
     Some (s\<lparr>passupvector := \<lparr>tlb_refill_handler = uTLB_RefillHandler_addr M,
                              tlb_refill_stackPtr = KERNELSTACK,
                              exception_handler = exceptionHandler_addr M,
                              exception_stackPtr = KERNELSTACK\<rparr>\<rparr>)
   }"

definition RAMTOP :: "machine \<Rightarrow> kernel \<Rightarrow> u32 option" where
  "RAMTOP M s = do {
     b \<leftarrow> load_int M RAMBASEADDR s;
     n \<leftarrow> load_int M RAMBASESIZE s;
     Some (b + n)
   }"

definition launchInit :: "machine \<Rightarrow> kernel \<Rightarrow> kernel option" where
  "launchInit M s = do {
     let s = s\<lparr>g_process_count := g_process_count s + 1\<rparr>;
     (pcb, s) \<leftarrow> allocPcb s;
     s \<leftarrow> upd_pcb (\<lambda>c. c\<lparr>p_s := (p_s c)\<lparr>status := status (p_s c) OR
             (STATUS_IEp M OR STATUS_TE M OR STATUS_IM_MASK M)\<rparr>\<rparr>) pcb s;
     s \<leftarrow> upd_pcb (\<lambda>c. c\<lparr>p_s := (p_s c)\<lparr>pc_epc := test_addr M\<rparr>\<rparr>) pcb s;
     s \<leftarrow> upd_pcb (\<lambda>c. c\<lparr>p_s := (p_s c)\<lparr>reg_t9 := pc_epc (p_s c)\<rparr>\<rparr>) pcb s;
     t \<leftarrow> RAMTOP M s;
     s \<leftarrow> upd_pcb (\<lambda>c. c\<lparr>p_s := (p_s c)\<lparr>reg_sp := t\<rparr>\<rparr>) pcb s;
     insertProcQ (Ref Ready_queue) pcb s
   }"

text \<open>\<open>main\<close> calls the scheduler, which does not return.\<close>

definition main :: "machine \<Rightarrow> kernel \<Rightarrow> unit outcome option" where
  "main M s = do {
     s \<leftarrow> initGlobalVariable M s;
     s \<leftarrow> initPcbs s;
     s \<leftarrow> initASH s;
     s \<leftarrow> initNamespaces s;
     let s = s\<lparr>interval_timer := PSECOND\<rparr>;
     s \<leftarrow> launchInit M s;
     scheduler M s
   }"

end
