(* ===== verification/Phase1.thy ===== *)
theory Phase1
  imports Semaphore Namespace
begin

text \<open>
  The three components of phase 1 together: what \<open>initPcbs\<close>, \<open>initASH\<close> and
  \<open>initNamespaces\<close> leave when they run after one another, as \<open>main\<close> does, and a concrete
  state of that kind, started from the static storage.
\<close>

section \<open>The state after initialisation\<close>

definition init_rings :: "lnode rmap \<Rightarrow> lnode rmap" where
  "init_rings R = R(PcbFree_h \<mapsto> map P_list (rev [0..<MAX_PROC]),
     SemdFree_h \<mapsto> map S_freelink (rev [0..<MAX_PROC]),
     NsList_h NS_PID \<mapsto> [], NsFree_h NS_PID \<mapsto> map N_link (map (Pair NS_PID) (rev [0..<MAX_PROC])))"

text \<open>The static heads, and at most the ready queue.\<close>

definition start_rings :: "lnode rmap \<Rightarrow> bool" where
  "start_rings R \<longleftrightarrow> R PcbFree_h = Some [] \<and> R SemdFree_h = Some [] \<and> R Ready_queue \<in> {None, Some []} \<and>
     dom R \<subseteq> {PcbFree_h, SemdFree_h, Ready_queue}"

lemma start_rings_nodes:
  assumes "start_rings R"
  shows "nodes R \<subseteq> {PcbFree_h, SemdFree_h, Ready_queue}"
proof
  fix n assume "n \<in> nodes R"
  then obtain q xs where q: "R q = Some xs" "n \<in> set (q # xs)" by (auto simp: nodes_def in_ring_def)
  then have "q \<in> {PcbFree_h, SemdFree_h, Ready_queue}" using assms by (auto simp: start_rings_def)
  moreover from this q(1) have "xs = []" using assms by (auto simp: start_rings_def)
  ultimately show "n \<in> {PcbFree_h, SemdFree_h, Ready_queue}" using q(2) by simp
qed

lemma phase1_init:
  assumes R: "rings (lh s) R" "start_rings R" and B: "chains (hh s) (\<lambda>_. [])"
  shows "\<exists>h f. do { s \<leftarrow> initPcbs s; s \<leftarrow> initASH s; initNamespaces s } = Some (s\<lparr>lh := h, n_type := f\<rparr>) \<and>
     ash (s\<lparr>lh := h, n_type := f\<rparr>) (init_rings R) (\<lambda>_. []) \<and> (\<forall>j < MAX_PROC. f (NS_PID, j) = NS_PID)"
proof -
  note out = start_rings_nodes [OF R(2)]
  have s: "R PcbFree_h = Some []" "R SemdFree_h = Some []" using R(2) by (auto simp: start_rings_def)
  obtain h1 where h1: "initPcbs s = Some (s\<lparr>lh := h1\<rparr>)"
      "rings h1 (R(PcbFree_h \<mapsto> map P_list (rev [0..<MAX_PROC])))" (is "rings h1 ?R1")
    using initPcbs_rings [OF R(1) s(1)] out by blast
  have n1: "nodes ?R1 \<subseteq> {PcbFree_h, SemdFree_h, Ready_queue} \<union> range P_list"
    using out by (auto simp: nodes_def in_ring_upd split: if_splits)
  obtain h2 where h2: "initASH (s\<lparr>lh := h1\<rparr>) = Some (s\<lparr>lh := h2\<rparr>)"
      "ash (s\<lparr>lh := h2\<rparr>) (?R1(SemdFree_h \<mapsto> map S_freelink (rev [0..<MAX_PROC]))) (\<lambda>_. [])"
      (is "ash _ ?R2 _")
    using initASH_ash [of "s\<lparr>lh := h1\<rparr>" ?R1] h1(2) s(2) n1 B by fastforce
  have n2: "nodes ?R2 \<subseteq> {PcbFree_h, SemdFree_h, Ready_queue} \<union> range P_list \<union> range S_freelink"
    using n1 by (auto simp: nodes_def in_ring_upd split: if_splits)
  have r2: "rings (lh (s\<lparr>lh := h2\<rparr>)) ?R2" by (rule ash_rings [OF h2(2)])
  have out2: "NsFree_h i \<notin> nodes ?R2 \<and> NsList_h i \<notin> nodes ?R2 \<and> N_link (i, j) \<notin> nodes ?R2" for i j
    using n2 by blast
  obtain h f where h: "initNamespaces (s\<lparr>lh := h2\<rparr>) = Some (s\<lparr>lh := h, n_type := f\<rparr>)"
      "rings h (init_rings R)" "\<forall>j < MAX_PROC. f (NS_PID, j) = NS_PID"
    using initNamespaces_pool [OF r2 out2] unfolding init_rings_def by auto
  have "ash (s\<lparr>lh := h, n_type := f\<rparr>) (init_rings R) (\<lambda>_. [])"
  proof (rule ash_transfer [OF h2(2)])
    show "keeps_sems ?R2 (init_rings R)"
      unfolding keeps_sems_def init_rings_def by (auto simp: vacant_def not_in_nodes split: if_splits)
  qed (use h(2) in simp_all)
  with h1(1) h2(1) h(1,3) show ?thesis by (intro exI [of _ h] exI [of _ f]) simp
qed

section \<open>A concrete start\<close>

definition phase1_boot :: kmem where
  "phase1_boot = the (do { s \<leftarrow> initPcbs static_kmem; s \<leftarrow> initASH s; initNamespaces s })"

definition boot_rings :: "lnode rmap" where
  "boot_rings = init_rings static_rings"

lemma start_rings_static: "start_rings static_rings"
  by (auto simp: start_rings_def static_rings_def)

lemma phase1_boot:
  "ash phase1_boot boot_rings (\<lambda>_. [])" "rings (lh phase1_boot) boot_rings"
  "j < MAX_PROC \<Longrightarrow> n_type phase1_boot (NS_PID, j) = NS_PID"
proof -
  have R: "rings (lh static_kmem) static_rings" using rings_static by (simp add: static_kmem_def)
  have B: "chains (hh static_kmem) (\<lambda>_. [])" using chains_static by (simp add: static_kmem_def)
  obtain h f where i: "do { s \<leftarrow> initPcbs static_kmem; s \<leftarrow> initASH s; initNamespaces s } =
       Some (static_kmem\<lparr>lh := h, n_type := f\<rparr>)"
     "ash (static_kmem\<lparr>lh := h, n_type := f\<rparr>) (init_rings static_rings) (\<lambda>_. [])"
     "\<forall>j < MAX_PROC. f (NS_PID, j) = NS_PID"
    using phase1_init [OF R start_rings_static B] by blast
  then have b: "phase1_boot = static_kmem\<lparr>lh := h, n_type := f\<rparr>" unfolding phase1_boot_def by simp
  show a: "ash phase1_boot boot_rings (\<lambda>_. [])" using i(2) b by (simp add: boot_rings_def)
  show "rings (lh phase1_boot) boot_rings" by (rule ash_rings [OF a])
  show "n_type phase1_boot (NS_PID, j) = NS_PID" if "j < MAX_PROC" unfolding b using i(3) that by simp
qed

end
