(* ===== verification/Forest.thy ===== *)
theory Forest
  imports Namespace "HOL-Library.Multiset"
begin

text \<open>
  Operations on trees of processes: cutting the tree of a process out of a forest, and
  adding a child.  They are the abstract counterparts of \<open>outChild\<close> and \<open>insertChild\<close>.
\<close>

section \<open>Forests\<close>

abbreviation fmembers :: "ptree list \<Rightarrow> pcb list" where
  "fmembers ts \<equiv> concat (map members ts)"

fun subtrees :: "ptree \<Rightarrow> ptree list" where
  "subtrees (PNode p ts) = PNode p ts # concat (map subtrees ts)"

abbreviation fsubtrees :: "ptree list \<Rightarrow> ptree list" where
  "fsubtrees ts \<equiv> concat (map subtrees ts)"

lemma members_subtrees: "members t = map proot (subtrees t)"
  by (induction t) (auto simp: map_concat comp_def intro!: arg_cong [of _ _ concat])

lemma fmembers_subtrees: "fmembers ts = map proot (fsubtrees ts)"
  by (induction ts) (simp_all add: members_subtrees)

lemma self_subtree: "t \<in> set (subtrees t)"
  by (cases t) simp

lemma proot_member: "proot t \<in> set (members t)"
  by (cases t) simp

lemma subtree_members: "u \<in> set (subtrees t) \<Longrightarrow> set (members u) \<subseteq> set (members t)"
proof (induction t)
  case (PNode p ts)
  then show ?case by fastforce
qed

lemma subtree_at: "tree_at R t \<Longrightarrow> u \<in> set (subtrees t) \<Longrightarrow> tree_at R u"
proof (induction t)
  case (PNode p ts)
  then show ?case by fastforce
qed

lemma fsubtree_of_member:
  assumes "c \<in> set (fmembers ts)"
  obtains u where "u \<in> set (fsubtrees ts)" "proot u = c"
  using assms unfolding fmembers_subtrees by auto

lemma fsubtree_unique:
  assumes "distinct (fmembers ts)" "u \<in> set (fsubtrees ts)" "v \<in> set (fsubtrees ts)" "proot u = proot v"
  shows "u = v"
  using assms unfolding fmembers_subtrees distinct_map by (metis inj_onD)

text \<open>Every process of a forest knows its parent.\<close>

fun parents_ok :: "(pcb \<Rightarrow> pcb ptr) \<Rightarrow> ptree \<Rightarrow> bool" where
  "parents_ok f (PNode p ts) \<longleftrightarrow> (\<forall>t \<in> set ts. f (proot t) = Ref p \<and> parents_ok f t)"

lemma parents_ok_cong: "(\<And>p. p \<in> set (members t) \<Longrightarrow> f p = g p) \<Longrightarrow> parents_ok f t = parents_ok g t"
proof (induction t)
  case (PNode p ts)
  then have "f (proot t) = g (proot t)" "parents_ok f t = parents_ok g t" if "t \<in> set ts" for t
    using that proot_member [of t] by auto
  then show ?case by simp
qed

text \<open>Every process of a forest is a root or the child of another process.\<close>

lemma subtree_parent:
  "u \<in> set (subtrees t) \<Longrightarrow> u = t \<or> (\<exists>q us. PNode q us \<in> set (subtrees t) \<and> u \<in> set us)"
proof (induction t)
  case (PNode p ts)
  then show ?case using self_subtree by fastforce
qed

lemma fsubtree_parent:
  assumes "u \<in> set (fsubtrees ts)"
  obtains "u \<in> set ts" | q us where "PNode q us \<in> set (fsubtrees ts)" "u \<in> set us"
proof -
  from assms obtain t where "t \<in> set ts" "u \<in> set (subtrees t)" by auto
  with subtree_parent [of u t] that show thesis by fastforce
qed

lemma parents_ok_subtree:
  "parents_ok f t \<Longrightarrow> PNode q us \<in> set (subtrees t) \<Longrightarrow> u \<in> set us \<Longrightarrow> f (proot u) = Ref q"
proof (induction t)
  case (PNode p ts)
  then show ?case by fastforce
qed

lemma distinct_subtree: "distinct (members t) \<Longrightarrow> u \<in> set (subtrees t) \<Longrightarrow> distinct (members u)"
proof (induction t)
  case (PNode p ts)
  then show ?case by (auto simp: distinct_concat_iff)
qed

lemma distinct_fsubtree:
  assumes "distinct (fmembers ts)" "u \<in> set (fsubtrees ts)"
  shows "distinct (members u)" "set (members u) \<subseteq> set (fmembers ts)"
proof -
  from assms(2) obtain t where t: "t \<in> set ts" "u \<in> set (subtrees t)" by auto
  have "distinct (members t)" using assms(1) t(1) by (simp add: distinct_concat_iff)
  then show "distinct (members u)" using t(2) by (rule distinct_subtree)
  show "set (members u) \<subseteq> set (fmembers ts)" using subtree_members [OF t(2)] t(1) by auto
qed

section \<open>Cutting a process out\<close>

fun prune :: "pcb \<Rightarrow> ptree \<Rightarrow> ptree" where
  "prune c (PNode p ts) = PNode p (map (prune c) (filter (\<lambda>t. proot t \<noteq> c) ts))"

definition prune_all :: "pcb \<Rightarrow> ptree list \<Rightarrow> ptree list" where
  "prune_all c ts = map (prune c) (filter (\<lambda>t. proot t \<noteq> c) ts)"

lemma prune_all_simps [simp]:
  "prune_all c [] = []"
  "prune_all c (t # ts) = (if proot t = c then [] else [prune c t]) @ prune_all c ts"
  by (simp_all add: prune_all_def)

lemma proot_prune [simp]: "proot (prune c t) = proot t"
  by (cases t) simp

lemma prune_absent: "c \<notin> set (members t) \<Longrightarrow> prune c t = t"
proof (induction t)
  case (PNode p ts)
  then have "filter (\<lambda>t. proot t \<noteq> c) ts = ts" using proot_member by (fastforce intro: filter_True)
  moreover have "map (prune c) ts = map (\<lambda>t. t) ts" using PNode by (intro map_cong) auto
  ultimately show ?case by simp
qed

lemma prune_all_absent: "c \<notin> set (fmembers ts) \<Longrightarrow> prune_all c ts = ts"
  using proot_member by (induction ts) (fastforce simp: prune_absent)+

lemma fmembers_prune_split:
  assumes "\<And>t. t \<in> set ts \<Longrightarrow> u \<in> set (subtrees t) \<Longrightarrow> distinct (members t) \<Longrightarrow>
      fmembers (prune_all (proot u) [t]) = filter (\<lambda>x. x \<notin> set (members u)) (members t)"
    and "distinct (fmembers ts)" "u \<in> set (fsubtrees ts)"
  shows "fmembers (prune_all (proot u) ts) = filter (\<lambda>x. x \<notin> set (members u)) (fmembers ts)"
  using assms
proof (induction ts)
  case (Cons t ts)
  have dis: "set (members t) \<inter> set (fmembers ts) = {}" "distinct (members t)" "distinct (fmembers ts)"
    using Cons.prems(2) by auto
  have keep_all: "filter (\<lambda>x. x \<notin> set (members u)) xs = xs" if "set xs \<inter> set (members u) = {}" for xs
    using that by (intro filter_True) auto
  show ?case
  proof (cases "u \<in> set (subtrees t)")
    case True
    then have u: "set (members u) \<subseteq> set (members t)" by (rule subtree_members)
    then have "proot u \<notin> set (fmembers ts)" using proot_member [of u] dis by auto
    then have "prune_all (proot u) ts = ts" by (rule prune_all_absent)
    moreover have "filter (\<lambda>x. x \<notin> set (members u)) (fmembers ts) = fmembers ts"
      using u dis by (intro keep_all) auto
    ultimately show ?thesis using Cons.prems(1) [of t] True dis by auto
  next
    case False
    then have ut: "u \<in> set (fsubtrees ts)" using Cons.prems(3) by simp
    have u: "set (members u) \<subseteq> set (fmembers ts)" using ut subtree_members by fastforce
    then have "proot u \<notin> set (members t)" using proot_member [of u] dis by auto
    then have "prune_all (proot u) [t] = [t]" by (intro prune_all_absent) simp
    moreover have "filter (\<lambda>x. x \<notin> set (members u)) (members t) = members t"
      using u dis by (intro keep_all) auto
    moreover have "fmembers (prune_all (proot u) ts) = filter (\<lambda>x. x \<notin> set (members u)) (fmembers ts)"
      using Cons.IH Cons.prems(1) dis(3) ut by (metis list.set_intros(2))
    ultimately show ?thesis by (auto split: if_splits)
  qed
qed simp

lemma members_prune:
  "u \<in> set (subtrees t) \<Longrightarrow> distinct (members t) \<Longrightarrow>
   fmembers (prune_all (proot u) [t]) = filter (\<lambda>x. x \<notin> set (members u)) (members t)"
proof (induction t)
  case (PNode p ts)
  show ?case
  proof (cases "proot u = p")
    case True
    then have "u = PNode p ts" using PNode.prems fsubtree_unique [of "[PNode p ts]" u "PNode p ts"] by simp
    then show ?thesis by simp
  next
    case False
    then have u: "u \<in> set (fsubtrees ts)" using PNode.prems(1) by auto
    then have "set (members u) \<subseteq> set (fmembers ts)" using subtree_members by fastforce
    then have "p \<notin> set (members u)" using PNode.prems(2) by auto
    with False fmembers_prune_split [OF PNode.IH _ u] PNode.prems(2) show ?thesis
      by (auto simp: prune_all_def)
  qed
qed

text \<open>The processes left are those that are not in the tree of the process cut out.\<close>

lemma fmembers_prune:
  assumes "distinct (fmembers ts)" "u \<in> set (fsubtrees ts)"
  shows "fmembers (prune_all (proot u) ts) = filter (\<lambda>x. x \<notin> set (members u)) (fmembers ts)"
  by (rule fmembers_prune_split [OF members_prune assms])

lemma prune_tree_at:
  assumes "\<And>p. p \<in> set (members (prune c t)) \<Longrightarrow>
      R' (P_child p) = map_option (removeAll (P_sib c)) (R (P_child p))"
  shows "tree_at R t \<Longrightarrow> tree_at R' (prune c t)"
  using assms
proof (induction t)
  case (PNode p ts)
  have "removeAll (P_sib c) (map (\<lambda>t. P_sib (proot t)) us) =
      map (\<lambda>t. P_sib (proot t)) (map (prune c) (filter (\<lambda>t. proot t \<noteq> c) us))" for us
    by (induction us) auto
  moreover have "tree_at R' (prune c t)" if t: "t \<in> set ts" "proot t \<noteq> c" for t
  proof (rule PNode.IH [OF t(1)])
    have "set (members (prune c t)) \<subseteq> set (members (prune c (PNode p ts)))" using t by auto
    then show "R' (P_child x) = map_option (removeAll (P_sib c)) (R (P_child x))"
      if "x \<in> set (members (prune c t))" for x using PNode.prems(2) that by blast
  qed (use PNode.prems(1) t in simp)
  ultimately show ?case using PNode.prems by simp
qed

lemma parents_ok_prune: "parents_ok f t \<Longrightarrow> parents_ok f (prune c t)"
  by (induction t) auto

section \<open>Adding a child\<close>

fun graft :: "pcb \<Rightarrow> pcb \<Rightarrow> ptree \<Rightarrow> ptree" where
  "graft p c (PNode q ts) = PNode q (map (graft p c) ts @ (if q = p then [PNode c []] else []))"

lemma proot_graft [simp]: "proot (graft p c t) = proot t"
  by (cases t) simp

definition grafted :: "pcb \<Rightarrow> pcb \<Rightarrow> pcb multiset \<Rightarrow> pcb multiset" where
  "grafted p c X = X + replicate_mset (count X p) c"

lemma grafted_add: "grafted p c (X + Y) = grafted p c X + grafted p c Y" "grafted p c {#} = {#}"
  by (auto simp: grafted_def multiset_eq_iff)

lemma grafted_forest:
  assumes "\<And>t. t \<in> set ts \<Longrightarrow> mset (members (graft p c t)) = grafted p c (mset (members t))"
  shows "mset (fmembers (map (graft p c) ts)) = grafted p c (mset (fmembers ts))"
  using assms by (induction ts) (simp_all add: grafted_add)

lemma grafted_members: "mset (members (graft p c t)) = grafted p c (mset (members t))"
proof (induction t)
  case (PNode q ts)
  have "mset (members (graft p c (PNode q ts))) =
      {#q#} + mset (fmembers (map (graft p c) ts)) + (if q = p then {#c#} else {#})" by simp
  also have "\<dots> = {#q#} + grafted p c (mset (fmembers ts)) + (if q = p then {#c#} else {#})"
    using grafted_forest [of ts p c] PNode by simp
  also have "\<dots> = grafted p c ({#q#} + mset (fmembers ts))"
    unfolding grafted_add by (simp add: grafted_def)
  finally show ?case by simp
qed

lemma fmembers_graft:
  assumes "distinct (fmembers ts)" "p \<in> set (fmembers ts)" "c \<notin> set (fmembers ts)"
  shows "mset (fmembers (map (graft p c) ts)) = add_mset c (mset (fmembers ts))"
    "distinct (fmembers (map (graft p c) ts))"
    "set (fmembers (map (graft p c) ts)) = insert c (set (fmembers ts))"
proof -
  have "count (mset (fmembers ts)) p = 1" using assms(1,2) by (simp add: distinct_count_atmost_1)
  then show m: "mset (fmembers (map (graft p c) ts)) = add_mset c (mset (fmembers ts))"
    using grafted_forest [of ts p c] grafted_members by (simp add: grafted_def)
  then have "mset (fmembers (map (graft p c) ts)) = mset (c # fmembers ts)" by simp
  then show "set (fmembers (map (graft p c) ts)) = insert c (set (fmembers ts))"
    "distinct (fmembers (map (graft p c) ts))"
    using assms mset_eq_setD mset_eq_imp_distinct_iff by (metis list.simps(15), metis distinct.simps(2))
qed

lemma graft_tree_at:
  assumes "\<And>q. q \<in> set (members t) \<Longrightarrow> R' (P_child q) =
      (if q = p then map_option (\<lambda>xs. xs @ [P_sib c]) (R (P_child q)) else R (P_child q))"
    and "R' (P_child c) = Some []"
  shows "tree_at R t \<Longrightarrow> tree_at R' (graft p c t)"
  using assms(1)
proof (induction t)
  case (PNode q ts)
  have "tree_at R' (graft p c t)" if "t \<in> set ts" for t using PNode that by fastforce
  then show ?case using PNode.prems assms(2) by (auto simp: comp_def)
qed

lemma graft_parents_ok:
  assumes "\<And>q. q \<in> set (members t) \<Longrightarrow> g q = f q" "g c = Ref p"
  shows "parents_ok f t \<Longrightarrow> parents_ok g (graft p c t)"
  using assms(1)
proof (induction t)
  case (PNode q ts)
  have "g (proot t) = Ref q" "parents_ok g (graft p c t)" if "t \<in> set ts" for t
    using PNode that proot_member [of t] by fastforce+
  then show ?case using assms(2) by auto
qed

end
