(* ===== verification/Invariant.thy ===== *)
theory Invariant
  imports Process_Tree Exceptions Nucleus Phase1 Forest
begin

text \<open>
  The invariant of the nucleus between two exceptions: the queues, the process tree, the
  pool of free blocks and the counters describe one set of live processes.
\<close>

section \<open>The invariant\<close>

text \<open>No live process is lost: it is ready, blocked, or the current one.\<close>

definition accounted :: "kernel \<Rightarrow> ash \<Rightarrow> pcb list \<Rightarrow> pcb \<Rightarrow> bool" where
  "accounted s A rq p \<longleftrightarrow> p \<in> set rq \<or> (\<exists>k. p \<in> set (A k)) \<or> g_current_process s = Ref p"

definition forest_ok :: "kernel \<Rightarrow> lnode rmap \<Rightarrow> ptree list \<Rightarrow> bool" where
  "forest_ok s R ts \<longleftrightarrow> distinct (fmembers ts) \<and>
     (\<forall>t \<in> set ts. tree_at R t \<and> R (P_sib (proot t)) = Some [] \<and> p_parent (pcbs s (proot t)) = NULL \<and>
        parents_ok (\<lambda>p. p_parent (pcbs s p)) t)"

definition kinv :: "kernel \<Rightarrow> lnode rmap \<Rightarrow> ash \<Rightarrow> pcb list \<Rightarrow> pcb list \<Rightarrow> ptree list \<Rightarrow> bool" where
  "kinv s R A rq fs ts \<longleftrightarrow> queues s R A rq \<and> R PcbFree_h = Some (map P_list fs) \<and> sem_ptrs s A \<and>
     forest_ok s R ts \<and> set fs \<inter> set (fmembers ts) = {} \<and> set fs \<union> set (fmembers ts) = {..<MAX_PROC} \<and>
     (\<forall>p \<in> set (fmembers ts). accounted s A rq p) \<and>
     (\<forall>p \<in> set fs. vacant (P_child p) R \<and> vacant (P_sib p) R) \<and>
     g_process_count s = of_nat (length (fmembers ts))"

lemma kinvD:
  assumes "kinv s R A rq fs ts"
  shows "queues s R A rq" "R PcbFree_h = Some (map P_list fs)" "sem_ptrs s A" "forest_ok s R ts"
    "set fs \<inter> set (fmembers ts) = {}" "set fs \<union> set (fmembers ts) = {..<MAX_PROC}"
    "p \<in> set (fmembers ts) \<Longrightarrow> accounted s A rq p"
    "p \<in> set fs \<Longrightarrow> vacant (P_child p) R" "p \<in> set fs \<Longrightarrow> vacant (P_sib p) R"
    "g_process_count s = of_nat (length (fmembers ts))"
  using assms by (auto simp: kinv_def)

lemma kinvI:
  assumes "queues s R A rq" "R PcbFree_h = Some (map P_list fs)" "sem_ptrs s A" "forest_ok s R ts"
    "set fs \<inter> set (fmembers ts) = {}" "set fs \<union> set (fmembers ts) = {..<MAX_PROC}"
    "\<And>p. p \<in> set (fmembers ts) \<Longrightarrow> accounted s A rq p"
    "\<And>p. p \<in> set fs \<Longrightarrow> vacant (P_child p) R \<and> vacant (P_sib p) R"
    "g_process_count s = of_nat (length (fmembers ts))"
  shows "kinv s R A rq fs ts"
  using assms by (simp add: kinv_def)

text \<open>The invariant but for the processes of \<open>L\<close>, which may be lost: live, and in no queue.\<close>

definition kinv_but ::
  "pcb set \<Rightarrow> kernel \<Rightarrow> lnode rmap \<Rightarrow> ash \<Rightarrow> pcb list \<Rightarrow> pcb list \<Rightarrow> ptree list \<Rightarrow> bool" where
  "kinv_but L s R A rq fs ts \<longleftrightarrow> queues s R A rq \<and> R PcbFree_h = Some (map P_list fs) \<and> sem_ptrs s A \<and>
     forest_ok s R ts \<and> set fs \<inter> set (fmembers ts) = {} \<and> set fs \<union> set (fmembers ts) = {..<MAX_PROC} \<and>
     (\<forall>p \<in> set (fmembers ts) - L. accounted s A rq p) \<and>
     (\<forall>p \<in> set fs. vacant (P_child p) R \<and> vacant (P_sib p) R) \<and>
     g_process_count s = of_nat (length (fmembers ts))"

lemma kinv_but_empty: "kinv_but {} = kinv"
  by (simp add: kinv_but_def kinv_def fun_eq_iff)

lemma kinv_butI:
  assumes "queues s R A rq" "R PcbFree_h = Some (map P_list fs)" "sem_ptrs s A" "forest_ok s R ts"
    "set fs \<inter> set (fmembers ts) = {}" "set fs \<union> set (fmembers ts) = {..<MAX_PROC}"
    "\<And>p. p \<in> set (fmembers ts) \<Longrightarrow> p \<notin> L \<Longrightarrow> accounted s A rq p"
    "\<And>p. p \<in> set fs \<Longrightarrow> vacant (P_child p) R \<and> vacant (P_sib p) R"
    "g_process_count s = of_nat (length (fmembers ts))"
  shows "kinv_but L s R A rq fs ts"
  using assms by (simp add: kinv_but_def)

lemma forest_okD:
  assumes "forest_ok s R ts"
  shows "distinct (fmembers ts)" "t \<in> set ts \<Longrightarrow> tree_at R t"
    "t \<in> set ts \<Longrightarrow> R (P_sib (proot t)) = Some []" "t \<in> set ts \<Longrightarrow> p_parent (pcbs s (proot t)) = NULL"
    "t \<in> set ts \<Longrightarrow> parents_ok (\<lambda>p. p_parent (pcbs s p)) t"
  using assms by (auto simp: forest_ok_def)

lemma kinv_kstate: "kinv s R A rq fs ts \<Longrightarrow> kstate s R A rq fs"
  by (auto simp: kinv_def kstate_def dest: queuesD)

text \<open>A process in a queue, and the current process, are live.\<close>

lemma kinv_live:
  assumes k: "kinv s R A rq fs ts"
  shows "p \<in> set rq \<Longrightarrow> p \<in> set (fmembers ts)" "p \<in> set (A k) \<Longrightarrow> p \<in> set (fmembers ts)"
    "g_current_process s = Ref p \<Longrightarrow> p \<in> set (fmembers ts)"
proof -
  note d = kinvD(1-6) [OF k] and q = queuesD [OF kinvD(1) [OF k]]
  have fr: "p \<notin> set fs \<Longrightarrow> p < MAX_PROC \<Longrightarrow> p \<in> set (fmembers ts)" for p using d(6) by auto
  show "p \<in> set (fmembers ts)" if "p \<in> set rq"
  proof (rule fr)
    from two_rings_disjoint [OF q(5) q(2) d(2)] that show "p \<notin> set fs" by auto
    show "p < MAX_PROC" using q(4) that by auto
  qed
  show "p \<in> set (fmembers ts)" if "p \<in> set (A k)"
    using free_not_blocked [OF q(1) d(2)] q(3) [of k] that by (intro fr) auto
  show "p \<in> set (fmembers ts)" if "g_current_process s = Ref p"
    using alone_not_entry [OF q(5) queues_alone [OF d(1) that] d(2)] q(6) [OF that] by (intro fr) auto
qed

section \<open>Steps of the queues\<close>

lemma kinv_cong:
  assumes k: "kinv s R A rq fs ts" and "lh s' = lh s" "hh s' = hh s" "s_key s' = s_key s"
    and p: "\<And>p. p_semAdd (pcbs s' p) = p_semAdd (pcbs s p)" "\<And>p. p_parent (pcbs s' p) = p_parent (pcbs s p)"
    and c: "g_process_count s' = g_process_count s" "g_current_process s' = g_current_process s"
  shows "kinv s' R A rq fs ts"
proof -
  have "queues s' R A rq" using queues_cong [OF kinvD(1) [OF k]] assms by blast
  then show ?thesis using k unfolding kinv_def by (simp add: p c sem_ptrs_def forest_ok_def accounted_def)
qed

lemma same_rest_tree:
  assumes "same_rest R R'"
  shows "R' (P_child p) = R (P_child p)" "R' (P_sib p) = R (P_sib p)" "R' PcbFree_h = R PcbFree_h"
    "vacant (P_child p) R \<Longrightarrow> vacant (P_child p) R'" "vacant (P_sib p) R \<Longrightarrow> vacant (P_sib p) R'"
proof -
  show e: "R' (P_child p) = R (P_child p)" "R' (P_sib p) = R (P_sib p)" "R' PcbFree_h = R PcbFree_h"
    using assms by (simp_all add: same_rest_def)
  have n: "no_tree_entries R R'" using assms by (simp add: same_rest_def)
  show "vacant (P_child p) R \<Longrightarrow> vacant (P_child p) R'" "vacant (P_sib p) R \<Longrightarrow> vacant (P_sib p) R'"
    by (rule no_tree_entries_vacant [OF n]; simp add: e)+
qed

lemma forest_ok_same_rest:
  assumes "forest_ok s R ts" "same_rest R R'" "\<And>p. p_parent (pcbs s' p) = p_parent (pcbs s p)"
  shows "forest_ok s' R' ts"
proof -
  have "tree_at R' t = tree_at R t" for t by (rule tree_at_cong) (rule same_rest_tree(1) [OF assms(2)])
  then show ?thesis using assms(1) by (simp add: forest_ok_def assms(3) same_rest_tree [OF assms(2)])
qed

text \<open>A step that moves processes between the queues keeps the tree and the free blocks.\<close>

lemma kinv_but_queues:
  assumes k: "kinv s R A rq fs ts" and q: "queues s' R' A' rq'" "same_rest R R'" "sem_ptrs s' A'"
    and s': "\<And>p. p_parent (pcbs s' p) = p_parent (pcbs s p)" "g_process_count s' = g_process_count s"
    and a: "\<And>p. p \<notin> L \<Longrightarrow> accounted s A rq p \<Longrightarrow> accounted s' A' rq' p"
  shows "kinv_but L s' R' A' rq' fs ts"
proof (rule kinv_butI)
  note d = kinvD [OF k]
  show "queues s' R' A' rq'" "sem_ptrs s' A'" by fact+
  show "R' PcbFree_h = Some (map P_list fs)" using d(2) same_rest_tree(3) [OF q(2)] by simp
  show "forest_ok s' R' ts" by (rule forest_ok_same_rest [OF d(4) q(2) s'(1)])
  show "vacant (P_child p) R' \<and> vacant (P_sib p) R'" if "p \<in> set fs" for p
    using same_rest_tree(4,5) [OF q(2)] d(8,9) [OF that] by blast
  show "g_process_count s' = of_nat (length (fmembers ts))" using d(10) s'(2) by simp
qed (use a kinvD [OF k] in auto)

lemma kinv_queues:
  assumes "kinv s R A rq fs ts" "queues s' R' A' rq'" "same_rest R R'" "sem_ptrs s' A'"
    and "\<And>p. p_parent (pcbs s' p) = p_parent (pcbs s p)" "g_process_count s' = g_process_count s"
    and "\<And>p. accounted s A rq p \<Longrightarrow> accounted s' A' rq' p"
  shows "kinv s' R' A' rq' fs ts"
  using kinv_but_queues [OF assms(1-6), of "{}"] assms(7) by (simp add: kinv_but_empty)

lemma accounted_block:
  assumes "accounted s A rq q" "g_current_process s = Ref p"
  shows "accounted s' (A(a := A a @ [p])) rq q"
proof (cases "\<exists>k. q \<in> set (A k)")
  case True
  then obtain k where "q \<in> set (A k)" by blast
  then have "q \<in> set ((A(a := A a @ [p])) k)" by (cases "k = a") simp_all
  then show ?thesis unfolding accounted_def by blast
next
  case False
  with assms have "q \<in> set rq \<or> q = p" by (auto simp: accounted_def)
  moreover have "p \<in> set ((A(a := A a @ [p])) a)" by simp
  ultimately show ?thesis unfolding accounted_def by blast
qed

lemma accounted_wake:
  assumes "accounted s A rq q" "A a = w # ws" "g_current_process s' = g_current_process s"
  shows "accounted s' (A(a := ws)) (rq @ [w]) q"
proof (cases "\<exists>k. q \<in> set (A k) \<and> q \<noteq> w")
  case True
  then obtain k where "q \<in> set (A k)" "q \<noteq> w" by blast
  then have "q \<in> set ((A(a := ws)) k)" using assms(2) by (cases "k = a") auto
  then show ?thesis unfolding accounted_def by blast
next
  case False
  with assms show ?thesis by (auto simp: accounted_def)
qed

section \<open>The scheduler and blocking on the invariant\<close>

lemma kinv_count:
  assumes "kinv s R A rq fs ts"
  shows "length (fmembers ts) \<le> MAX_PROC" "sint (g_process_count s) = int (length (fmembers ts))"
proof -
  have "set (fmembers ts) \<subseteq> {..<MAX_PROC}" using kinvD(6) [OF assms] by auto
  then have "card (set (fmembers ts)) \<le> MAX_PROC"
    using card_mono [of "{..<MAX_PROC}"] by fastforce
  then show l: "length (fmembers ts) \<le> MAX_PROC"
    using distinct_card [OF forest_okD(1) [OF kinvD(4) [OF assms]]] by metis
  have "sint (of_nat n :: u32) = int n" if "n \<le> 20" for n
    using that by (simp add: signed_of_nat signed_take_bit_int_eq_self)
  with l show "sint (g_process_count s) = int (length (fmembers ts))"
    using kinvD(10) [OF assms] by (simp add: MAX_PROC_def)
qed

lemma kinv_none:
  assumes "kinv s R A rq fs ts" "g_current_process s = NULL"
  shows "kinv (s\<lparr>g_current_process := NULL\<rparr>) R A rq fs ts"
  unfolding current_same [OF assms(2)] by (rule assms(1))

lemma scheduler_kinv:
  assumes k: "kinv (s\<lparr>g_current_process := NULL\<rparr>) R A (q # qs) fs ts"
  shows "\<exists>h R'. scheduler M s = Some (Exits (LDST (p_s (pcbs s q))) (dispatched q h s)) \<and>
     kinv (dispatched q h s) R' A qs fs ts"
proof -
  from scheduler_queues [OF kinvD(1) [OF k]] obtain h R' where
    h: "scheduler M s = Some (Exits (LDST (p_s (pcbs s q))) (dispatched q h s))"
      "queues (dispatched q h s) R' A qs" "same_rest R R'" by blast
  have "kinv (dispatched q h s) R' A qs fs ts"
    using kinvD(3) [OF k] by (intro kinv_queues [OF k h(2,3)]) (auto simp: sem_ptrs_def accounted_def)
  then show ?thesis using h(1) by blast
qed

lemma scheduler_exits:
  assumes k: "kinv (s\<lparr>g_current_process := NULL\<rparr>) R A rq fs ts"
  shows "\<exists>e s'. scheduler M s = Some (Exits e s')"
proof (cases rq)
  case Nil
  note D = queuesD [OF kinvD(1) [OF k]]
  have r: "rings (lh s) R" "R Ready_queue = Some (map P_list [])" using D(2,5) Nil by simp_all
  show ?thesis unfolding scheduler_cases [OF r] Let_def by auto
next
  case (Cons q qs)
  then show ?thesis using scheduler_kinv k by blast
qed

text \<open>The blocking branch with all that it keeps.\<close>

lemma block_current_state:
  assumes k: "kinv s R A rq fs ts" and c: "g_current_process s = Ref p" and a: "a \<noteq> 0"
  shows "\<exists>s' R'. block_current M a s = scheduler M s' \<and> kinv s' R' (A(a := A a @ [p])) rq fs ts \<and>
     g_current_process s' = NULL \<and> pcbs s' = (pcbs s)(p := (stopped p s)\<lparr>p_semAdd := a\<rparr>) \<and>
     g_soft_block_count s' = g_soft_block_count s \<and> g_process_count s' = g_process_count s \<and>
     g_sysiostates s' = g_sysiostates s \<and> mem s' = mem s \<and> n_type s' = n_type s"
proof -
  have stop: "do { s \<leftarrow> save_current s; updateProcessTime s } = Some (s\<lparr>pcbs := (pcbs s)(p := stopped p s),
      g_tod := tod_clock s (Suc (tod_reads s)), tod_reads := Suc (Suc (tod_reads s))\<rparr>)" (is "_ = Some ?s1")
    using stop_current [OF c] by (simp add: stopped_def)
  have k1: "kinv ?s1 R A rq fs ts" by (rule kinv_cong [OF k]) (simp_all add: stopped_def)
  have c1: "g_current_process ?s1 = Ref p" using c by simp
  note c' = queues_current [OF kinvD(1) [OF k1] c1]
  from queues_block [OF kinvD(1) [OF k1] c1, of a] obtain h x ks R' where
    b: "insertBlocked a (Ref p) ?s1 = Some (False, ?s1\<lparr>lh := h, hh := x, s_key := ks,
          pcbs := (pcbs ?s1)(p := (pcbs ?s1 p)\<lparr>p_semAdd := a\<rparr>)\<rparr>)"
    "queues (?s1\<lparr>lh := h, hh := x, s_key := ks, pcbs := (pcbs ?s1)(p := (pcbs ?s1 p)\<lparr>p_semAdd := a\<rparr>),
               g_current_process := NULL\<rparr>) R' (A(a := A a @ [p])) rq" "same_rest R R'" by blast
  let ?s' = "?s1\<lparr>lh := h, hh := x, s_key := ks, pcbs := (pcbs ?s1)(p := (pcbs ?s1 p)\<lparr>p_semAdd := a\<rparr>),
               g_current_process := NULL\<rparr>"
  obtain s0 where s0: "save_current s = Some s0" "updateProcessTime s0 = Some ?s1"
    using stop by (auto split: Option.bind_splits)
  have "block_current M a s = scheduler M ?s'"
    unfolding block_current_def s0(1) Option.bind.bind_lunit s0(2) c1 b(1) by simp
  moreover have "sem_ptrs ?s' (A(a := A a @ [p]))"
    using c'(1) by (intro sem_ptrs_block [OF kinvD(3) [OF k1] a]) simp_all
  then have "kinv ?s' R' (A(a := A a @ [p])) rq fs ts"
    by (intro kinv_queues [OF k1 b(2,3)] accounted_block [OF _ c1]) (simp_all add: stopped_def)
  ultimately show ?thesis by (intro exI [of _ ?s'] exI [of _ R']) simp
qed

end
