(* ===== verification/Device_State.thy ===== *)
theory Device_State
  imports Invariant
begin

text \<open>
  The devices on the invariant: a device is free, or it works for one process, which waits on
  its semaphore, or for one that was terminated.  \<open>minv\<close> adds this, and the types of the namespace
  descriptors, to the invariant of the queues and the tree; the states between two exceptions and the
  ways to leave one are described with it.
\<close>

section \<open>The devices\<close>

text \<open>A word that is no part of the data of the nucleus: memory of a process, or a device register.\<close>

definition outside_kernel :: "machine \<Rightarrow> u32 \<Rightarrow> bool" where
  "outside_kernel M a \<longleftrightarrow> word_pointer a \<and> \<not> in_sysiostates M a \<and> a \<noteq> pseudo_clock_addr M"

text \<open>Registers of a device and memory of a process do not overlap.\<close>

definition user_words :: "machine \<Rightarrow> u32 \<Rightarrow> bool" where
  "user_words M a \<longleftrightarrow> (\<forall>i < 4. outside_kernel M (a + 4 * of_nat i) \<and> RAMSTART \<le> a + 4 * of_nat i)"

definition free_device :: sysiostate where
  "free_device = \<lparr>sem_mut = 1, sem_sync = 0, waiting_process = NULL\<rparr>"

text \<open>
  No process waits for a free device.  A device in use has a process on its semaphore, which
  is the one that its interrupt completes; others may wait for its mutex.  When that process is
  terminated, \<open>sem_sync\<close> is -1 and the device stays taken; \<open>waiting_process\<close> still
  points to the block, which may be free or serve another process.
\<close>

definition device_idle :: "machine \<Rightarrow> nat \<Rightarrow> ash \<Rightarrow> kernel \<Rightarrow> bool" where
  "device_idle M d A s \<longleftrightarrow> g_sysiostates s d = free_device \<and>
     A (sem_mut_addr M d) = [] \<and> A (sem_sync_addr M d) = []"

definition device_busy :: "machine \<Rightarrow> nat \<Rightarrow> pcb \<Rightarrow> ash \<Rightarrow> kernel \<Rightarrow> bool" where
  "device_busy M d w A s \<longleftrightarrow>
     g_sysiostates s d = \<lparr>sem_mut = 0, sem_sync = 0, waiting_process = Ref w\<rparr> \<and>
     A (sem_sync_addr M d) = [w] \<and> resolveDeviceAddress M (cmd_addr (pcbs s w)) = int d \<and>
     unat (cmd_addr (pcbs s w)) mod 4 = 0 \<and> user_words M (cmd_values (pcbs s w))"

definition device_orphan :: "machine \<Rightarrow> nat \<Rightarrow> ash \<Rightarrow> kernel \<Rightarrow> bool" where
  "device_orphan M d A s \<longleftrightarrow> (\<exists>w < MAX_PROC.
     g_sysiostates s d = \<lparr>sem_mut = 0, sem_sync = - 1, waiting_process = Ref w\<rparr>) \<and> A (sem_sync_addr M d) = []"

definition device_ok :: "machine \<Rightarrow> nat \<Rightarrow> ash \<Rightarrow> kernel \<Rightarrow> bool" where
  "device_ok M d A s \<longleftrightarrow> device_idle M d A s \<or> (\<exists>w. device_busy M d w A s) \<or> device_orphan M d A s"

definition devices_ok :: "machine \<Rightarrow> ash \<Rightarrow> kernel \<Rightarrow> bool" where
  "devices_ok M A s \<longleftrightarrow> (\<forall>d < DEVICE_NUMBER. device_ok M d A s)"

lemma devices_okE:
  assumes "devices_ok M A s" "d < DEVICE_NUMBER"
  obtains "device_idle M d A s" | w where "device_busy M d w A s" | "device_orphan M d A s"
  using assms unfolding devices_ok_def device_ok_def by blast

definition namespaces_ok :: "kernel \<Rightarrow> bool" where
  "namespaces_ok s \<longleftrightarrow> (\<forall>t < NS_TYPE_MAX. \<forall>j < MAX_PROC. n_type s (t, j) < NS_TYPE_MAX)"

text \<open>One device, of which the queues may lose processes.\<close>

lemma device_ok_queues:
  assumes ok: "device_ok M d A s" and g: "g_sysiostates s' d = g_sysiostates s d"
    and busy: "\<And>w. A (sem_sync_addr M d) = [w] \<Longrightarrow> A' (sem_sync_addr M d) = [w] \<and>
       cmd_addr (pcbs s' w) = cmd_addr (pcbs s w) \<and> cmd_values (pcbs s' w) = cmd_values (pcbs s w)"
    and none: "A (sem_sync_addr M d) = [] \<Longrightarrow> A' (sem_sync_addr M d) = []"
    and idle: "g_sysiostates s d = free_device \<Longrightarrow> A (sem_mut_addr M d) = [] \<Longrightarrow> A' (sem_mut_addr M d) = []"
  shows "device_ok M d A' s'"
proof -
  from ok consider "device_idle M d A s" | w where "device_busy M d w A s" | "device_orphan M d A s"
    unfolding device_ok_def by blast
  then show ?thesis
  proof cases
    case 1
    then have "device_idle M d A' s'" using g none idle by (simp add: device_idle_def)
    then show ?thesis by (simp add: device_ok_def)
  next
    case (2 w)
    then have "device_busy M d w A' s'" using g busy [of w] by (simp add: device_busy_def)
    then show ?thesis unfolding device_ok_def by blast
  next
    case 3
    then have "device_orphan M d A' s'" using g none by (simp add: device_orphan_def)
    then show ?thesis by (simp add: device_ok_def)
  qed
qed

lemma devices_ok_queues:
  assumes "devices_ok M A s" "g_sysiostates s' = g_sysiostates s"
    and "\<And>d w. d < DEVICE_NUMBER \<Longrightarrow> A (sem_sync_addr M d) = [w] \<Longrightarrow> A' (sem_sync_addr M d) = [w] \<and>
       cmd_addr (pcbs s' w) = cmd_addr (pcbs s w) \<and> cmd_values (pcbs s' w) = cmd_values (pcbs s w)"
    and "\<And>d. d < DEVICE_NUMBER \<Longrightarrow> A (sem_sync_addr M d) = [] \<Longrightarrow> A' (sem_sync_addr M d) = []"
    and "\<And>d. d < DEVICE_NUMBER \<Longrightarrow> g_sysiostates s d = free_device \<Longrightarrow> A (sem_mut_addr M d) = [] \<Longrightarrow>
       A' (sem_mut_addr M d) = []"
  shows "devices_ok M A' s'"
  unfolding devices_ok_def
proof (intro allI impI)
  fix d assume d: "d < DEVICE_NUMBER"
  with assms(1) have "device_ok M d A s" by (simp add: devices_ok_def)
  then show "device_ok M d A' s'" by (rule device_ok_queues) (use assms(2) assms(3-5) [OF d] in simp_all)
qed

lemma devices_ok_cong:
  assumes "devices_ok M A s" "g_sysiostates s' = g_sysiostates s"
    and "\<And>p. cmd_addr (pcbs s' p) = cmd_addr (pcbs s p)" "\<And>p. cmd_values (pcbs s' p) = cmd_values (pcbs s p)"
  shows "devices_ok M A s'"
  by (rule devices_ok_queues [OF assms(1,2)]) (simp_all add: assms(3,4))

text \<open>A semaphore that is not part of a device: a word of a process, or the pseudo clock.\<close>

definition user_sem :: "machine \<Rightarrow> u32 \<Rightarrow> bool" where
  "user_sem M a \<longleftrightarrow> word_pointer a \<and> \<not> in_sysiostates M a"

lemma user_semD:
  assumes "machine_ok M" "user_sem M a"
  shows "sem_addr M a" "a \<noteq> 0" "d < DEVICE_NUMBER \<Longrightarrow> a \<noteq> sem_mut_addr M d" "d < DEVICE_NUMBER \<Longrightarrow> a \<noteq> sem_sync_addr M d"
  using assms(2) sem_in_sysiostates [OF assms(1), of d]
  by (auto simp: user_sem_def sem_addr_def word_pointer_def)

lemma user_sem_clock: "machine_ok M \<Longrightarrow> user_sem M (pseudo_clock_addr M)"
  by (auto simp: user_sem_def machine_ok_def)

section \<open>The invariant with the devices\<close>

lemma ash_semAdd: "ash s R A \<Longrightarrow> p \<in> set (A k) \<Longrightarrow> p_semAdd (pcbs s p) = k"
  by (auto simp: ash_def ash_rep_def)

definition minv :: "machine \<Rightarrow> kernel \<Rightarrow> lnode rmap \<Rightarrow> ash \<Rightarrow> pcb list \<Rightarrow> pcb list \<Rightarrow> ptree list \<Rightarrow> bool" where
  "minv M s R A rq fs ts \<longleftrightarrow> kinv s R A rq fs ts \<and> devices_ok M A s \<and> namespaces_ok s"

lemma minvD:
  assumes "minv M s R A rq fs ts"
  shows "kinv s R A rq fs ts" "devices_ok M A s" "namespaces_ok s"
  using assms by (simp_all add: minv_def)

lemma minv_cong:
  assumes "minv M s R A rq fs ts" "lh s' = lh s" "hh s' = hh s" "s_key s' = s_key s"
    and "\<And>p. p_semAdd (pcbs s' p) = p_semAdd (pcbs s p)" "\<And>p. p_parent (pcbs s' p) = p_parent (pcbs s p)"
    and "g_process_count s' = g_process_count s" "g_current_process s' = g_current_process s"
    and "\<And>p. cmd_addr (pcbs s' p) = cmd_addr (pcbs s p)" "\<And>p. cmd_values (pcbs s' p) = cmd_values (pcbs s p)"
    and "g_sysiostates s' = g_sysiostates s" "n_type s' = n_type s"
  shows "minv M s' R A rq fs ts"
proof -
  note d = minvD [OF assms(1)]
  have "kinv s' R A rq fs ts" by (rule kinv_cong [OF d(1) assms(2-8)])
  moreover have "devices_ok M A s'" by (rule devices_ok_cong [OF d(2) assms(11,9,10)])
  ultimately show ?thesis using d(3) assms(12) by (simp add: minv_def namespaces_ok_def)
qed

section \<open>Running, waiting, settled\<close>

text \<open>
  The two kinds of state in which an exception can occur: a process runs, or the scheduler
  waits for an interrupt (\<open>idle\<close>, or \<open>waiting\<close> when no process is ready).  In the second case \<open>g_current_process\<close> is null or points to the free
  block of a process that has been terminated; nothing reads it there but the accounting of time.
\<close>

definition running :: "machine \<Rightarrow> kernel \<Rightarrow> bool" where
  "running M s \<longleftrightarrow> (\<exists>R A rq fs ts. minv M s R A rq fs ts) \<and> g_current_process s \<noteq> NULL"

fun ptr_in :: "'a set \<Rightarrow> 'a ptr \<Rightarrow> bool" where
  "ptr_in L NULL \<longleftrightarrow> True"
| "ptr_in L (Ref x) \<longleftrightarrow> x \<in> L"

definition idle :: "machine \<Rightarrow> kernel \<Rightarrow> bool" where
  "idle M s \<longleftrightarrow> (\<exists>R A rq fs ts. minv M (s\<lparr>g_current_process := NULL\<rparr>) R A rq fs ts \<and>
     ptr_in (set fs) (g_current_process s))"

definition waiting :: "machine \<Rightarrow> kernel \<Rightarrow> bool" where
  "waiting M s \<longleftrightarrow> (\<exists>R A fs ts. minv M (s\<lparr>g_current_process := NULL\<rparr>) R A [] fs ts \<and>
     ptr_in (set fs) (g_current_process s)) \<and>
     0 < sint (g_process_count s) \<and> 0 < sint (g_soft_block_count s)"

text \<open>
  How the nucleus may leave an exception.  It panics on a bad system call (\<open>sysDoIO\<close> on an
  address that is no device register), with a process running, or on a deadlock.
\<close>

fun settled :: "machine \<Rightarrow> event \<Rightarrow> kernel \<Rightarrow> bool" where
  "settled M (LDST st) s \<longleftrightarrow> running M s"
| "settled M (LDCXT sp st pc) s \<longleftrightarrow> running M s"
| "settled M WAIT s \<longleftrightarrow> waiting M s"
| "settled M HALT s \<longleftrightarrow> idle M s \<and> g_process_count s = 0"
| "settled M PANIC s \<longleftrightarrow> running M s \<or> idle M s \<and> 0 < sint (g_process_count s) \<and> g_soft_block_count s = 0"
| "settled M SPIN s \<longleftrightarrow> idle M s \<and> sint (g_soft_block_count s) < 0"

section \<open>The scheduler\<close>

lemma minv_none: "minv M s R A rq fs ts \<Longrightarrow> g_current_process s = NULL \<Longrightarrow>
  minv M (s\<lparr>g_current_process := NULL\<rparr>) R A rq fs ts"
  using current_same by metis

lemma scheduler_settled:
  assumes k: "minv M (s\<lparr>g_current_process := NULL\<rparr>) R A rq fs ts" and c: "ptr_in (set fs) (g_current_process s)"
  shows "\<exists>e s'. scheduler M s = Some (Exits e s') \<and> settled M e s'"
proof (cases rq)
  case (Cons p rq')
  note d = minvD [OF k]
  from scheduler_kinv [OF d(1) [unfolded Cons]] obtain h R' where
    h: "scheduler M s = Some (Exits (LDST (p_s (pcbs s p))) (dispatched p h s))"
      "kinv (dispatched p h s) R' A rq' fs ts" by blast
  have "devices_ok M A (dispatched p h s)" by (rule devices_ok_cong [OF d(2)]) simp_all
  then have "minv M (dispatched p h s) R' A rq' fs ts"
    using h(2) d(3) by (simp add: minv_def namespaces_ok_def dispatched_def)
  then show ?thesis using h(1) by (force simp: running_def)
next
  case Nil
  note K = minvD(1) [OF k]
  note D = queuesD [OF kinvD(1) [OF K]]
  have r: "rings (lh s) R" "R Ready_queue = Some (map P_list [])" using D(2,5) Nil by simp_all
  have k1: "minv M (s1\<lparr>g_current_process := NULL\<rparr>) R A [] fs ts"
    if "lh s1 = lh s" "hh s1 = hh s" "s_key s1 = s_key s" "pcbs s1 = pcbs s" "g_process_count s1 = g_process_count s"
      "g_sysiostates s1 = g_sysiostates s" "n_type s1 = n_type s" for s1
    using that by (intro minv_cong [OF k [unfolded Nil]]) simp_all
  have n: "sint (g_process_count s) = int (length (fmembers ts))" using kinv_count(2) [OF K] by simp
  then have "0 < sint (g_process_count s)" if "g_process_count s \<noteq> 0"
    using that kinvD(10) [OF K] unfolding n by (cases "length (fmembers ts)") simp_all
  moreover have "sint (g_soft_block_count s) < 0" if "\<not> 0 < sint (g_soft_block_count s)" "g_soft_block_count s \<noteq> 0"
    using that by (metis linorder_neqE_linordered_idom sint_0 signed_eq_0_iff)
  moreover have "idle M (s\<lparr>scheduler_old_status := c\<rparr>)" for c
    using k1 [of "s\<lparr>scheduler_old_status := c\<rparr>"] assms(2) unfolding idle_def by force
  moreover have "waiting M (s\<lparr>scheduler_old_status := c, cpu_status := d\<rparr>)"
    if "0 < sint (g_process_count s)" "0 < sint (g_soft_block_count s)" for c d
    using k1 [of "s\<lparr>scheduler_old_status := c, cpu_status := d\<rparr>"] that assms(2) unfolding waiting_def by force
  ultimately show ?thesis unfolding scheduler_cases [OF r] Let_def by auto
qed

lemma scheduler_settled_none:
  assumes "minv M s R A rq fs ts" "g_current_process s = NULL"
  shows "\<exists>e s'. scheduler M s = Some (Exits e s') \<and> settled M e s'"
  by (rule scheduler_settled [OF minv_none [OF assms]]) (simp add: assms(2))

section \<open>The semaphore operations keep the invariant\<close>

text \<open>The current process blocks on a semaphore that is not part of a device.\<close>

lemma block_settled:
  assumes M: "machine_ok M" and k: "minv M s R A rq fs ts" and c: "g_current_process s = Ref p" and a: "user_sem M a"
  shows "\<exists>e s'. block_current M a s = Some (Exits e s') \<and> settled M e s'"
proof -
  note d = minvD [OF k] and u = user_semD [OF M a]
  from block_current_state [OF d(1) c u(2), of M] obtain s' R' where
    b: "block_current M a s = scheduler M s'" "kinv s' R' (A(a := A a @ [p])) rq fs ts"
      "g_current_process s' = NULL" "pcbs s' = (pcbs s)(p := (stopped p s)\<lparr>p_semAdd := a\<rparr>)"
      "g_sysiostates s' = g_sysiostates s" "n_type s' = n_type s" by blast
  have "devices_ok M (A(a := A a @ [p])) s'"
    by (rule devices_ok_queues [OF d(2) b(5)]) (use u(3,4) in \<open>auto simp: b(4) stopped_def\<close>)
  then have "minv M s' R' (A(a := A a @ [p])) rq fs ts" using b(2,6) d(3) by (simp add: minv_def namespaces_ok_def)
  from scheduler_settled_none [OF this b(3)] show ?thesis unfolding b(1) .
qed

text \<open>A run of the nucleus that returns to a running process or leaves it as it may.\<close>

fun safe :: "machine \<Rightarrow> 'a outcome option \<Rightarrow> bool" where
  "safe M None \<longleftrightarrow> False"
| "safe M (Some (Exits e s)) \<longleftrightarrow> settled M e s"
| "safe M (Some (Returns x s)) \<longleftrightarrow> running M s"

lemma safe_returning:
  assumes "safe M r" "\<And>x s. r = Some (Returns x s) \<Longrightarrow> running M s \<Longrightarrow> safe M (f x s)"
  shows "safe M (do { r \<leftarrow> r; returning r f })"
  using assms by (cases "(M, r)" rule: safe.cases) auto

lemma runningI: "minv M s R A rq fs ts \<Longrightarrow> g_current_process s = Ref p \<Longrightarrow> running M s"
  by (simp add: running_def) blast

lemma runningE:
  assumes "running M s"
  obtains R A rq fs ts p where "minv M s R A rq fs ts" "g_current_process s = Ref p"
  using assms by (auto simp: running_def)

lemma running_cong:
  assumes "running M s" "lh s' = lh s" "hh s' = hh s" "s_key s' = s_key s"
    and "\<And>p. p_semAdd (pcbs s' p) = p_semAdd (pcbs s p)" "\<And>p. p_parent (pcbs s' p) = p_parent (pcbs s p)"
    and "g_process_count s' = g_process_count s" "g_current_process s' = g_current_process s"
    and "\<And>p. cmd_addr (pcbs s' p) = cmd_addr (pcbs s p)" "\<And>p. cmd_values (pcbs s' p) = cmd_values (pcbs s p)"
    and "g_sysiostates s' = g_sysiostates s" "n_type s' = n_type s"
  shows "running M s'"
  using assms(1) minv_cong [OF _ assms(2-)] assms(8) unfolding running_def by metis

lemma sem_op_safe:
  assumes M: "machine_ok M" "user_sem M a" and r: "running M s"
  shows "safe M (sem_op M v0 d a s)"
proof -
  from r obtain R A rq fs ts p where k: "minv M s R A rq fs ts" and c: "g_current_process s = Ref p"
    by (rule runningE)
  note K = minvD [OF k] and u = user_semD [OF M]
  obtain v where v: "load_int M a s = Some v" using load_int_sem [OF u(1) M(1)] by blast
  show ?thesis
  proof (cases "v = v0")
    case False
    from block_settled [OF M(1) k c M(2)] obtain e s' where
      "block_current M a s = Some (Exits e s')" "settled M e s'" by blast
    then show ?thesis by (simp add: sem_op_taken [OF v False])
  next
    case v0: True
    show ?thesis
    proof (cases "A a")
      case Nil
      from sem_op_free [OF M(1) u(1) kinvD(1) [OF K(1)] v [unfolded v0] Nil, of d] obtain g x m
        where e: "sem_op M v0 d a s = Some (Returns () (s\<lparr>g_sysiostates := g, g_pseudo_clock := x, mem := m\<rparr>))"
          "\<not> in_sysiostates M a \<longrightarrow> g = g_sysiostates s"
        by blast
      have g: "g = g_sysiostates s" using e(2) M(2) by (simp add: user_sem_def)
      show ?thesis unfolding e safe.simps g by (rule running_cong [OF r]) simp_all
    next
      case (Cons w ws)
      from sem_op_wakes [OF kinvD(1) [OF K(1)] v [unfolded v0] Cons] obtain h x R' where
        e: "sem_op M v0 d a s = Some (Returns () (s\<lparr>lh := h, hh := x, pcbs := (pcbs s)(w := (pcbs s w)\<lparr>p_semAdd := 0\<rparr>)\<rparr>))"
        and q: "queues (s\<lparr>lh := h, hh := x, pcbs := (pcbs s)(w := (pcbs s w)\<lparr>p_semAdd := 0\<rparr>)\<rparr>) R'
          (A(a := ws)) (rq @ [w])" "same_rest R R'" by blast
      let ?s' = "s\<lparr>lh := h, hh := x, pcbs := (pcbs s)(w := (pcbs s w)\<lparr>p_semAdd := 0\<rparr>)\<rparr>"
      have "sem_ptrs ?s' (A(a := ws))"
        by (rule sem_ptrs_wake [OF kinvD(3) [OF K(1)] Cons]) simp_all
      then have k': "kinv ?s' R' (A(a := ws)) (rq @ [w]) fs ts"
        by (intro kinv_queues [OF K(1) q] accounted_wake [where A = A and a = a, OF _ Cons]) simp_all
      have "devices_ok M (A(a := ws)) ?s'"
        by (rule devices_ok_queues [OF K(2)]) (use u(3,4) in auto)
      then have "minv M ?s' R' (A(a := ws)) (rq @ [w]) fs ts" using k' K(3) by (simp add: minv_def namespaces_ok_def)
      then show ?thesis unfolding e safe.simps by (rule runningI) (simp add: c)
    qed
  qed
qed

end
