(* ===== verification/Ancestry.thy ===== *)
theory Ancestry
  imports Device_State
begin

text \<open>
  Ancestors by the parent pointers of the process table, and the trees of the invariant.
\<close>

section \<open>The chain of parents\<close>

text \<open>Whether \<open>t\<close> is reached from \<open>p\<close> by at most \<open>n\<close> parent pointers.\<close>

fun descends :: "kernel \<Rightarrow> nat \<Rightarrow> pcb \<Rightarrow> pcb \<Rightarrow> bool" where
  "descends s 0 p t \<longleftrightarrow> p = t"
| "descends s (Suc n) p t \<longleftrightarrow> p = t \<or>
     (case p_parent (pcbs s p) of NULL \<Rightarrow> False | Ref q \<Rightarrow> descends s n q t)"

text \<open>\<open>p\<close> is \<open>t\<close> or one of its descendants.\<close>

definition in_tree :: "kernel \<Rightarrow> pcb \<Rightarrow> pcb \<Rightarrow> bool" where
  "in_tree s p t \<longleftrightarrow> descends s MAX_PROC p t"

lemma descends_refl [simp]: "descends s n p p"
  by (cases n) simp_all

lemma descends_cong:
  "(\<And>p. p_parent (pcbs s' p) = p_parent (pcbs s p)) \<Longrightarrow> descends s' n p t = descends s n p t"
  by (induction n arbitrary: p) (simp_all split: ptr.split)

lemma descends_le: "descends s m p t \<Longrightarrow> m \<le> n \<Longrightarrow> descends s n p t"
proof (induction m arbitrary: p n)
  case (Suc m)
  then obtain k where "n = Suc k" "m \<le> k" by (cases n) auto
  with Suc show ?case by (auto split: ptr.splits)
qed simp

lemma descends_parent: "descends s n p t \<Longrightarrow> p_parent (pcbs s t) = Ref q \<Longrightarrow> descends s (Suc n) p q"
proof (induction n arbitrary: p)
  case (Suc n)
  show ?case
  proof (cases "p = t")
    case True
    then show ?thesis using Suc.prems(2) descends_refl by simp
  next
    case False
    then obtain r where r: "p_parent (pcbs s p) = Ref r" "descends s n r t"
      using Suc.prems(1) by (auto split: ptr.splits)
    have "descends s (Suc n) r q" by (rule Suc.IH [OF r(2) Suc.prems(2)])
    then show ?thesis using r(1) by simp
  qed
qed simp

section \<open>The trees of the invariant\<close>

lemma height_child: "t \<in> set ts \<Longrightarrow> height t < height (PNode p ts)"
  using fold_max_le_iff [of "map height ts" 0 "fold max (map height ts) 0"] by (simp add: less_Suc_eq_le)

lemma parents_ok_subtrees: "parents_ok f t \<Longrightarrow> u \<in> set (subtrees t) \<Longrightarrow> parents_ok f u"
  by (induction t) auto

lemma subtrees_trans: "u \<in> set (subtrees t) \<Longrightarrow> w \<in> set (subtrees u) \<Longrightarrow> w \<in> set (subtrees t)"
  by (induction t) auto

lemma forest_parent:
  assumes "forest_ok s R ts" "PNode q us \<in> set (fsubtrees ts)" "v \<in> set us"
  shows "p_parent (pcbs s (proot v)) = Ref q"
proof -
  obtain t where "t \<in> set ts" "PNode q us \<in> set (subtrees t)" using assms(2) by auto
  then show ?thesis using parents_ok_subtree [OF forest_okD(5) [OF assms(1)] _ assms(3)] by simp
qed

lemma members_descend:
  "parents_ok (\<lambda>p. p_parent (pcbs s p)) u \<Longrightarrow> x \<in> set (members u) \<Longrightarrow> descends s (height u) x (proot u)"
proof (induction u)
  case (PNode q us)
  show ?case
  proof (cases "x = q")
    case False
    then obtain v where v: "v \<in> set us" "x \<in> set (members v)" using PNode.prems(2) by auto
    have par: "p_parent (pcbs s (proot v)) = Ref q" "parents_ok (\<lambda>p. p_parent (pcbs s p)) v"
      using PNode.prems(1) v(1) by auto
    have "descends s (Suc (height v)) x q"
      by (rule descends_parent [OF PNode.IH [OF v(1) par(2) v(2)] par(1)])
    then show ?thesis using descends_le height_child [OF v(1)] by (metis Suc_leI proot.simps)
  qed simp
qed

lemma kinv_members_in_tree:
  assumes k: "kinv s R A rq fs ts" and u: "u \<in> set (fsubtrees ts)" and x: "x \<in> set (members u)"
  shows "in_tree s x (proot u)"
proof -
  note f = kinvD(4) [OF k]
  obtain t where t: "t \<in> set ts" "u \<in> set (subtrees t)" using u by auto
  have "parents_ok (\<lambda>p. p_parent (pcbs s p)) u"
    by (rule parents_ok_subtrees [OF forest_okD(5) [OF f t(1)] t(2)])
  then have d: "descends s (height u) x (proot u)" using x by (rule members_descend)
  have "height u \<le> MAX_PROC"
    using height_MAX_PROC distinct_fsubtree [OF forest_okD(1) [OF f] u] kinvD(6) [OF k] by blast
  then show ?thesis using descends_le [OF d] by (simp add: in_tree_def)
qed

lemma kinv_in_tree_members:
  assumes k: "kinv s R A rq fs ts"
  shows "p \<in> set (fmembers ts) \<Longrightarrow> descends s n p t \<Longrightarrow>
    \<exists>u \<in> set (fsubtrees ts). proot u = t \<and> p \<in> set (members u)"
proof (induction n arbitrary: p)
  case 0
  then show ?case using fsubtree_of_member [OF 0(1)] proot_member by (metis descends.simps(1))
next
  case (Suc n)
  note f = kinvD(4) [OF k]
  from fsubtree_of_member [OF Suc.prems(1)] obtain v where v: "v \<in> set (fsubtrees ts)" "proot v = p" .
  show ?case
  proof (cases "p = t")
    case True
    then show ?thesis using v proot_member [of v] by auto
  next
    case False
    then obtain q where q: "p_parent (pcbs s p) = Ref q" "descends s n q t"
      using Suc.prems(2) by (auto split: ptr.splits)
    from v(1) show ?thesis
    proof (cases rule: fsubtree_parent)
      case 1
      then show ?thesis using forest_okD(4) [OF f 1] v(2) q(1) by simp
    next
      case (2 r us)
      have "p_parent (pcbs s p) = Ref r" using forest_parent [OF f 2] v(2) by simp
      then have r: "r = q" using q(1) by simp
      have "q \<in> set (fmembers ts)" using 2(1) r by (auto simp: fmembers_subtrees intro!: image_eqI)
      from Suc.IH [OF this q(2)] obtain u where u: "u \<in> set (fsubtrees ts)" "proot u = t" "q \<in> set (members u)"
        by blast
      then obtain w where w: "w \<in> set (subtrees u)" "proot w = q" by (auto simp: members_subtrees)
      have "w \<in> set (fsubtrees ts)" using u(1) subtrees_trans [OF _ w(1)] by auto
      then have "w = PNode q us"
        using fsubtree_unique [OF forest_okD(1) [OF f] _ 2(1)] w(2) r by simp
      then have "p \<in> set (members w)" using 2(2) v(2) proot_member [of v] by auto
      then show ?thesis using u subtree_members [OF w(1)] by blast
    qed
  qed
qed

end
