(* ===== verification/Lifecycle.thy ===== *)
theory Lifecycle
  imports Ancestry
begin

text \<open>
  Creation and termination of processes on the invariant: \<open>sysCreateProcess\<close> grafts a new
  leaf under the current process, \<open>sysTerminateProcess\<close> cuts the tree of a process out.
\<close>

section \<open>Creation\<close>

lemma kinv_children:
  assumes k: "kinv s R A rq fs ts" and q: "q \<in> set (fmembers ts)"
  obtains us where "R (P_child q) = Some (map (\<lambda>t. P_sib (proot t)) us)" "PNode q us \<in> set (fsubtrees ts)"
proof -
  from q obtain u where u: "u \<in> set (fsubtrees ts)" "proot u = q" by (rule fsubtree_of_member)
  then obtain t where t: "t \<in> set ts" "u \<in> set (subtrees t)" by auto
  obtain us where us: "u = PNode q us" using u(2) by (cases u) auto
  have "tree_at R u" using subtree_at [OF forest_okD(2) [OF kinvD(4) [OF k] t(1)] t(2)] .
  then show thesis using that [of us] u(1) us by simp
qed

text \<open>The namespaces that \<open>sysCreateProcess\<close> gives to the new process.\<close>

definition child_namespaces :: "nsd ptr \<Rightarrow> pcb \<Rightarrow> kernel \<Rightarrow> nat \<Rightarrow> nsd ptr" where
  "child_namespaces ns q s = (case ns of
      Ref n \<Rightarrow> (\<lambda>_. NULL)(n_type s n := Ref n)
    | NULL \<Rightarrow> (\<lambda>_. NULL)(NS_PID := namespaces (pcbs s q) NS_PID))"

definition child_pcb :: "state_t \<Rightarrow> u32 \<Rightarrow> nsd ptr \<Rightarrow> pcb \<Rightarrow> kernel \<Rightarrow> pcb_t" where
  "child_pcb st supportp ns q s = zero_pcb\<lparr>p_s := st, p_supportStruct := supportp,
     namespaces := child_namespaces ns q s, p_parent := Ref q\<rparr>"

lemma child_pcb_simps [simp]:
  "p_semAdd (child_pcb st supportp ns q s) = 0" "p_parent (child_pcb st supportp ns q s) = Ref q"
  by (simp_all add: child_pcb_def zero_pcb_def)

lemma one_namespace: "NS_TYPE_MAX = Suc 0"
  by (simp add: NS_TYPE_MAX_def NS_TYPE_LAST_def NS_PID_def)

text \<open>The part of \<open>sysCreateProcess\<close> that assigns the namespaces.\<close>

lemma create_namespaces:
  assumes R: "rings (lh s) R" "R (P_child p) = Some []"
    and ns: "ns = NULL \<or> (\<exists>n. ns = Ref n \<and> n_type s n < NS_TYPE_MAX)"
    and q: "g_current_process s = Ref q" "p \<noteq> q" and z: "namespaces (pcbs s p) = (\<lambda>_. NULL)"
  shows "(if ns \<noteq> NULL then do { (_, s) \<leftarrow> addNamespace MAX_PROC (Ref p) ns s; Some s }
     else for_upto NS_TYPE_MAX (\<lambda>i s. do {
       c \<leftarrow> get_pcb (g_current_process s) s;
       upd_pcb (\<lambda>p. p\<lparr>namespaces := (namespaces p)(i := namespaces c i)\<rparr>) (Ref p) s
     }) s) = Some (s\<lparr>pcbs := (pcbs s)(p := (pcbs s p)\<lparr>namespaces := child_namespaces ns q s\<rparr>)\<rparr>)"
proof (cases ns)
  case NULL
  then show ?thesis using q z by (simp add: one_namespace child_namespaces_def NS_PID_def)
next
  case (Ref n)
  then have n: "n_type s n < NS_TYPE_MAX" using ns by simp
  have "addNamespace MAX_PROC (Ref (proot (PNode p []))) (Ref n) s =
      Some (True, s\<lparr>pcbs := in_namespace n (n_type s n) (set (members (PNode p []))) (pcbs s)\<rparr>)"
    by (rule addNamespace_tree [OF R(1) _ _ n]) (simp_all add: R(2) MAX_PROC_def)
  moreover have "in_namespace n (n_type s n) {p} (pcbs s) =
      (pcbs s)(p := (pcbs s p)\<lparr>namespaces := child_namespaces ns q s\<rparr>)"
    using z Ref by (auto simp: in_namespace_def child_namespaces_def)
  ultimately show ?thesis using Ref by simp
qed

text \<open>The rings after a creation.\<close>

definition created_rings :: "lnode rmap \<Rightarrow> pcb list \<Rightarrow> pcb list \<Rightarrow> pcb \<Rightarrow> pcb \<Rightarrow> pcb list \<Rightarrow> lnode rmap" where
  "created_rings R fs rq q p cs = R(PcbFree_h \<mapsto> map P_list fs, P_list p := None, P_child p \<mapsto> [],
     P_sib p := None, Ready_queue \<mapsto> map P_list (rq @ [p]), P_child q \<mapsto> map P_sib (cs @ [p]))"

lemma create_links:
  assumes R: "rings (lh s) R" "R PcbFree_h = Some (map P_list fs)" "R Ready_queue = Some (map P_list rq)"
      "R (P_child q) = Some (map P_sib cs)"
    and p: "R (P_list p) = Some []" "R (P_child p) = Some []" "R (P_sib p) = Some []" "p \<noteq> q"
  shows "\<exists>h1 h. insertProcQ (Ref Ready_queue) (Ref p) s = Some (s\<lparr>lh := h1\<rparr>) \<and>
     insertChild (Ref q) (Ref p) (s\<lparr>lh := h1\<rparr>) =
       Some (s\<lparr>lh := h, pcbs := (pcbs s)(p := (pcbs s p)\<lparr>p_parent := Ref q\<rparr>)\<rparr>) \<and>
     rings h (created_rings R fs rq q p cs)"
proof -
  have pq: "p \<notin> set rq" "p \<notin> set cs"
    using alone_not_entry [OF R(1) rings_alone [OF R(1) p(1)] R(3)]
      alone_not_entry [OF R(1) rings_alone [OF R(1) p(3)] R(4)] by auto
  have u: "unlink (P_list p) R = R(P_list p := None)" by (rule unlink_self [OF rings_shape [OF R(1)] p(1)])
  obtain h1 where h1: "insertProcQ (Ref Ready_queue) (Ref p) s = Some (s\<lparr>lh := h1\<rparr>)"
      "rings h1 (R(P_list p := None, Ready_queue \<mapsto> map P_list (rq @ [p])))" (is "rings h1 ?R1")
    using insertProcQ_rings [OF R(1,3), of p] p(1) pq u by (auto simp: loose_def removeAll_id)
  have r1: "?R1 (P_child q) = Some (map P_sib cs)" "?R1 (P_sib p) = Some []" "loose (P_sib p) ?R1"
    using R(4) p(3) by (simp_all add: loose_def)
  have "unlink (P_sib p) ?R1 = ?R1(P_sib p := None)" by (rule unlink_self [OF rings_shape [OF h1(2)] r1(2)])
  with insertChild_rings [of "s\<lparr>lh := h1\<rparr>" ?R1 q cs p] h1(2) r1 pq obtain h2 where
    h2: "insertChild (Ref q) (Ref p) (s\<lparr>lh := h1\<rparr>) =
       Some (s\<lparr>lh := h2, pcbs := (pcbs s)(p := (pcbs s p)\<lparr>p_parent := Ref q\<rparr>)\<rparr>)"
    "rings h2 (?R1(P_sib p := None, P_child q \<mapsto> map P_sib (cs @ [p])))"
    by (auto simp: removeAll_id)
  have "?R1(P_sib p := None, P_child q \<mapsto> map P_sib (cs @ [p])) = created_rings R fs rq q p cs"
    using R(2) p(2,4) by (auto simp: created_rings_def fun_eq_iff)
  with h1(1) h2 show ?thesis by (intro exI [of _ h1] exI [of _ h2]) simp
qed

lemma created_rings_simps:
  assumes "p \<noteq> q"
  shows "created_rings R fs rq q p cs PcbFree_h = Some (map P_list fs)"
    "created_rings R fs rq q p cs Ready_queue = Some (map P_list (rq @ [p]))"
    "created_rings R fs rq q p cs (P_child p) = Some []"
    "created_rings R fs rq q p cs (P_child q) = Some (map P_sib (cs @ [p]))"
    "x \<noteq> p \<Longrightarrow> x \<noteq> q \<Longrightarrow> created_rings R fs rq q p cs (P_child x) = R (P_child x)"
    "x \<noteq> p \<Longrightarrow> created_rings R fs rq q p cs (P_sib x) = R (P_sib x)"
    "x \<noteq> p \<Longrightarrow> created_rings R fs rq q p cs (P_list x) = R (P_list x)"
    "sem_node n \<Longrightarrow> created_rings R fs rq q p cs n = R n"
  using assms by (auto simp: created_rings_def)

lemma created_vacant:
  assumes "p \<noteq> q" "x \<noteq> p" "x \<noteq> q"
  shows "vacant (P_child x) R \<Longrightarrow> vacant (P_child x) (created_rings R fs rq q p cs)"
    "vacant (P_sib x) R \<Longrightarrow> x \<notin> set cs \<Longrightarrow> vacant (P_sib x) (created_rings R fs rq q p cs)"
    "vacant (S_procq i) R \<Longrightarrow> vacant (S_procq i) (created_rings R fs rq q p cs)"
  using assms unfolding vacant_def not_in_nodes created_rings_def by (auto split: if_splits)

text \<open>The tree of the processes after a creation.\<close>

lemma created_forest:
  assumes f: "forest_ok s R ts" and q: "q \<in> set (fmembers ts)" and p: "p \<notin> set (fmembers ts)"
    and cs: "R (P_child q) = Some (map P_sib cs)"
    and s': "\<And>x. x \<noteq> p \<Longrightarrow> p_parent (pcbs s' x) = p_parent (pcbs s x)" "p_parent (pcbs s' p) = Ref q"
  shows "forest_ok s' (created_rings R fs rq q p cs) (map (graft q p) ts)"
proof -
  note F = forest_okD [OF f]
  have pq: "p \<noteq> q" using p q by auto
  note C = created_rings_simps [OF pq]
  have "tree_at (created_rings R fs rq q p cs) (graft q p t) \<and>
      created_rings R fs rq q p cs (P_sib (proot t)) = Some [] \<and> p_parent (pcbs s' (proot t)) = NULL \<and>
      parents_ok (\<lambda>x. p_parent (pcbs s' x)) (graft q p t)" if t: "t \<in> set ts" for t
  proof (intro conjI)
    have np: "x \<noteq> p" if "x \<in> set (members t)" for x using that t p by auto
    show "tree_at (created_rings R fs rq q p cs) (graft q p t)"
      by (rule graft_tree_at [where R = R]) (use np cs C(3,4,5) F(2) [OF t] in auto)
    show "created_rings R fs rq q p cs (P_sib (proot t)) = Some []" "p_parent (pcbs s' (proot t)) = NULL"
      using np [OF proot_member] F(3,4) [OF t] s'(1) C(6) by simp_all
    show "parents_ok (\<lambda>x. p_parent (pcbs s' x)) (graft q p t)"
      by (rule graft_parents_ok [OF _ _ F(5) [OF t]]) (use np s' in auto)
  qed
  then show ?thesis using fmembers_graft(2) [OF F(1) q p] by (auto simp: forest_ok_def comp_def)
qed

lemma kinv_create:
  assumes k: "kinv s R A rq (p # fs) ts" and q: "g_current_process s = Ref q"
    and st: "word_pointer statep" and ns: "ns = NULL \<or> (\<exists>n. ns = Ref n \<and> n_type s n < NS_TYPE_MAX)"
  shows "\<exists>h R'. sysCreateProcess M statep supportp ns s = Some (pcb_addr M (Ref p),
       s\<lparr>lh := h, g_process_count := g_process_count s + 1,
          pcbs := (pcbs s)(p := child_pcb (user_states s statep) supportp ns q s)\<rparr>) \<and>
     kinv (s\<lparr>lh := h, g_process_count := g_process_count s + 1,
          pcbs := (pcbs s)(p := child_pcb (user_states s statep) supportp ns q s)\<rparr>)
       R' A (rq @ [p]) fs (map (graft q p) ts)"
proof -
  note D = kinvD [OF k]
  note Q = queuesD [OF D(1)]
  note F = forest_okD [OF D(4)]
  have ql: "q \<in> set (fmembers ts)" by (rule kinv_live(3) [OF k q])
  have pl: "p \<notin> set (fmembers ts)" "p < MAX_PROC" using D(5,6) by auto
  then have pq: "p \<noteq> q" using ql by auto
  have pfs: "p \<notin> set fs" using ringsD(2) [OF Q(5) D(2)] by auto
  have pA: "p \<notin> set (A j)" "p \<notin> set rq" for j using pl(1) kinv_live(1,2) [OF k] by blast+
  obtain us where us: "R (P_child q) = Some (map (\<lambda>t. P_sib (proot t)) us)" "PNode q us \<in> set (fsubtrees ts)"
    using kinv_children [OF k ql] by blast
  define cs where "cs = map proot us"
  have cs: "R (P_child q) = Some (map P_sib cs)" "set cs \<subseteq> set (fmembers ts)"
  proof -
    show "R (P_child q) = Some (map P_sib cs)" using us(1) by (simp add: cs_def comp_def)
    have "set cs \<subseteq> set (members (PNode q us))" using proot_member by (fastforce simp: cs_def)
    then show "set cs \<subseteq> set (fmembers ts)" using subtree_members us(2) by fastforce
  qed
  from allocPcb_ash [OF Q(1) D(2) D(8) D(9)] obtain h1 where
    h1: "allocPcb s = Some (Ref p, s\<lparr>lh := h1, pcbs := (pcbs s)(p := zero_pcb)\<rparr>)"
    "ash (s\<lparr>lh := h1, pcbs := (pcbs s)(p := zero_pcb)\<rparr>)
       (R(PcbFree_h \<mapsto> map P_list fs, P_list p \<mapsto> [], P_child p \<mapsto> [], P_sib p \<mapsto> [])) A" (is "ash ?s1 ?R1 A")
    by auto
  define s2 where "s2 = s\<lparr>lh := h1, g_process_count := g_process_count s + 1,
    pcbs := (pcbs s)(p := zero_pcb\<lparr>p_s := user_states s statep, p_supportStruct := supportp\<rparr>)\<rparr>"
  define s3 where "s3 = s2\<lparr>pcbs := (pcbs s2)(p := (pcbs s2 p)\<lparr>namespaces := child_namespaces ns q s\<rparr>)\<rparr>"
  have r2: "rings (lh s2) ?R1" using ash_rings [OF h1(2)] by (simp add: s2_def)
  have "child_namespaces ns q s2 = child_namespaces ns q s"
    using pq by (auto simp: child_namespaces_def s2_def split: ptr.splits)
  with create_namespaces [OF r2, of p ns q] ns q pq have names:
    "(if ns \<noteq> NULL then do { (_, s) \<leftarrow> addNamespace MAX_PROC (Ref p) ns s2; Some s }
     else for_upto NS_TYPE_MAX (\<lambda>i s. do {
       c \<leftarrow> get_pcb (g_current_process s) s;
       upd_pcb (\<lambda>p. p\<lparr>namespaces := (namespaces p)(i := namespaces c i)\<rparr>) (Ref p) s
     }) s2) = Some s3" by (simp add: s2_def s3_def zero_pcb_def)
  have R1: "rings (lh s3) ?R1" "?R1 PcbFree_h = Some (map P_list fs)" "?R1 Ready_queue = Some (map P_list rq)"
    "?R1 (P_child q) = Some (map P_sib cs)" "?R1 (P_list p) = Some []" "?R1 (P_child p) = Some []"
    "?R1 (P_sib p) = Some []" using r2 Q(2) cs(1) pq by (simp_all add: s3_def)
  from create_links [OF R1 pq] obtain h4 h where
    h: "insertProcQ (Ref Ready_queue) (Ref p) s3 = Some (s3\<lparr>lh := h4\<rparr>)"
    "insertChild (Ref q) (Ref p) (s3\<lparr>lh := h4\<rparr>) =
       Some (s3\<lparr>lh := h, pcbs := (pcbs s3)(p := (pcbs s3 p)\<lparr>p_parent := Ref q\<rparr>)\<rparr>)"
    "rings h (created_rings ?R1 fs rq q p cs)" by blast
  have RR: "created_rings ?R1 fs rq q p cs = created_rings R fs rq q p cs"
    by (auto simp: created_rings_def fun_eq_iff)
  let ?s' = "s\<lparr>lh := h, g_process_count := g_process_count s + 1,
          pcbs := (pcbs s)(p := child_pcb (user_states s statep) supportp ns q s)\<rparr>"
  let ?R' = "created_rings R fs rq q p cs"
  have s': "s3\<lparr>lh := h, pcbs := (pcbs s3)(p := (pcbs s3 p)\<lparr>p_parent := Ref q\<rparr>)\<rparr> = ?s'"
    by (rule kernel.equality) (simp_all add: s3_def s2_def child_pcb_def)
  have c3: "g_current_process (s3\<lparr>lh := h4\<rparr>) = Ref q" using q by (simp add: s3_def s2_def)
  have "sysCreateProcess M statep supportp ns s = do {
      s \<leftarrow> (if ns \<noteq> NULL then do { (_, s) \<leftarrow> addNamespace MAX_PROC (Ref p) ns s2; Some s }
        else for_upto NS_TYPE_MAX (\<lambda>i s. do {
          c \<leftarrow> get_pcb (g_current_process s) s;
          upd_pcb (\<lambda>p. p\<lparr>namespaces := (namespaces p)(i := namespaces c i)\<rparr>) (Ref p) s
        }) s2);
      s \<leftarrow> insertProcQ (Ref Ready_queue) (Ref p) s;
      s \<leftarrow> insertChild (g_current_process s) (Ref p) s;
      Some (pcb_addr M (Ref p), s)
    }"
    using st by (simp add: sysCreateProcess_def h1(1) load_state_def s2_def kmem_order)
  then have run: "sysCreateProcess M statep supportp ns s = Some (pcb_addr M (Ref p), ?s')"
    unfolding names Option.bind.bind_lunit h(1) c3 h(2) s' .
  have "kinv ?s' ?R' A (rq @ [p]) fs (map (graft q p) ts)"
  proof (rule kinvI)
    note C = created_rings_simps [OF pq]
    have r: "rings h ?R'" using h(3) unfolding RR .
    have "ash ?s' ?R' A"
    proof (rule ash_transfer [OF h1(2)])
      show "keeps_sems ?R1 ?R'"
        unfolding keeps_sems_def vacant_def not_in_nodes created_rings_def by (auto split: if_splits)
    qed (use r pA in \<open>auto simp: zero_pcb_def\<close>)
    then show "queues ?s' ?R' A (rq @ [p])"
      using Q(3,4) pl(2) C(2) C(7) [where x = q] pq Q(6,7) [OF q] q by (auto simp: queues_def)
    show "?R' PcbFree_h = Some (map P_list fs)" by (rule C(1))
    show "sem_ptrs ?s' A" using D(3) pA by (auto simp: sem_ptrs_def)
    show "forest_ok ?s' ?R' (map (graft q p) ts)"
      by (rule created_forest [OF D(4) ql pl(1) cs(1)]) simp_all
    note G = fmembers_graft [OF F(1) ql pl(1)]
    show "set fs \<inter> set (fmembers (map (graft q p) ts)) = {}"
      "set fs \<union> set (fmembers (map (graft q p) ts)) = {..<MAX_PROC}"
      unfolding G(3) using D(5,6) pfs by auto
    show "accounted ?s' A (rq @ [p]) x" if "x \<in> set (fmembers (map (graft q p) ts))" for x
      using that D(7) [of x] unfolding G(3) by (auto simp: accounted_def)
    have "length (fmembers (map (graft q p) ts)) = Suc (length (fmembers ts))"
      using arg_cong [OF G(1), of size] by simp
    then show "g_process_count ?s' = of_nat (length (fmembers (map (graft q p) ts)))"
      using D(10) by simp
    show "vacant (P_child x) ?R' \<and> vacant (P_sib x) ?R'" if x: "x \<in> set fs" for x
    proof -
      have "x \<noteq> p" "x \<noteq> q" "x \<notin> set cs" using x pfs D(5) ql cs(2) by auto
      then show ?thesis using created_vacant(1,2) [OF pq, where x = x and R = R] D(8,9) [of x] x by auto
    qed
  qed
  with run show ?thesis by blast
qed

section \<open>Termination\<close>

text \<open>\<open>outChild\<close> takes the process out of the list of its parent; a root has none.\<close>

lemma outChild_forest:
  assumes R: "rings (lh s) R" and f: "forest_ok s R ts" and u: "u \<in> set (fsubtrees ts)"
  shows "\<exists>b h R1. outChild (Ref (proot u)) s = Some (b, s\<lparr>lh := h\<rparr>) \<and> rings h R1 \<and>
     R1 (P_sib (proot u)) = Some [] \<and>
     (\<forall>q. R1 (P_child q) = map_option (removeAll (P_sib (proot u))) (R (P_child q))) \<and>
     (\<forall>x \<in> set (members u). R1 (P_child x) = R (P_child x)) \<and>
     (\<forall>n. n \<noteq> P_sib (proot u) \<longrightarrow> (\<forall>q. n \<noteq> P_child q) \<longrightarrow> R1 n = R n) \<and>
     (\<forall>n. vacant n R \<longrightarrow> vacant n R1)"
proof -
  note F = forest_okD [OF f]
  let ?c = "P_sib (proot u)"
  consider "u \<in> set ts" | q us where "PNode q us \<in> set (fsubtrees ts)" "u \<in> set us"
    using u by (rule fsubtree_parent)
  then show ?thesis
  proof cases
    case 1
    have "?c \<notin> set xs" if "R q = Some xs" for q xs
      by (rule alone_not_entry [OF R rings_alone [OF R F(3) [OF 1]] that])
    then have "map_option (removeAll ?c) (R (P_child q)) = R (P_child q)" for q
      by (cases "R (P_child q)") (simp_all add: removeAll_id)
    moreover have "outChild (Ref (proot u)) s = Some (NULL, s\<lparr>lh := lh s\<rparr>)"
      using outChild_orphan [of s "proot u"] F(4) [OF 1] by simp
    ultimately show ?thesis using R F(3) [OF 1] by (intro exI [of _ NULL] exI [of _ "lh s"] exI [of _ R]) simp
  next
    case (2 q us)
    from 2(1) obtain t where t: "t \<in> set ts" "PNode q us \<in> set (subtrees t)" by auto
    have p: "p_parent (pcbs s (proot u)) = Ref q" using parents_ok_subtree [OF F(5) [OF t(1)] t(2) 2(2)] .
    define cs where "cs = map proot us"
    have cs: "R (P_child q) = Some (map P_sib cs)" "proot u \<in> set cs"
      using subtree_at [OF F(2) [OF t(1)] t(2)] 2(2) by (auto simp: cs_def comp_def)
    have "distinct (members (PNode q us))" by (rule distinct_fsubtree(1) [OF F(1) 2(1)])
    then have qu: "q \<notin> set (members u)" using 2(2) by auto
    have only: "?c \<notin> set xs" if "R n = Some xs" "n \<noteq> P_child q" for n xs
      using two_rings_disjoint [OF R that(1) cs(1) that(2)] cs(2) by auto
    have other: "map_option (removeAll ?c) (R (P_child x)) = R (P_child x)" if "x \<noteq> q" for x
      using only that by (cases "R (P_child x)") (simp_all add: removeAll_id)
    from outChild_rings [OF R cs(1) p] cs(2) obtain h where
      h: "outChild (Ref (proot u)) s = Some (Ref (proot u), s\<lparr>lh := h\<rparr>)"
      "rings h (R(P_child q \<mapsto> map P_sib (removeAll (proot u) cs), ?c \<mapsto> []))" (is "rings h ?R1") by auto
    have rm: "map P_sib (removeAll (proot u) cs) = removeAll ?c (map P_sib cs)" by (induction cs) auto
    have "vacant n ?R1" if "vacant n R" for n
    proof (cases "n = ?c")
      case False
      have "n \<noteq> P_child q \<or> cs = []" using that cs(1) nodes_headI [of R "P_child q"] by (auto simp: vacant_def)
      moreover have "n \<notin> nodes R \<Longrightarrow> n \<notin> set (map P_sib cs)" using nodes_memI [of R "P_child q"] cs(1) by blast
      ultimately show ?thesis
        using that False cs unfolding vacant_def not_in_nodes by (auto split: if_splits)
    qed (simp add: vacant_def)
    moreover have "\<forall>x. ?R1 (P_child x) = map_option (removeAll ?c) (R (P_child x))"
      using cs(1) other by (auto simp: rm)
    moreover have "\<forall>x \<in> set (members u). ?R1 (P_child x) = R (P_child x)" using qu by auto
    ultimately show ?thesis using h
      by (intro exI [of _ "Ref (proot u)"] exI [of _ h] exI [of _ ?R1]) simp
  qed
qed

lemma killable_subtree:
  assumes k: "kinv s R A rq fs ts" and u: "u \<in> set (fsubtrees ts)"
    and R1: "\<And>p. R1 (P_list p) = R (P_list p)"
  shows "killable R1 A rq fs (members u)"
proof -
  note D = kinvD [OF k]
  note U = distinct_fsubtree [OF forest_okD(1) [OF D(4)] u]
  have "placed R1 A rq p" if "p \<in> set (members u)" for p
  proof -
    have "accounted s A rq p" using D(7) that U(2) by blast
    then show ?thesis using queuesD(7) [OF D(1), of p] R1 by (auto simp: placed_def accounted_def)
  qed
  then show ?thesis using U D(5) by (auto simp: killable_def)
qed

text \<open>The forest after the tree of \<open>u\<close> has been cut out.\<close>

lemma pruned_forest:
  assumes f: "forest_ok s R ts" and u: "u \<in> set (fsubtrees ts)"
    and R': "\<And>q. q \<notin> set (members u) \<Longrightarrow> R' (P_child q) = map_option (removeAll (P_sib (proot u))) (R (P_child q))"
      "\<And>q. q \<notin> set (members u) \<Longrightarrow> R' (P_sib q) = R (P_sib q)"
    and s': "\<And>p. p_parent (pcbs s' p) = p_parent (pcbs s p)"
  shows "forest_ok s' R' (prune_all (proot u) ts)"
proof -
  note F = forest_okD [OF f]
  note m = fmembers_prune [OF F(1) u]
  have "tree_at R' t' \<and> R' (P_sib (proot t')) = Some [] \<and> p_parent (pcbs s' (proot t')) = NULL \<and>
      parents_ok (\<lambda>p. p_parent (pcbs s' p)) t'" if t': "t' \<in> set (prune_all (proot u) ts)" for t'
  proof -
    obtain t where t: "t' = prune (proot u) t" "t \<in> set ts" using t' by (auto simp: prune_all_def)
    have "set (members t') \<subseteq> set (fmembers (prune_all (proot u) ts))" using t' by auto
    then have out: "x \<notin> set (members u)" if "x \<in> set (members t')" for x using that unfolding m by auto
    have "tree_at R' t'" unfolding t(1)
      by (rule prune_tree_at [where R = R]) (use R'(1) out t F(2) in auto)
    moreover have "proot t \<notin> set (members u)" using out [of "proot t'"] proot_member [of t'] t(1) by simp
    ultimately show ?thesis using R'(2) F(3-5) [OF t(2)] t(1) by (simp add: s' parents_ok_prune)
  qed
  moreover have "distinct (fmembers (prune_all (proot u) ts))" unfolding m using F(1) by simp
  ultimately show ?thesis by (simp add: forest_ok_def)
qed

text \<open>The current process is in no queue: if it is not itself of the tree, it is lost.\<close>

lemma kinv_terminate_but:
  assumes M: "machine_ok M" and k: "kinv s R A rq fs ts" and u: "u \<in> set (fsubtrees ts)"
  shows "\<exists>h x R'. do { (_, s) \<leftarrow> outChild (Ref (proot u)) s; terminateProcess M MAX_PROC (Ref (proot u)) s } =
       Some (killed M s (members u) (length (members u)) h x) \<and>
     kinv_but {q. g_current_process s = Ref q \<and> q \<notin> set (members u)}
       ((killed M s (members u) (length (members u)) h x)\<lparr>g_current_process := NULL\<rparr>) R'
       (\<lambda>k. keep (members u) (A k)) (keep (members u) rq) (rev (postorder u) @ fs) (prune_all (proot u) ts)"
proof -
  note D = kinvD [OF k]
  note Q = queuesD [OF D(1)]
  note U = distinct_fsubtree [OF forest_okD(1) [OF D(4)] u]
  note m = fmembers_prune [OF forest_okD(1) [OF D(4)] u]
  let ?ms = "members u"
  from outChild_forest [OF Q(5) D(4) u] obtain b h1 R1 where
    o: "outChild (Ref (proot u)) s = Some (b, s\<lparr>lh := h1\<rparr>)" "rings h1 R1" "R1 (P_sib (proot u)) = Some []"
    "\<forall>q. R1 (P_child q) = map_option (removeAll (P_sib (proot u))) (R (P_child q))"
    "\<forall>x \<in> set ?ms. R1 (P_child x) = R (P_child x)"
    "\<forall>n. n \<noteq> P_sib (proot u) \<longrightarrow> (\<forall>q. n \<noteq> P_child q) \<longrightarrow> R1 n = R n" "\<forall>n. vacant n R \<longrightarrow> vacant n R1" by blast
  have "ash (s\<lparr>lh := h1\<rparr>) R1 A"
  proof (rule ash_transfer [OF Q(1)])
    have "R1 q = R q" if "sem_node q" for q using o(6) that by (cases q) auto
    then show "keeps_sems R R1" using o(7) by (auto simp: keeps_sems_def)
  qed (use o(2) in simp_all)
  then have k1: "kstate (s\<lparr>lh := h1\<rparr>) R1 A rq fs" using Q(2) D(2) o(6) by (simp add: kstate_def)
  have "tree_at R1 u" "height u \<le> MAX_PROC"
  proof -
    obtain t where t: "t \<in> set ts" "u \<in> set (subtrees t)" using u by auto
    have "tree_at R u" by (rule subtree_at [OF forest_okD(2) [OF D(4) t(1)] t(2)])
    then show "tree_at R1 u" using tree_at_cong [of u R1 R] o(5) by blast
    show "height u \<le> MAX_PROC" using height_MAX_PROC U D(6) by blast
  qed
  moreover have "killable R1 A rq fs ?ms" by (rule killable_subtree [OF k u]) (use o(6) in simp)
  moreover have "sem_ptrs (s\<lparr>lh := h1\<rparr>) A" using D(3) by (simp add: sem_ptrs_def)
  ultimately obtain s' R' where t: "terminateProcess M MAX_PROC (Ref (proot u)) (s\<lparr>lh := h1\<rparr>) = Some s'"
      "ended M (s\<lparr>lh := h1\<rparr>) R1 A rq fs ?ms (postorder u) {} s' R'"
    using terminate_tree [OF M _ k1 _ _ o(3)] by blast
  from t(2) obtain h x where e: "s' = killed M s ?ms (length ?ms) h x"
    "kstate s' R' (\<lambda>k. keep ?ms (A k)) (keep ?ms rq) (rev (postorder u) @ fs)" "kill_frame (set ?ms) {} R1 R'"
    "\<And>p. p \<in> set ?ms \<Longrightarrow> R' (P_child p) = Some [] \<and> R' (P_sib p) = Some []"
    by (auto elim!: endedD simp: killed_lh)
  note kf = kill_frameD [OF e(3)]
  have R'c: "R' (P_child q) = map_option (removeAll (P_sib (proot u))) (R (P_child q))"
    "R' (P_sib q) = R (P_sib q)" if "q \<notin> set ?ms" for q
  proof -
    have "q \<noteq> proot u" using that proot_member [of u] by auto
    then show "R' (P_child q) = map_option (removeAll (P_sib (proot u))) (R (P_child q))"
      "R' (P_sib q) = R (P_sib q)"
      using kf(1) [of "P_child q"] kf(1) [of "P_sib q"] that o(4,6) by simp_all
  qed
  have "kinv_but {q. g_current_process s = Ref q \<and> q \<notin> set ?ms} (s'\<lparr>g_current_process := NULL\<rparr>) R'
      (\<lambda>k. keep ?ms (A k)) (keep ?ms rq) (rev (postorder u) @ fs) (prune_all (proot u) ts)"
  proof (rule kinv_butI)
    have "ash (s'\<lparr>g_current_process := NULL\<rparr>) R' (\<lambda>k. keep ?ms (A k))"
      by (rule ash_transfer [OF kstateD(1) [OF e(2)], where R' = R'])
        (use kstateD(2) [OF e(2)] in \<open>simp_all add: keeps_sems_def\<close>)
    then show "queues (s'\<lparr>g_current_process := NULL\<rparr>) R' (\<lambda>k. keep ?ms (A k)) (keep ?ms rq)"
      using kstateD(3) [OF e(2)] Q(3,4) by (fastforce simp: queues_def)
    show "R' PcbFree_h = Some (map P_list (rev (postorder u) @ fs))" by (rule kstateD(4) [OF e(2)])
    show "sem_ptrs (s'\<lparr>g_current_process := NULL\<rparr>) (\<lambda>k. keep ?ms (A k))"
      using sem_ptrs_killed [OF D(3)] by (simp add: e(1) sem_ptrs_def)
    show "forest_ok (s'\<lparr>g_current_process := NULL\<rparr>) R' (prune_all (proot u) ts)"
      by (rule pruned_forest [OF D(4) u R'c]) (simp_all add: e(1) killed_def)
    show "set (rev (postorder u) @ fs) \<inter> set (fmembers (prune_all (proot u) ts)) = {}"
      "set (rev (postorder u) @ fs) \<union> set (fmembers (prune_all (proot u) ts)) = {..<MAX_PROC}"
      unfolding m using D(5,6) U(2) by auto
    show "accounted (s'\<lparr>g_current_process := NULL\<rparr>) (\<lambda>k. keep ?ms (A k)) (keep ?ms rq) p"
      if "p \<in> set (fmembers (prune_all (proot u) ts))" "p \<notin> {q. g_current_process s = Ref q \<and> q \<notin> set ?ms}" for p
      using that D(7) [of p] unfolding m by (auto simp: accounted_def)
    show "vacant (P_child p) R' \<and> vacant (P_sib p) R'" if "p \<in> set (rev (postorder u) @ fs)" for p
      using that e(4) [of p] kf(2) o(7) D(8,9) [of p] by (auto simp: vacant_def)
    have "length (filter (\<lambda>x. x \<notin> set ?ms) (fmembers ts)) + length ?ms = length (fmembers ts)"
    proof -
      have "distinct (fmembers ts)" by (rule forest_okD(1) [OF D(4)])
      then have "length (filter (\<lambda>x. x \<in> set ?ms) (fmembers ts)) = length ?ms"
        using U by (metis Int_absorb1 distinct_card distinct_filter inf_commute set_filter Int_def)
      then show ?thesis using sum_length_filter_compl [of "\<lambda>x. x \<in> set ?ms" "fmembers ts"] by simp
    qed
    then have "g_process_count s = of_nat (length (filter (\<lambda>x. x \<notin> set ?ms) (fmembers ts))) + of_nat (length ?ms)"
      unfolding D(10) by (metis of_nat_add)
    then show "g_process_count (s'\<lparr>g_current_process := NULL\<rparr>) =
        of_nat (length (fmembers (prune_all (proot u) ts)))"
      unfolding m e(1) killed_def by simp
  qed
  then show ?thesis using o(1) t(1) unfolding e(1) by auto
qed

section \<open>The devices of the processes that end\<close>

lemma io_of_sync:
  assumes M: "machine_ok M" and d: "d < DEVICE_NUMBER" and p: "p_semAdd (pcbs s p) = sem_sync_addr M d"
  shows "io_of M s p = (if waiting_process (g_sysiostates s d) = Ref p then Some d else None)"
proof -
  have sync: "sem_sync_addr M d = sysiostates_addr M + SIZEOF_SYSIOSTATE * of_nat d + of_nat 4"
    by (simp add: sem_sync_addr_def sem_mut_addr_def)
  note f = field_addr(2-4) [OF M d _ sync]
  have "sem_sync_addr M d \<noteq> 0" using sem_addr_fields(2) [OF M d] by (auto simp: sem_addr_def word_pointer_def)
  moreover have "isDeviceSemaphore M (sem_sync_addr M d)"
    using f by (simp add: isDeviceSemaphore_def in_sysiostates_def)
  moreover have "resolveSemAddr M (sem_sync_addr M d) = int d" using f by (simp add: resolveSemAddr_def)
  ultimately show ?thesis by (simp add: io_of_def p)
qed

lemma io_of_device:
  assumes "machine_ok M" "io_of M s p = Some d"
  shows "d < DEVICE_NUMBER" "waiting_process (g_sysiostates s d) = Ref p"
proof -
  have k: "isDeviceSemaphore M (p_semAdd (pcbs s p))" "d = nat (resolveSemAddr M (p_semAdd (pcbs s p)))"
    "waiting_process (g_sysiostates s d) = Ref p"
    using assms(2) by (auto simp: io_of_def Let_def split: if_splits)
  then have "in_sysiostates M (p_semAdd (pcbs s p))" by (simp add: isDeviceSemaphore_def in_sysiostates_def)
  then show "d < DEVICE_NUMBER" using resolveSemAddr_bound [OF assms(1)] k(2) by force
  show "waiting_process (g_sysiostates s d) = Ref p" by (rule k(3))
qed

text \<open>The devices whose processes are ended stay taken, without a process; the others are as before.\<close>

lemma devices_ok_killed:
  assumes M: "machine_ok M" and A: "devices_ok M A s" and a: "ash s R A" and ps: "\<And>k. set (A k) \<subseteq> {..<MAX_PROC}"
  shows "devices_ok M (\<lambda>k. keep ps (A k)) (killed M s ps n h x)"
  unfolding devices_ok_def
proof (intro allI impI)
  fix d assume d: "d < DEVICE_NUMBER"
  let ?s = "killed M s ps n h x"
  have g: "g_sysiostates ?s d = (if \<exists>p \<in> set ps. io_of M s p = Some d
      then (g_sysiostates s d)\<lparr>sem_sync := - 1\<rparr> else g_sysiostates s d)" by (simp add: killed_def)
  show "device_ok M d (\<lambda>k. keep ps (A k)) ?s"
  proof (cases "\<exists>p \<in> set ps. io_of M s p = Some d")
    case True
    then obtain p where p: "p \<in> set ps" "waiting_process (g_sysiostates s d) = Ref p"
      using io_of_device(2) [OF M] by blast
    from A d have "device_orphan M d (\<lambda>k. keep ps (A k)) ?s"
    proof (cases rule: devices_okE)
      case 1
      then show ?thesis using p(2) by (simp add: device_idle_def free_device_def)
    next
      case (2 w)
      then have "w = p" "w < MAX_PROC" using p(2) ps [of "sem_sync_addr M d"] by (simp_all add: device_busy_def)
      then show ?thesis using 2 p(1) True by (auto simp: device_busy_def device_orphan_def g keep_def)
    next
      case 3
      then show ?thesis using True by (auto simp: device_orphan_def g keep_def)
    qed
    then show ?thesis by (simp add: device_ok_def)
  next
    case False
    then have same: "g_sysiostates ?s d = g_sysiostates s d" by (simp add: g)
    from A d have "device_ok M d A s" by (simp add: devices_ok_def)
    then show ?thesis
    proof (rule device_ok_queues [OF _ same])
      fix w assume w: "A (sem_sync_addr M d) = [w]"
      then have "p_semAdd (pcbs s w) = sem_sync_addr M d" using ash_semAdd [OF a, of w "sem_sync_addr M d"] by simp
      moreover have "waiting_process (g_sysiostates s d) = Ref w"
        using A d w by (cases rule: devices_okE) (auto simp: device_idle_def device_busy_def device_orphan_def)
      ultimately have "w \<notin> set ps" using io_of_sync [OF M d] False by auto
      then show "keep ps (A (sem_sync_addr M d)) = [w] \<and> cmd_addr (pcbs ?s w) = cmd_addr (pcbs s w) \<and>
          cmd_values (pcbs ?s w) = cmd_values (pcbs s w)" using w by (simp add: keep_def killed_def)
    qed (simp_all add: keep_def)
  qed
qed

text \<open>
  Any process may be ended.  When the current process is not in its tree it is lost.
\<close>

lemma sysTerminateProcess_but:
  assumes M: "machine_ok M" and k: "kinv s R A rq fs ts" and u: "u \<in> set (fsubtrees ts)"
    and pid: "pid = 0 \<and> g_current_process s = Ref (proot u) \<or> pid = pcb_addr M (Ref (proot u))"
  shows "\<exists>h x R'. sysTerminateProcess M pid s = scheduler M (killed M s (members u) (length (members u)) h x) \<and>
     kinv_but {q. g_current_process s = Ref q \<and> q \<notin> set (members u)}
       ((killed M s (members u) (length (members u)) h x)\<lparr>g_current_process := NULL\<rparr>) R'
       (\<lambda>k. keep (members u) (A k)) (keep (members u) rq) (rev (postorder u) @ fs) (prune_all (proot u) ts)"
proof -
  have l: "proot u < MAX_PROC"
    using distinct_fsubtree(2) [OF forest_okD(1) [OF kinvD(4) [OF k]] u] kinvD(6) [OF k] proot_member [of u] by auto
  have t: "sysTerminateProcess M pid s = do {
      s \<leftarrow> do { (_, s) \<leftarrow> outChild (Ref (proot u)) s; terminateProcess M MAX_PROC (Ref (proot u)) s };
      scheduler M s }"
    using pid pcb_at_addr [OF M l] unfolding sysTerminateProcess_def
    by (auto simp: split_beta pcb_at_def [of M 0] split: Option.bind_splits)
  from kinv_terminate_but [OF M k u] obtain h x R' where
    e: "do { (_, s) \<leftarrow> outChild (Ref (proot u)) s; terminateProcess M MAX_PROC (Ref (proot u)) s } =
       Some (killed M s (members u) (length (members u)) h x)"
     "kinv_but {q. g_current_process s = Ref q \<and> q \<notin> set (members u)}
       ((killed M s (members u) (length (members u)) h x)\<lparr>g_current_process := NULL\<rparr>) R'
       (\<lambda>k. keep (members u) (A k)) (keep (members u) rq) (rev (postorder u) @ fs) (prune_all (proot u) ts)" by blast
  show ?thesis unfolding t e(1) Option.bind.bind_lunit using e(2) by blast
qed

text \<open>The current process ends itself or an ancestor, whose tree contains the current process.\<close>

lemma sysTerminateProcess_kinv:
  assumes M: "machine_ok M" and k: "kinv s R A rq fs ts" and u: "u \<in> set (fsubtrees ts)"
    and p: "g_current_process s = Ref p" "p \<in> set (members u)"
    and pid: "pid = 0 \<and> proot u = p \<or> pid = pcb_addr M (Ref (proot u))"
  shows "\<exists>h x R'. sysTerminateProcess M pid s = scheduler M (killed M s (members u) (length (members u)) h x) \<and>
     kinv ((killed M s (members u) (length (members u)) h x)\<lparr>g_current_process := NULL\<rparr>) R'
       (\<lambda>k. keep (members u) (A k)) (keep (members u) rq) (rev (postorder u) @ fs) (prune_all (proot u) ts)"
proof -
  have e: "{q. g_current_process s = Ref q \<and> q \<notin> set (members u)} = {}" using p by auto
  have "pid = 0 \<and> g_current_process s = Ref (proot u) \<or> pid = pcb_addr M (Ref (proot u))" using p(1) pid by auto
  from sysTerminateProcess_but [OF M k u this, unfolded e kinv_but_empty] show ?thesis .
qed

lemma sysTerminateProcess_safe:
  assumes M: "machine_ok M" and k: "minv M s R A rq fs ts" and u: "u \<in> set (fsubtrees ts)"
    and p: "g_current_process s = Ref p" "p \<in> set (members u)"
    and pid: "pid = 0 \<and> proot u = p \<or> pid = pcb_addr M (Ref (proot u))"
  shows "safe M (sysTerminateProcess M pid s)"
proof -
  note K = minvD [OF k] and Q = queuesD [OF kinvD(1) [OF minvD(1) [OF k]]]
  let ?k = "killed M s (members u) (length (members u))"
  from sysTerminateProcess_kinv [OF M K(1) u p pid] obtain h x' R' rq' ts' where
    e: "sysTerminateProcess M pid s = scheduler M (?k h x')"
    "kinv ((?k h x')\<lparr>g_current_process := NULL\<rparr>) R' (\<lambda>k. keep (members u) (A k)) rq' (rev (postorder u) @ fs) ts'" by blast
  have "devices_ok M (\<lambda>k. keep (members u) (A k)) (?k h x')" by (rule devices_ok_killed [OF M K(2) Q(1) Q(3)])
  then have m: "minv M ((?k h x')\<lparr>g_current_process := NULL\<rparr>) R' (\<lambda>k. keep (members u) (A k)) rq'
      (rev (postorder u) @ fs) ts'"
    using e(2) K(3) by (auto simp: minv_def namespaces_ok_def killed_def intro: devices_ok_cong)
  have "g_current_process (?k h x') = Ref p" using p(1) by (simp add: killed_def)
  then have "ptr_in (set (rev (postorder u) @ fs)) (g_current_process (?k h x'))" using p(2) by (simp add: set_postorder)
  from scheduler_settled [OF m this] show ?thesis unfolding e(1) by auto
qed

end
