(* ===== verification/Safety.thy ===== *)
theory Safety
  imports Lifecycle
begin

text \<open>
  Every handler of the nucleus, started from a state of the invariant with arguments that
  it documents, follows no NULL or wild pointer, returns or leaves the nucleus, and keeps
  the invariant.
\<close>

section \<open>Small changes of the state\<close>

lemma pcb_update_simps [simp]:
  "p_parent (c\<lparr>p_s := x\<rparr>) = p_parent c" "p_semAdd (c\<lparr>p_s := x\<rparr>) = p_semAdd c"
  by simp_all

text \<open>What the accounting of time changes.\<close>

lemma updateProcessTime_cases:
  obtains f tod n where "updateProcessTime s = Some (s\<lparr>pcbs := f, g_tod := tod, tod_reads := n\<rparr>)"
    "\<And>p. (f p)\<lparr>p_time := 0\<rparr> = (pcbs s p)\<lparr>p_time := 0\<rparr>"
proof (cases "g_current_process s")
  case NULL
  then have "updateProcessTime s = Some (s\<lparr>pcbs := pcbs s, g_tod := tod_clock s (tod_reads s), tod_reads := Suc (tod_reads s)\<rparr>)"
    by (simp add: updateProcessTime_def STCK_def)
  then show thesis using that by blast
next
  case (Ref q)
  show thesis by (rule that [OF updateProcessTime_charges [OF Ref]]) simp
qed

section \<open>Pass up or die\<close>

lemma kinv_current_subtree:
  assumes k: "kinv s R A rq fs ts" and p: "g_current_process s = Ref p"
  obtains u where "u \<in> set (fsubtrees ts)" "proot u = p" "p \<in> set (members u)"
proof -
  from kinv_live(3) [OF k p] obtain u where "u \<in> set (fsubtrees ts)" "proot u = p" by (rule fsubtree_of_member)
  then show thesis using that proot_member [of u] by blast
qed

text \<open>
  The argument of \<open>sysTerminateProcess\<close>: zero for the caller itself, or the address of the caller
  or of an ancestor.
\<close>

definition terminate_arg :: "machine \<Rightarrow> u32 \<Rightarrow> kernel \<Rightarrow> bool" where
  "terminate_arg M pid s \<longleftrightarrow> (\<exists>p t. g_current_process s = Ref p \<and> t < MAX_PROC \<and>
     (pid = 0 \<and> t = p \<or> pid = pcb_addr M (Ref t)) \<and> in_tree s p t)"

lemma terminate_safe:
  assumes M: "machine_ok M" and r: "running M s" and a: "terminate_arg M pid s"
  shows "safe M (sysTerminateProcess M pid s)"
proof -
  from r obtain R A rq fs ts p where k: "minv M s R A rq fs ts" and p: "g_current_process s = Ref p"
    by (rule runningE)
  from a p obtain t where t: "pid = 0 \<and> t = p \<or> pid = pcb_addr M (Ref t)" "in_tree s p t"
    by (auto simp: terminate_arg_def)
  note K = minvD(1) [OF k]
  from kinv_in_tree_members [OF K kinv_live(3) [OF K p] t(2) [unfolded in_tree_def]] obtain u where
    "u \<in> set (fsubtrees ts)" "proot u = t" "p \<in> set (members u)" by blast
  then show ?thesis using sysTerminateProcess_safe [OF M k _ p] t by auto
qed

text \<open>The support structure of the current process, if it has one, is a word address.\<close>

definition support_ok :: "kernel \<Rightarrow> bool" where
  "support_ok s \<longleftrightarrow> (\<forall>p. g_current_process s = Ref p \<longrightarrow>
     p_supportStruct (pcbs s p) \<noteq> 0 \<longrightarrow> word_pointer (p_supportStruct (pcbs s p)))"

lemma passUpOrDie_safe:
  assumes M: "machine_ok M" and r: "running M s" and sup: "support_ok s"
  shows "safe M (passUpOrDie M n s)"
proof -
  from r obtain R A rq fs ts p where k: "minv M s R A rq fs ts" and p: "g_current_process s = Ref p"
    by (rule runningE)
  have l: "p < MAX_PROC" by (rule queuesD(6) [OF kinvD(1) [OF minvD(1) [OF k]] p])
  show ?thesis
  proof (cases "p_supportStruct (pcbs s p) = 0")
    case True
    then have "passUpOrDie M n s = sysTerminateProcess M (pcb_addr M (Ref p)) s"
      by (simp add: passUpOrDie_def p)
    moreover have "terminate_arg M (pcb_addr M (Ref p)) s"
      using sup p l True by (auto simp: terminate_arg_def in_tree_def support_ok_def)
    ultimately show ?thesis using terminate_safe [OF M r] by simp
  next
    case False
    then have "word_pointer (p_supportStruct (pcbs s p))" using sup p by (simp add: support_ok_def)
    then show ?thesis using False
      by (auto simp: passUpOrDie_def p Let_def intro!: running_cong [OF r])
  qed
qed

section \<open>Timers\<close>

text \<open>The end of a time slice: the current process becomes the last ready one.\<close>

lemma handleLocalTimer_kinv:
  assumes k: "kinv s R A rq fs ts" and p: "g_current_process s = Ref p"
  shows "\<exists>h R'. handleLocalTimer M s = scheduler M (s\<lparr>lh := h, g_current_process := NULL,
       pcbs := (pcbs s)(p := (pcbs s p)\<lparr>p_s := g_old_state s\<rparr>)\<rparr>) \<and>
     kinv (s\<lparr>lh := h, g_current_process := NULL, pcbs := (pcbs s)(p := (pcbs s p)\<lparr>p_s := g_old_state s\<rparr>)\<rparr>)
       R' A (rq @ [p]) fs ts"
proof -
  note D = kinvD [OF k]
  note Q = queuesD [OF D(1)]
  note cur = queues_current [OF D(1) p]
  let ?s1 = "s\<lparr>pcbs := (pcbs s)(p := (pcbs s p)\<lparr>p_s := g_old_state s\<rparr>)\<rparr>"
  have a: "queueable Ready_queue ?s1 p" using queues_alone [OF D(1) p] by (simp add: queueable_def)
  have "rings (lh ?s1) R" using Q(5) by simp
  from insertProcQ_alone [OF this Q(2) a] obtain h where
    h: "insertProcQ (Ref Ready_queue) (Ref p) ?s1 = Some (?s1\<lparr>lh := h\<rparr>)"
    "rings h (R(P_list p := None, Ready_queue \<mapsto> map P_list (rq @ [p])))" (is "rings h ?R'") by blast
  let ?s' = "?s1\<lparr>lh := h, g_current_process := NULL\<rparr>"
  have "handleLocalTimer M s = scheduler M ?s'"
    using h(1) p by (simp add: handleLocalTimer_def save_current_def)
  moreover have "ash ?s' ?R' A"
    using h(2) by (intro ash_transfer [OF Q(1)]) (auto simp: keeps_sems_def vacant_def not_in_nodes split: if_splits)
  then have "queues ?s' ?R' A (rq @ [p])" using Q(3,4) Q(6) [OF p] by (auto simp: queues_def)
  then have "kinv ?s' ?R' A (rq @ [p]) fs ts"
  proof (rule kinv_queues [OF k])
    show "same_rest R ?R'" by (auto simp: same_rest_def no_tree_entries_def)
    show "sem_ptrs ?s' A" using D(3) by (simp add: sem_ptrs_def)
    show "accounted ?s' A (rq @ [p]) q" if "accounted s A rq q" for q using that p by (auto simp: accounted_def)
  qed simp_all
  moreover have "?s' = s\<lparr>lh := h, g_current_process := NULL, pcbs := (pcbs s)(p := (pcbs s p)\<lparr>p_s := g_old_state s\<rparr>)\<rparr>"
    by simp
  ultimately show ?thesis by metis
qed

lemma handleLocalTimer_exits:
  assumes "running M s"
  obtains e s' where "handleLocalTimer M s = Some (Exits e s')" "settled M e s'"
proof -
  from assms obtain R A rq fs ts p where k: "minv M s R A rq fs ts" and p: "g_current_process s = Ref p"
    by (rule runningE)
  note K = minvD [OF k]
  from handleLocalTimer_kinv [OF K(1) p, of M] obtain h R' where
    h: "handleLocalTimer M s = scheduler M (s\<lparr>lh := h, g_current_process := NULL,
       pcbs := (pcbs s)(p := (pcbs s p)\<lparr>p_s := g_old_state s\<rparr>)\<rparr>)" 
    "kinv (s\<lparr>lh := h, g_current_process := NULL, pcbs := (pcbs s)(p := (pcbs s p)\<lparr>p_s := g_old_state s\<rparr>)\<rparr>)
       R' A (rq @ [p]) fs ts" (is "kinv ?s1 _ _ _ _ _") by blast
  have "devices_ok M A ?s1" by (rule devices_ok_cong [OF K(2)]) simp_all
  then have "minv M ?s1 R' A (rq @ [p]) fs ts" using h(2) K(3) by (simp add: minv_def namespaces_ok_def)
  moreover have "g_current_process ?s1 = NULL" by simp
  ultimately show thesis using scheduler_settled_none that unfolding h(1) by blast
qed

lemma handleLocalTimer_safe: "running M s \<Longrightarrow> safe M (handleLocalTimer M s)"
  by (rule handleLocalTimer_exits [of M s]) simp_all

text \<open>The interval timer wakes every process that waits for it, in either kind of state.\<close>

lemma handleSysTimer_kinv:
  assumes k: "kinv (s\<lparr>g_current_process := c\<rparr>) R A rq fs ts"
  shows "\<exists>s' R'. handleSysTimer M s = Some s' \<and>
     kinv (s'\<lparr>g_current_process := c\<rparr>) R' (A(pseudo_clock_addr M := [])) (rq @ A (pseudo_clock_addr M)) fs ts \<and>
     g_current_process s' = g_current_process s \<and> g_process_count s' = g_process_count s \<and>
     g_soft_block_count s' = g_soft_block_count s - of_nat (length (A (pseudo_clock_addr M))) \<and>
     g_pseudo_clock s' = 0 \<and> g_old_state s' = g_old_state s \<and> interval_timer s' = PSECOND \<and>
     g_sysiostates s' = g_sysiostates s \<and> mem s' = mem s \<and> n_type s' = n_type s \<and>
     tod_clock s' = tod_clock s \<and> (\<forall>p. (pcbs s' p)\<lparr>p_semAdd := 0\<rparr> = (pcbs s p)\<lparr>p_semAdd := 0\<rparr>)"
proof -
  from handleSysTimer_queues [OF kinvD(1) [OF k] refl, of M] obtain s' R' where
    t: "handleSysTimer M s = Some s'"
    "queues (s'\<lparr>g_current_process := c\<rparr>) R' (A(pseudo_clock_addr M := [])) (rq @ A (pseudo_clock_addr M))"
    "same_rest R R'" "g_process_count s' = g_process_count s" "g_current_process s' = g_current_process s"
    "g_old_state s' = g_old_state s" "g_pseudo_clock s' = 0" "interval_timer s' = PSECOND"
    "g_soft_block_count s' = g_soft_block_count s - of_nat (length (A (pseudo_clock_addr M)))"
    "\<forall>p. (pcbs s' p)\<lparr>p_semAdd := 0\<rparr> = (pcbs s p)\<lparr>p_semAdd := 0\<rparr>"
    "sem_ptrs s A \<longrightarrow> sem_ptrs s' (A(pseudo_clock_addr M := []))"
    "g_sysiostates s' = g_sysiostates s" "mem s' = mem s" "n_type s' = n_type s"
    "tod_clock s' = tod_clock s" by blast
  have parent: "p_parent (pcbs s' p) = p_parent (pcbs s p)" for p
    using arg_cong [OF t(10) [rule_format, of p], of p_parent] by simp
  have sp: "sem_ptrs (s'\<lparr>g_current_process := c\<rparr>) (A(pseudo_clock_addr M := []))"
    using kinvD(3) [OF k] t(11) by (simp add: sem_ptrs_def)
  have "accounted (s'\<lparr>g_current_process := c\<rparr>) (A(pseudo_clock_addr M := [])) (rq @ A (pseudo_clock_addr M)) q"
    if "accounted (s\<lparr>g_current_process := c\<rparr>) A rq q" for q
  proof (cases "q \<in> set (A (pseudo_clock_addr M))")
    case False
    then have "q \<in> set (A k) \<Longrightarrow> q \<in> set ((A(pseudo_clock_addr M := [])) k)" for k by (cases "k = pseudo_clock_addr M") auto
    then show ?thesis using that unfolding accounted_def by (auto simp del: fun_upd_apply)
  qed (simp add: accounted_def)
  then have "kinv (s'\<lparr>g_current_process := c\<rparr>) R' (A(pseudo_clock_addr M := [])) (rq @ A (pseudo_clock_addr M)) fs ts"
    by (intro kinv_queues [OF k t(2,3) sp]) (simp_all add: parent t(4))
  with t show ?thesis by blast
qed

section \<open>System calls on the current process\<close>

lemma load_int_word:
  assumes "machine_ok M" "word_pointer a"
  shows "\<exists>v. load_int M a s = Some v"
proof -
  have "(a - sysiostates_addr M) mod SIZEOF_SYSIOSTATE \<in> {0, 4, 8}" if i: "in_sysiostates M a"
  proof -
    let ?d = "unat (a - sysiostates_addr M)"
    have le: "sysiostates_addr M \<le> a" using i by (simp add: in_sysiostates_def)
    then have "?d = unat a - unat (sysiostates_addr M)" by (simp add: unat_sub)
    moreover have "unat a mod 4 = 0" "unat (sysiostates_addr M) mod 4 = 0"
      using assms by (simp_all add: machine_ok_def word_pointer_def)
    ultimately have "?d mod 4 = 0" by (simp add: mod_eq_0_iff_dvd)
    then have "?d mod 12 \<in> {0, 4, 8}" by (simp; presburger)
    moreover have "unat ((a - sysiostates_addr M) mod SIZEOF_SYSIOSTATE) = ?d mod 12"
      by (simp add: unat_mod SIZEOF_SYSIOSTATE_def)
    ultimately have "unat ((a - sysiostates_addr M) mod SIZEOF_SYSIOSTATE) \<in> {unat (0::u32), unat (4::u32), unat (8::u32)}"
      by simp
    then show ?thesis using word_eq_iff_unsigned [where 'a = nat] by blast
  qed
  then show ?thesis using assms(2) by (auto simp: load_int_def Let_def)
qed

text \<open>The registers of the devices that \<open>resolveDeviceAddress\<close> knows.\<close>

lemma resolveDeviceAddress_bound:
  assumes "machine_ok M" "resolveDeviceAddress M a \<noteq> - 1"
  shows "\<exists>d < DEVICE_NUMBER. resolveDeviceAddress M a = int d"
    "DEVREG_START_ADDR \<le> a" "a < TERMREG_END_ADDR"
proof -
  have sz: "DEVREGSIZE M = 16" using assms(1) by (simp add: machine_ok_def)
  show lo: "DEVREG_START_ADDR \<le> a" using assms(2) by (auto simp: resolveDeviceAddress_def split: if_splits)
  show hi: "a < TERMREG_END_ADDR"
    using assms(2) order_less_trans [of a TERMREG_START_ADDR TERMREG_END_ADDR]
    by (auto simp: resolveDeviceAddress_def TERMREG_START_ADDR_def TERMREG_END_ADDR_def split: if_splits)
  have u: "unat (a - DEVREG_START_ADDR) = unat a - 0x10000054"
    using lo by (simp add: unat_sub DEVREG_START_ADDR_def)
  have ua: "0x10000054 \<le> unat a" "unat a < 0x10000264"
    using lo hi by (simp_all add: word_le_nat_alt word_less_nat_alt DEVREG_START_ADDR_def TERMREG_END_ADDR_def)
  show "\<exists>d < DEVICE_NUMBER. resolveDeviceAddress M a = int d"
  proof (cases "a < TERMREG_START_ADDR")
    case True
    then have "unat a < 0x10000254" by (simp add: word_less_nat_alt TERMREG_START_ADDR_def)
    then have "unat ((a - DEVREG_START_ADDR) div 16) < DEVICE_NUMBER"
      using ua u by (simp add: unat_div DEVICE_NUMBER_def)
    then show ?thesis using True lo sz by (auto simp: resolveDeviceAddress_def)
  next
    case False
    then have t: "TERMREG_START_ADDR \<le> a" by simp
    have u2: "unat (a - TERMREG_START_ADDR) = unat a - 0x10000254"
      using t by (simp add: unat_sub TERMREG_START_ADDR_def)
    have "0x10000254 \<le> unat a" using t by (simp add: word_le_nat_alt TERMREG_START_ADDR_def)
    then have k: "unat ((a - TERMREG_START_ADDR) div 8) < 2" using ua(2) u2 by (simp add: unat_div)
    have "(TERMREG_START_ADDR - DEVREG_START_ADDR) div 16 = (32::u32)"
      by (simp add: TERMREG_START_ADDR_def DEVREG_START_ADDR_def)
    moreover have "unat (32 + (a - TERMREG_START_ADDR) div 8) = 32 + unat ((a - TERMREG_START_ADDR) div 8)"
      using k by (subst unat_add_lem [THEN iffD1]) simp_all
    ultimately have "unat ((TERMREG_START_ADDR - DEVREG_START_ADDR) div 16 + (a - TERMREG_START_ADDR) div 8) < DEVICE_NUMBER"
      using k by (simp add: DEVICE_NUMBER_def)
    then show ?thesis using False t hi lo sz by (auto simp: resolveDeviceAddress_def)
  qed
qed

section \<open>Input and output\<close>

lemma outside_store:
  "outside_kernel M a \<Longrightarrow> store_int M a v s = Some (s\<lparr>mem := (mem s)(a := v)\<rparr>)"
  "outside_kernel M a \<Longrightarrow> load_int M a s = Some (mem s a)"
  using load_int_other by (simp_all add: outside_kernel_def)

lemma copy_registers_mem:
  assumes M: "machine_ok M"
    and a: "\<And>i. i < nat n \<Longrightarrow> word_pointer (from' + 4 * of_nat i) \<and> outside_kernel M (to' + 4 * of_nat i)"
  shows "\<exists>m. copy_registers M n to' from' s = Some (s\<lparr>mem := m\<rparr>)"
proof -
  let ?body = "\<lambda>i s. do { v \<leftarrow> load_int M (from' + 4 * of_nat i) s; store_int M (to' + 4 * of_nat i) v s }"
  have "\<exists>t. for_upto (nat n) ?body s = Some t \<and> (\<exists>m. t = s\<lparr>mem := m\<rparr>)"
  proof (rule for_upto_invariant [of "\<lambda>_ t. \<exists>m. t = s\<lparr>mem := m\<rparr>"])
    show "\<exists>m. s = s\<lparr>mem := m\<rparr>" by (rule exI [of _ "mem s"]) simp
    fix i t assume i: "i < nat n" and t: "\<exists>m. t = s\<lparr>mem := m\<rparr>"
    obtain v where "load_int M (from' + 4 * of_nat i) t = Some v" using load_int_word [OF M] a [OF i] by blast
    then show "\<exists>t'. ?body i t = Some t' \<and> (\<exists>m. t' = s\<lparr>mem := m\<rparr>)"
      using outside_store(1) a [OF i] t by auto
  qed
  then show ?thesis unfolding copy_registers_def by blast
qed

lemma getNumRegister_le: "nat (getNumRegister a) \<le> 4"
  by (simp add: getNumRegister_def)

lemma device_words:
  assumes M: "machine_ok M" and a: "resolveDeviceAddress M a \<noteq> - 1" "unat a mod 4 = 0" and i: "i < 4"
  shows "outside_kernel M (a + 4 * of_nat i)"
proof -
  have ua: "0x10000054 \<le> unat a" "unat a < 0x10000264"
    using resolveDeviceAddress_bound(2,3) [OF M a(1)]
    by (simp_all add: word_le_nat_alt word_less_nat_alt DEVREG_START_ADDR_def TERMREG_END_ADDR_def)
  have "a + 4 * of_nat i = of_nat (unat a + 4 * i)" by simp
  then have u: "unat (a + 4 * of_nat i) = unat a + 4 * i"
    using unat_of_nat_small [of "unat a + 4 * i"] ua i by simp
  have "unat (a + 4 * of_nat i) < unat RAMSTART" using u ua i by (simp add: RAMSTART_def)
  then have "a + 4 * of_nat i < RAMSTART" by (simp add: word_less_nat_alt)
  moreover have "RAMSTART \<le> sysiostates_addr M" "RAMSTART \<le> pseudo_clock_addr M"
    using M by (simp_all add: machine_ok_def)
  moreover have "word_pointer (a + 4 * of_nat i)"
  proof -
    have "unat (a + 4 * of_nat i) \<noteq> 0" using u ua by simp
    moreover have "unat (a + 4 * of_nat i) mod 4 = 0" unfolding u using a(2) by simp
    ultimately show ?thesis by (auto simp: word_pointer_def)
  qed
  ultimately show ?thesis by (auto simp: outside_kernel_def in_sysiostates_def)
qed

section \<open>The other system calls\<close>

lemma sysClockWait_safe:
  assumes M: "machine_ok M" and r: "running M s"
  shows "safe M (sysClockWait M s)"
proof -
  have "running M (s\<lparr>g_soft_block_count := g_soft_block_count s + 1\<rparr>)" by (rule running_cong [OF r]) simp_all
  then show ?thesis unfolding sysClockWait_def sysPasseren_op by (rule sem_op_safe [OF M user_sem_clock [OF M]])
qed

lemma sysGetTime_safe:
  assumes "running M s"
  shows "safe M (returns_value (sysGetTime s))"
proof -
  obtain p where "g_current_process s = Ref p" using assms by (auto simp: running_def)
  then show ?thesis
    by (auto simp: returns_value_def sysGetTime_def getPassedTime_def STCK_def Let_def intro!: running_cong [OF assms])
qed

lemma sysCreateProcess_safe:
  assumes r: "running M s" and st: "word_pointer statep"
    and ns: "ns = NULL \<or> (\<exists>n. ns = Ref n \<and> n_type s n < NS_TYPE_MAX)"
  shows "safe M (returns_value (sysCreateProcess M statep supportp ns s))"
proof -
  from r obtain R A rq fs ts p where k: "minv M s R A rq fs ts" and c: "g_current_process s = Ref p"
    by (rule runningE)
  note K = minvD [OF k]
  show ?thesis
  proof (cases fs)
    case Nil
    have "allocPcb s = Some (NULL, s)"
      using allocPcb_exhausted [OF queuesD(5) [OF kinvD(1) [OF K(1)]]] kinvD(2) [OF K(1)] Nil by simp
    then show ?thesis using r by (simp add: sysCreateProcess_def returns_value_def)
  next
    case (Cons q fs')
    from kinv_create [OF K(1) [unfolded Cons] c st ns, of M supportp] obtain h R' where
      e: "sysCreateProcess M statep supportp ns s = Some (pcb_addr M (Ref q),
        s\<lparr>lh := h, g_process_count := g_process_count s + 1,
          pcbs := (pcbs s)(q := child_pcb (user_states s statep) supportp ns p s)\<rparr>)"
      and k': "kinv (s\<lparr>lh := h, g_process_count := g_process_count s + 1,
          pcbs := (pcbs s)(q := child_pcb (user_states s statep) supportp ns p s)\<rparr>)
          R' A (rq @ [q]) fs' (map (graft p q) ts)" (is "kinv ?s' _ _ _ _ _") by blast
    have "q \<notin> set (A k)" for k using kinv_live(2) [OF K(1), of q] kinvD(5) [OF K(1)] Cons by auto
    then have "w \<noteq> q" if "A k = [w]" for k w using that by (metis list.set_intros(1))
    then have "devices_ok M A ?s'" by (intro devices_ok_queues [OF K(2)]) auto
    then have "minv M ?s' R' A (rq @ [q]) fs' (map (graft p q) ts)" using k' K(3) by (simp add: minv_def namespaces_ok_def)
    then show ?thesis using runningI c by (fastforce simp add: returns_value_def e)
  qed
qed

end
