(* ===== verification/Children.thy ===== *)
theory Children
  imports Safety
begin

text \<open>
  What \<open>sysGetChildren\<close> computes: the processes of the tree of the caller that are reached
  through processes of its own namespace, in the order of a depth-first walk.
\<close>

section \<open>The processes visible to the caller\<close>

fun visible :: "(pcb \<Rightarrow> nsd ptr) \<Rightarrow> nsd ptr \<Rightarrow> ptree \<Rightarrow> pcb list" where
  "visible f ns (PNode p ts) = (if f p \<noteq> ns then [] else p # concat (map (visible f ns) ts))"

lemma visible_members: "set (visible f ns t) \<subseteq> set (members t)"
proof (induction t)
  case (PNode p ts)
  then have "set (concat (map (visible f ns) ts)) \<subseteq> set (fmembers ts)" by auto
  then show ?case by auto
qed

lemma visible_forest_members: "set (concat (map (visible f ns) ts)) \<subseteq> set (fmembers ts)"
  using visible_members by fastforce

lemma visible_distinct: "distinct (members t) \<Longrightarrow> distinct (visible f ns t)"
proof (induction t)
  case (PNode p ts)
  have "distinct (concat (map (visible f ns) us))" if "distinct (fmembers us)" "set us \<subseteq> set ts" for us
    using that
  proof (induction us)
    case (Cons u us)
    have "set (visible f ns u) \<inter> set (concat (map (visible f ns) us)) \<subseteq> set (members u) \<inter> set (fmembers us)"
      using visible_members visible_forest_members by (metis Int_mono)
    moreover have "set (members u) \<inter> set (fmembers us) = {}" using Cons.prems(1) by simp
    ultimately have "set (visible f ns u) \<inter> set (concat (map (visible f ns) us)) = {}" by blast
    moreover have "distinct (visible f ns u)" using PNode.IH [of u] Cons.prems by simp
    moreover have "distinct (concat (map (visible f ns) us))" using Cons by simp
    ultimately show ?case by simp
  qed simp
  from this [of ts] have "distinct (concat (map (visible f ns) ts))" using PNode.prems by simp
  moreover have "p \<notin> set (concat (map (visible f ns) ts))" using PNode.prems visible_forest_members [of f ns ts] by auto
  ultimately show ?case by simp
qed

text \<open>The array \<open>children\<close> after the processes \<open>ps\<close> have been stored from index \<open>k\<close> on.\<close>

fun put_children :: "machine \<Rightarrow> u32 \<Rightarrow> int \<Rightarrow> pcb list \<Rightarrow> (u32 \<Rightarrow> u32) \<Rightarrow> u32 \<Rightarrow> u32" where
  "put_children M children k [] m = m"
| "put_children M children k (p # ps) m =
     put_children M children (k + 1) ps (m(children + 4 * of_int k := pcb_addr M (Ref p)))"

lemma put_children_append:
  "put_children M children k (xs @ ys) m =
   put_children M children (k + int (length xs)) ys (put_children M children k xs m)"
  by (induction xs arbitrary: k m) (simp_all add: ac_simps)

definition fitting :: "int \<Rightarrow> int \<Rightarrow> pcb ptr \<Rightarrow> pcb list \<Rightarrow> pcb list" where
  "fitting tot used cur ps = take (nat (tot - used)) (filter (\<lambda>p. Ref p \<noteq> cur) ps)"

lemma fitting_append:
  "fitting tot used cur (xs @ ys) =
   fitting tot used cur xs @ fitting tot (used + int (length (fitting tot used cur xs))) cur ys"
proof -
  define xs' where "xs' = filter (\<lambda>p. Ref p \<noteq> cur) xs"
  have "nat (tot - used) - length xs' = nat (tot - (used + int (length (take (nat (tot - used)) xs')))) \<or>
      (nat (tot - used) - length xs' = 0 \<and>
       nat (tot - (used + int (length (take (nat (tot - used)) xs')))) = 0)" by auto
  then show ?thesis by (auto simp: fitting_def xs'_def)
qed

section \<open>The recursion\<close>

lemma children_loop:
  assumes "0 \<le> used"
    and "\<And>t num used m. t \<in> set ts \<Longrightarrow> 0 \<le> used \<Longrightarrow> body (Ref (P_sib (proot t))) (num, used, s\<lparr>mem := m\<rparr>) =
      Some (False, num + int (length (vis t)), used + int (length (fitting tot used cur (vis t))),
        s\<lparr>mem := put_children M children used (fitting tot used cur (vis t)) m\<rparr>)"
  shows "for_entries body (map (\<lambda>t. P_sib (proot t)) ts) (num, used, s\<lparr>mem := m\<rparr>) =
    Some (num + int (length (concat (map vis ts))),
      used + int (length (fitting tot used cur (concat (map vis ts)))),
      s\<lparr>mem := put_children M children used (fitting tot used cur (concat (map vis ts))) m\<rparr>)"
  using assms
proof (induction ts arbitrary: num used m)
  case Nil
  then show ?case by (simp add: fitting_def)
next
  case (Cons t ts)
  then show ?case by (simp add: fitting_append put_children_append ac_simps)
qed

lemma getChildsByNamespace_tree:
  assumes R: "rings (lh s) R"
    and buf: "\<And>i. 0 \<le> i \<Longrightarrow> i < tot \<Longrightarrow> outside_kernel M (children + 4 * of_int i)"
  shows "tree_at R t \<Longrightarrow> height t \<le> n \<Longrightarrow> 0 \<le> used \<Longrightarrow>
    getChildsByNamespace M n children tot used ns (Ref (proot t)) (s\<lparr>mem := m\<rparr>) =
    Some (int (length (visible (\<lambda>p. namespaces (pcbs s p) 0) ns t)),
      used + int (length (fitting tot used (g_current_process s) (visible (\<lambda>p. namespaces (pcbs s p) 0) ns t))),
      s\<lparr>mem := put_children M children used
        (fitting tot used (g_current_process s) (visible (\<lambda>p. namespaces (pcbs s p) 0) ns t)) m\<rparr>)"
proof (induction t arbitrary: n used m)
  case (PNode p ts)
  let ?f = "\<lambda>p. namespaces (pcbs s p) 0"
  let ?cur = "g_current_process s"
  from PNode.prems(2) obtain k where n: "n = Suc k" by (cases n) auto
  have h: "height t \<le> k" if "t \<in> set ts" for t
    using PNode.prems(2) that unfolding n by (auto simp: fold_max_le_iff)
  have ns0: "getNamespace (Ref p) PID_NS (s\<lparr>mem := m\<rparr>) = Some (?f p)"
    by (simp add: getNamespace_def PID_NS_def one_namespace)
  define fit where "fit = fitting tot used ?cur [p]"
  define m1 where "m1 = put_children M children used fit m"
  define used1 where "used1 = used + int (length fit)"
  have one: "(if used < tot \<and> Ref p \<noteq> ?cur then do {
         s \<leftarrow> store_int M (children + 4 * of_int used) (pcb_addr M (Ref p)) (s\<lparr>mem := m\<rparr>);
         Some (used + 1, s)
       } else Some (used, s\<lparr>mem := m\<rparr>)) = Some (used1, s\<lparr>mem := m1\<rparr>)"
  proof (cases "used < tot \<and> Ref p \<noteq> ?cur")
    case True
    then have o': "outside_kernel M (children + 4 * of_int used)" using buf PNode.prems(3) by simp
    have "nat (tot - used) = Suc (nat (tot - used) - 1)" using True by simp
    then have "fit = [p]" using True unfolding fit_def fitting_def by (metis (mono_tags) filter.simps take_Suc_Cons take_Nil)
    then show ?thesis using True by (simp add: m1_def used1_def outside_store(1) [OF o'])
  next
    case False
    then have "fit = []" by (cases "used < tot") (simp_all add: fit_def fitting_def)
    then show ?thesis unfolding if_not_P [OF False] by (simp add: m1_def used1_def)
  qed
  show ?case
  proof (cases "?f p = ns")
    case False
    then show ?thesis using ns0 by (simp add: n fitting_def)
  next
    case True
    let ?body = "\<lambda>pos (num, used, s). do {
            curr_pcb \<leftarrow> pcb_of_p_sib pos;
            (k, used, s) \<leftarrow> getChildsByNamespace M k children tot used ns curr_pcb s;
            Some (False, num + k, used, s)
          }"
    have body: "?body (Ref (P_sib (proot t))) (num, u, s\<lparr>mem := m\<rparr>) =
        Some (False, num + int (length (visible ?f ns t)), u + int (length (fitting tot u ?cur (visible ?f ns t))),
          s\<lparr>mem := put_children M children u (fitting tot u ?cur (visible ?f ns t)) m\<rparr>)"
      if "t \<in> set ts" "0 \<le> u" for t num u m
      using PNode.IH [OF that(1) _ h [OF that(1)] that(2)] PNode.prems(1) that(1) by simp
    have u1: "0 \<le> used1" using PNode.prems(3) by (simp add: used1_def)
    have loop: "list_for_each ?body (\<lambda>(_, _, s). lh s) (Ref (P_child p)) (0, used1, s\<lparr>mem := m1\<rparr>) =
        for_entries ?body (map (\<lambda>t. P_sib (proot t)) ts) (0, used1, s\<lparr>mem := m1\<rparr>)"
    proof (rule list_for_each_invariant [where I = "\<lambda>(num, u, t). 0 \<le> u \<and> (\<exists>m. t = s\<lparr>mem := m\<rparr>)", OF R])
      show "R (P_child p) = Some (map (\<lambda>t. P_sib (proot t)) ts)" using PNode.prems(1) by simp
      show "case (0, used1, s\<lparr>mem := m1\<rparr>) of (num, u, t) \<Rightarrow> 0 \<le> u \<and> (\<exists>m. t = s\<lparr>mem := m\<rparr>)" using u1 by auto
      show "(case t of (_, _, s) \<Rightarrow> lh s) = lh s" if "case t of (num, u, t) \<Rightarrow> 0 \<le> u \<and> (\<exists>m. t = s\<lparr>mem := m\<rparr>)" for t
        using that by auto
      fix y t b t'
      assume y: "y \<in> set (map (\<lambda>t. P_sib (proot t)) ts)" and i: "case t of (num, u, t) \<Rightarrow> 0 \<le> u \<and> (\<exists>m. t = s\<lparr>mem := m\<rparr>)"
        and b: "?body (Ref y) t = Some (b, t')"
      from y obtain v where v: "v \<in> set ts" "y = P_sib (proot v)" by auto
      from i obtain num u m' where t: "t = (num, u, s\<lparr>mem := m'\<rparr>)" "0 \<le> u" by auto
      from b body [OF v(1) t(2), of num m'] show "case t' of (num, u, t) \<Rightarrow> 0 \<le> u \<and> (\<exists>m. t = s\<lparr>mem := m\<rparr>)"
        unfolding v(2) t(1) using t(2) by auto
    qed
    define vs where "vs = concat (map (visible ?f ns) ts)"
    have fits: "fitting tot used ?cur (p # vs) = fit @ fitting tot used1 ?cur vs"
      using fitting_append [of tot used ?cur "[p]" vs] by (simp add: fit_def used1_def)
    have step: "for_entries ?body (map (\<lambda>t. P_sib (proot t)) ts) (0, used1, s\<lparr>mem := m1\<rparr>) =
        Some (0 + int (length vs), used1 + int (length (fitting tot used1 ?cur vs)),
          s\<lparr>mem := put_children M children used1 (fitting tot used1 ?cur vs) m1\<rparr>)"
      unfolding vs_def by (rule children_loop [OF u1]) (use body in auto)
    have vis: "visible ?f ns (PNode p ts) = p # vs" using True by (simp add: vs_def)
    show ?thesis unfolding vis fits n
      using ns0 True one loop step
      by (simp add: put_children_append used1_def m1_def [symmetric])
  qed
qed

text \<open>What the array holds: the addresses of the processes in order, and the rest as before.\<close>

lemma put_children_other:
  "(\<And>i. i < length xs \<Longrightarrow> a \<noteq> children + 4 * of_int (k + int i)) \<Longrightarrow> put_children M children k xs m a = m a"
proof (induction xs arbitrary: k m)
  case (Cons x xs)
  have "put_children M children (k + 1) xs (m(children + 4 * of_int k := pcb_addr M (Ref x))) a =
      (m(children + 4 * of_int k := pcb_addr M (Ref x))) a"
    using Cons.prems [of "Suc _"] by (intro Cons.IH) (simp add: ac_simps)
  moreover have "a \<noteq> children + 4 * of_int k" using Cons.prems [of 0] by simp
  ultimately show ?case by simp
qed simp

lemma array_index_inj:
  assumes "i < 2 ^ 29" "j < 2 ^ 29" "(c :: u32) + 4 * of_nat i = c + 4 * of_nat j"
  shows "i = j"
proof -
  have "unat (4 * of_nat n :: u32) = 4 * n" if "n < 2 ^ 29" for n
  proof -
    have "(4 * of_nat n :: u32) = of_nat (4 * n)" by simp
    moreover have "unat (of_nat (4 * n) :: u32) = 4 * n" using that by (intro unat_of_nat_small) simp
    ultimately show ?thesis by simp
  qed
  moreover have "(4 * of_nat i :: u32) = 4 * of_nat j" using assms(3) by simp
  ultimately have "4 * i = 4 * j" using assms(1,2) by metis
  then show ?thesis by simp
qed

lemma put_children_nth:
  assumes "length xs < 2 ^ 29" "i < length xs"
  shows "put_children M children 0 xs m (children + 4 * of_nat i) = pcb_addr M (Ref (xs ! i))"
proof -
  have xs: "xs = take i xs @ xs ! i # drop (Suc i) xs" using assms(2) by (rule id_take_nth_drop)
  have "put_children M children (int i + 1) (drop (Suc i) xs) m' (children + 4 * of_nat i) = m' (children + 4 * of_nat i)" for m'
  proof (rule put_children_other)
    fix j assume "j < length (drop (Suc i) xs)"
    then have "i < 2 ^ 29" "i + 1 + j < 2 ^ 29" using assms by simp_all
    then have "children + 4 * of_nat i \<noteq> children + 4 * of_nat (i + 1 + j)"
      using array_index_inj [of i "i + 1 + j" children] by linarith
    then show "children + 4 * of_nat i \<noteq> children + 4 * of_int (int i + 1 + int j)" by simp
  qed
  then show ?thesis
    by (subst xs) (use assms(2) in \<open>simp add: put_children_append\<close>)
qed

text \<open>The system call: the count of the visible processes below the caller, and the first \<open>size\<close> of them.\<close>

lemma sysGetChildren_tree:
  assumes M: "machine_ok M" and k: "kinv s R A rq fs ts" and p: "g_current_process s = Ref p"
    and u: "PNode p us \<in> set (fsubtrees ts)"
    and buf: "\<And>i. 0 \<le> i \<Longrightarrow> i < sint size' \<Longrightarrow> outside_kernel M (children + 4 * of_int i)"
    and vs: "vs = concat (map (visible (\<lambda>q. namespaces (pcbs s q) NS_PID) (namespaces (pcbs s p) NS_PID)) us)"
  shows "sysGetChildren M children size' s = Some (of_nat (length vs),
     s\<lparr>mem := put_children M children 0 (take (nat (sint size')) vs) (mem s)\<rparr>)"
proof -
  let ?f = "\<lambda>q. namespaces (pcbs s q) NS_PID"
  note f = kinvD(4) [OF k] and R = queuesD(5) [OF kinvD(1) [OF k]]
  from u obtain t where "t \<in> set ts" "PNode p us \<in> set (subtrees t)" by auto
  then have tree: "tree_at R (PNode p us)" using subtree_at forest_okD(2) [OF f] by blast
  have d: "distinct (members (PNode p us))" "set (members (PNode p us)) \<subseteq> set (fmembers ts)"
    using distinct_fsubtree [OF forest_okD(1) [OF f] u] by simp_all
  have "set (fmembers ts) \<subseteq> {..<MAX_PROC}" using kinvD(6) [OF k] by blast
  then have h: "height (PNode p us) \<le> MAX_PROC" using height_MAX_PROC [OF d(1)] d(2) by blast
  have vis: "visible ?f (?f p) (PNode p us) = p # vs" by (simp add: vs)
  have "p \<notin> set vs" using visible_distinct [OF d(1), of ?f "?f p"] unfolding vis by simp
  then have "filter (\<lambda>q. Ref q \<noteq> Ref p) vs = vs" by (intro filter_True) auto
  then have fit: "fitting (sint size') 0 (Ref p) (p # vs) = take (nat (sint size')) vs"
    by (simp add: fitting_def)
  have ns: "getNamespace (Ref p) PID_NS s = Some (?f p)"
    by (simp add: getNamespace_def PID_NS_def NS_PID_def one_namespace)
  have s: "s\<lparr>mem := mem s\<rparr> = s" by simp
  have "getChildsByNamespace M MAX_PROC children (sint size') 0 (?f p) (Ref p) s =
      Some (int (length (p # vs)), int (length (take (nat (sint size')) vs)),
        s\<lparr>mem := put_children M children 0 (take (nat (sint size')) vs) (mem s)\<rparr>)"
    using getChildsByNamespace_tree [where m = "mem s" and ns = "?f p" and used = 0 and tot = "sint size'",
      OF R buf tree h]
    unfolding NS_PID_def [symmetric] vis p fit s by simp
  then show ?thesis by (simp add: sysGetChildren_def p ns)
qed

lemma sysGetChildren_safe:
  assumes M: "machine_ok M" and r: "running M s"
    and buf: "\<And>i. 0 \<le> i \<Longrightarrow> i < sint size' \<Longrightarrow> outside_kernel M (children + 4 * of_int i)"
  shows "safe M (returns_value (sysGetChildren M children size' s))"
proof -
  from r obtain R A rq fs ts p where m: "minv M s R A rq fs ts" and p: "g_current_process s = Ref p" by (rule runningE)
  note k = minvD(1) [OF m]
  from kinv_children [OF k kinv_live(3) [OF k p]] obtain us where u: "PNode p us \<in> set (fsubtrees ts)" by blast
  show ?thesis
    by (simp only: returns_value_def sysGetChildren_tree [OF M k p u buf refl] bind.simps split safe.simps,
        rule running_cong [OF r]) simp_all
qed

end
