(* ===== verification/Interrupts.thy ===== *)
theory Interrupts
  imports Children
begin

text \<open>
  The interrupts on the invariant: the completion of an operation of a device, the two
  timers, and \<open>interruptHandler\<close>, which serves one line after another.
\<close>

section \<open>Copying registers\<close>

lemma device_words_low:
  assumes M: "machine_ok M" and a: "resolveDeviceAddress M a \<noteq> - 1" "unat a mod 4 = 0" and i: "i < 4"
  shows "a + 4 * of_nat i < RAMSTART"
proof -
  have ua: "unat a < 0x10000264"
    using resolveDeviceAddress_bound(3) [OF M a(1)] by (simp add: word_less_nat_alt TERMREG_END_ADDR_def)
  have "a + 4 * of_nat i = of_nat (unat a + 4 * i)" by simp
  then have "unat (a + 4 * of_nat i) = unat a + 4 * i"
    using unat_of_nat_small [of "unat a + 4 * i"] ua i by simp
  then show ?thesis using ua i by (simp add: word_less_nat_alt RAMSTART_def)
qed

text \<open>The loop of \<open>beginIO\<close> and \<open>endIO\<close> on two arrays that do not overlap.\<close>

lemma copy_disjoint:
  assumes n: "nat n \<le> 4"
    and o: "\<And>i. i < 4 \<Longrightarrow> outside_kernel M (src + 4 * of_nat i) \<and> outside_kernel M (dst + 4 * of_nat i)"
    and dis: "\<And>i j. i < 4 \<Longrightarrow> j < 4 \<Longrightarrow> src + 4 * of_nat i \<noteq> dst + 4 * of_nat j"
  shows "\<exists>m. copy_registers M n dst src s = Some (s\<lparr>mem := m\<rparr>) \<and>
     (\<forall>i < nat n. m (dst + 4 * of_nat i) = mem s (src + 4 * of_nat i)) \<and>
     (\<forall>b. (\<forall>i < nat n. b \<noteq> dst + 4 * of_nat i) \<longrightarrow> m b = mem s b)"
proof -
  let ?body = "\<lambda>i s. do { x \<leftarrow> load_int M (src + 4 * of_nat i) s; store_int M (dst + 4 * of_nat i) x s }"
  let ?Q = "\<lambda>k m. (\<forall>i < k. m (dst + 4 * of_nat i) = mem s (src + 4 * of_nat i)) \<and>
     (\<forall>b. (\<forall>i < k. b \<noteq> dst + 4 * of_nat i) \<longrightarrow> m b = mem s b)"
  let ?P = "\<lambda>k t. k \<le> nat n \<longrightarrow> (\<exists>m. t = s\<lparr>mem := m\<rparr> \<and> ?Q k m)"
  have "\<exists>t. for_upto (nat n) ?body s = Some t \<and> ?P (nat n) t"
  proof (rule for_upto_invariant [where P = ?P])
    show "?P 0 s" by (intro impI exI [of _ "mem s"]) simp
    fix k t assume k: "k < nat n" and P: "?P k t"
    then obtain m where m: "t = s\<lparr>mem := m\<rparr>" "?Q k m" by auto
    have k4: "k < 4" using k n by simp
    have x: "m (src + 4 * of_nat k) = mem s (src + 4 * of_nat k)" using m(2) dis [OF k4] k4 by auto
    let ?m = "m(dst + 4 * of_nat k := mem s (src + 4 * of_nat k))"
    have "?body k t = Some (s\<lparr>mem := ?m\<rparr>)"
      using o [OF k4] x by (simp add: outside_store m(1))
    moreover have "dst + 4 * of_nat i \<noteq> dst + 4 * of_nat k" if "i < k" for i
      using array_index_inj [of i k dst] that k4 by auto
    then have "?Q (Suc k) ?m" using m(2) by (auto simp: less_Suc_eq)
    ultimately show "\<exists>t'. ?body k t = Some t' \<and> ?P (Suc k) t'" by blast
  qed
  then show ?thesis unfolding copy_registers_def by auto
qed

text \<open>\<open>endIO\<close> reads the registers of the device into the memory of the process, \<open>beginIO\<close> writes them.\<close>

lemma device_user_words:
  assumes M: "machine_ok M" and a: "resolveDeviceAddress M a \<noteq> - 1" "unat a mod 4 = 0" and v: "user_words M v"
    and i: "i < 4" "j < 4"
  shows "outside_kernel M (a + 4 * of_nat i)" "outside_kernel M (v + 4 * of_nat j)"
    "a + 4 * of_nat i \<noteq> v + 4 * of_nat j" "v + 4 * of_nat j \<noteq> a + 4 * of_nat i"
proof -
  show "outside_kernel M (a + 4 * of_nat i)" by (rule device_words [OF M a i(1)])
  show "outside_kernel M (v + 4 * of_nat j)" using v i(2) by (simp add: user_words_def)
  have "RAMSTART \<le> v + 4 * of_nat j" using v i(2) by (simp add: user_words_def)
  then show "a + 4 * of_nat i \<noteq> v + 4 * of_nat j" "v + 4 * of_nat j \<noteq> a + 4 * of_nat i"
    using device_words_low [OF M a i(1)] by auto
qed

lemma copy_from_device:
  assumes M: "machine_ok M" and a: "resolveDeviceAddress M a \<noteq> - 1" "unat a mod 4 = 0"
    and v: "user_words M v" and n: "nat n \<le> 4"
  shows "\<exists>m. copy_registers M n v a s = Some (s\<lparr>mem := m\<rparr>) \<and>
     (\<forall>i < nat n. m (v + 4 * of_nat i) = mem s (a + 4 * of_nat i)) \<and>
     (\<forall>b < RAMSTART. m b = mem s b)"
proof -
  note w = device_user_words [OF M a v]
  obtain m where m: "copy_registers M n v a s = Some (s\<lparr>mem := m\<rparr>)"
    "\<forall>i < nat n. m (v + 4 * of_nat i) = mem s (a + 4 * of_nat i)"
    "\<forall>b. (\<forall>i < nat n. b \<noteq> v + 4 * of_nat i) \<longrightarrow> m b = mem s b"
    using copy_disjoint [OF n, of M a v s] w by blast
  have "m b = mem s b" if "b < RAMSTART" for b
  proof -
    have "b \<noteq> v + 4 * of_nat i" if "i < nat n" for i
    proof -
      have "i < 4" using that n by linarith
      then have "RAMSTART \<le> v + 4 * of_nat i" using v by (simp add: user_words_def)
      then show ?thesis using \<open>b < RAMSTART\<close> by auto
    qed
    then show ?thesis using m(3) by blast
  qed
  then show ?thesis using m(1,2) by blast
qed

lemma copy_to_device:
  assumes M: "machine_ok M" and a: "resolveDeviceAddress M a \<noteq> - 1" "unat a mod 4 = 0"
    and v: "user_words M v" and n: "nat n \<le> 4"
  shows "\<exists>m. copy_registers M n a v s = Some (s\<lparr>mem := m\<rparr>) \<and>
     (\<forall>i < nat n. m (a + 4 * of_nat i) = mem s (v + 4 * of_nat i))"
  using copy_disjoint [OF n, of M v a s] device_user_words [OF M a v] by blast

section \<open>The device that interrupts\<close>

text \<open>The first device of a line whose bit is set in the bitmap.\<close>

definition pending_device :: "u32 \<Rightarrow> nat option" where
  "pending_device b = List.find (\<lambda>i. b AND push_bit i 1 \<noteq> 0) [0..<8]"

lemma pending_device_Some: "pending_device b = Some i \<longleftrightarrow> i < 8 \<and> bit b i \<and> (\<forall>j < i. \<not> bit b j)"
proof -
  have b: "b AND push_bit j 1 \<noteq> 0 \<longleftrightarrow> bit b j" for j
    using and_exp_eq_0_iff_not_bit [of b j] by (simp add: push_bit_eq_mult)
  show ?thesis
    unfolding pending_device_def b find_Some_iff by (auto simp: nth_append) 
qed

lemma pending_device_None: "pending_device b = None \<longleftrightarrow> (\<forall>i < 8. \<not> bit b i)"
proof -
  have b: "b AND push_bit j 1 \<noteq> 0 \<longleftrightarrow> bit b j" for j
    using and_exp_eq_0_iff_not_bit [of b j] by (simp add: push_bit_eq_mult)
  show ?thesis unfolding pending_device_def b find_None_iff by auto
qed


text \<open>What \<open>findDevRegAddr\<close> finds: the register of that device, or of the transmitter of the terminal.\<close>

definition line_bitmap :: "nat \<Rightarrow> u32" where
  "line_bitmap l = INTDEV_BITMAP + 4 * of_nat (l - 3)"

definition transmitter_status :: u32 where
  "transmitter_status = 0x1000025C"

lemma low_word:
  assumes "machine_ok M" "a < RAMSTART" "word_pointer a"
  shows "load_int M a s = Some (mem s a)"
  using assms by (intro load_int_other(1)) (auto simp: machine_ok_def in_sysiostates_def)

lemma lines_finite: "l \<in> {3..7} \<Longrightarrow> l = 3 \<or> l = 4 \<or> l = 5 \<or> l = 6 \<or> l = (7::nat)"
  by auto

lemma devices_finite: "i < 8 \<Longrightarrow> i = 0 \<or> i = 1 \<or> i = 2 \<or> i = 3 \<or> i = 4 \<or> i = 5 \<or> i = 6 \<or> i = (7::nat)"
  by arith

lemma term_register:
  assumes "l \<in> {3..7}" "i < 8"
  shows "isTermReg (DEVADDR l i) \<longleftrightarrow> l = 7 \<and> i = 0"
  using lines_finite [OF assms(1)] devices_finite [OF assms(2)]
  by (elim disjE) (simp_all add: isTermReg_def device_regs)

lemma findDevRegAddr_pending:
  "findDevRegAddr M l s = do {
     bitmap \<leftarrow> load_int M (line_bitmap l) s;
     let a = (case pending_device bitmap of None \<Rightarrow> 0 | Some i \<Rightarrow> DEVADDR l i);
     if isTermReg a then do {
       status' \<leftarrow> load_int M (a + 8) s;
       Some (if status' AND DEVICESTATUSMASK = TRANSMITTED then a + 8 else a)
     } else Some a
   }"
  by (simp only: findDevRegAddr_def line_bitmap_def pending_device_def)

lemma findDevRegAddr_line:
  assumes M: "machine_ok M" and l: "l \<in> {3..7}"
  shows "findDevRegAddr M l s = Some (case pending_device (mem s (line_bitmap l)) of
     None \<Rightarrow> 0
   | Some i \<Rightarrow> if l = 7 \<and> i = 0 \<and> mem s transmitter_status AND DEVICESTATUSMASK = TRANSMITTED
              then transmitter_status else DEVADDR l i)"
proof -
  have "load_int M (line_bitmap l) s = Some (mem s (line_bitmap l))"
    using lines_finite [OF l]
    by (intro low_word [OF M], elim disjE)
      (auto simp: line_bitmap_def INTDEV_BITMAP_def RAMSTART_def word_pointer_def)
  moreover have "load_int M transmitter_status s = Some (mem s transmitter_status)"
    by (intro low_word [OF M]) (simp_all add: transmitter_status_def RAMSTART_def word_pointer_def)
  moreover have "DEVADDR 7 0 + 8 = transmitter_status"
    by (simp add: device_regs transmitter_status_def)
  moreover have "\<not> isTermReg 0" by (simp add: isTermReg_def TERMREG_START_ADDR_def)
  ultimately have b: "load_int M (line_bitmap l) s = Some (mem s (line_bitmap l))"
    "load_int M transmitter_status s = Some (mem s transmitter_status)"
    "DEVADDR 7 0 + 8 = transmitter_status" "\<not> isTermReg 0" by blast+
  show ?thesis
  proof (cases "pending_device (mem s (line_bitmap l))")
    case None
    then show ?thesis using b(1,4)
      by (simp add: findDevRegAddr_pending)
  next
    case (Some i)
    have t: "isTermReg (DEVADDR l i) \<longleftrightarrow> l = 7 \<and> i = 0"
      using term_register [OF l] Some pending_device_Some by blast
    show ?thesis
    proof (cases "l = 7 \<and> i = 0")
      case True
      then show ?thesis using b Some t
        by (simp add: findDevRegAddr_pending)
    next
      case False
      then have "\<not> isTermReg (DEVADDR l i)" using t by blast
      then show ?thesis using b Some False
        by (auto simp: findDevRegAddr_pending)
    qed
  qed
qed

section \<open>The completion of an operation\<close>

text \<open>
  The device at \<open>a\<close>, number \<open>d\<close>, is the one that interrupts on the line, and it has been
  started by \<open>beginIO\<close> for the process \<open>w\<close>, which waits for it.
\<close>

definition io_waiting :: "machine \<Rightarrow> nat \<Rightarrow> u32 \<Rightarrow> nat \<Rightarrow> pcb \<Rightarrow> ash \<Rightarrow> kernel \<Rightarrow> bool" where
  "io_waiting M line a d w A s \<longleftrightarrow>
     findDevRegAddr M line s = Some a \<and> resolveDeviceAddress M a = int d \<and> unat a mod 4 = 0 \<and>
     waiting_process (g_sysiostates s d) = Ref w \<and> sem_sync (g_sysiostates s d) = 0 \<and>
     A (sem_sync_addr M d) = [w] \<and>
     resolveDeviceAddress M (cmd_addr (pcbs s w)) \<noteq> - 1 \<and> unat (cmd_addr (pcbs s w)) mod 4 = 0 \<and>
     user_words M (cmd_values (pcbs s w))"

text \<open>No other process waits for the mutex of the device.\<close>

definition io_pending :: "machine \<Rightarrow> nat \<Rightarrow> u32 \<Rightarrow> nat \<Rightarrow> pcb \<Rightarrow> ash \<Rightarrow> kernel \<Rightarrow> bool" where
  "io_pending M line a d w A s \<longleftrightarrow> io_waiting M line a d w A s \<and> A (sem_mut_addr M d) = []"

text \<open>The result of the operation, from the status register.\<close>

definition io_result :: "machine \<Rightarrow> u32 \<Rightarrow> u32 \<Rightarrow> u32" where
  "io_result M a status' = (if (if isTermReg a then status' AND DEVICESTATUSMASK = 5
       else status' AND DEVICESTATUSMASK = READY M) then 0 else - 1)"

lemma device_address_nonzero: "machine_ok M \<Longrightarrow> resolveDeviceAddress M a \<noteq> - 1 \<Longrightarrow> a \<noteq> 0"
  using resolveDeviceAddress_bound(2) [of M a] by (auto simp: DEVREG_START_ADDR_def)

lemma endIO_pending:
  assumes M: "machine_ok M" and io: "io_waiting M line a d w A s"
  shows "\<exists>m. endIO M (int d) s = Some (s\<lparr>mem := m, g_soft_block_count := g_soft_block_count s - 1\<rparr>) \<and>
     (\<forall>i < nat (getNumRegister (cmd_addr (pcbs s w))).
        m (cmd_values (pcbs s w) + 4 * of_nat i) = mem s (cmd_addr (pcbs s w) + 4 * of_nat i)) \<and>
     (\<forall>b < RAMSTART. m b = mem s b)"
proof -
  from io have io': "resolveDeviceAddress M (cmd_addr (pcbs s w)) \<noteq> - 1" "unat (cmd_addr (pcbs s w)) mod 4 = 0"
    "user_words M (cmd_values (pcbs s w))" "waiting_process (g_sysiostates s d) = Ref w"
    "resolveDeviceAddress M a = int d" by (simp_all add: io_waiting_def)
  have "d < DEVICE_NUMBER" using resolveDeviceAddress_bound(1) [OF M, of a] io'(5) by auto
  then show ?thesis
    using copy_from_device [OF M io'(1,2,3) getNumRegister_le [of "cmd_addr (pcbs s w)"], of s] io'(4)
    by (auto simp: endIO_def)
qed

lemma setReturnValue_pending:
  assumes M: "machine_ok M" and a: "resolveDeviceAddress M a = int d" "unat a mod 4 = 0"
    and w: "waiting_process (g_sysiostates s d) = Ref w"
  shows "setReturnValue M (int d) a s =
     Some (s\<lparr>pcbs := (pcbs s)(w := (pcbs s w)\<lparr>p_s := (p_s (pcbs s w))\<lparr>reg_v0 := io_result M a (mem s a)\<rparr>\<rparr>)\<rparr>)"
proof -
  have d: "d < DEVICE_NUMBER" using resolveDeviceAddress_bound(1) [OF M, of a] a(1) by auto
  have "load_int M a s = Some (mem s a)"
    using outside_store(2) [OF device_words [OF M _ a(2), where i = 0], where s = s] a(1) by simp
  then show ?thesis using d w by (simp add: setReturnValue_def io_result_def TRANSMITTED_def RECEIVED_def)
qed

lemma ackDevice_pending:
  assumes M: "machine_ok M" and a: "resolveDeviceAddress M a = int d" "unat a mod 4 = 0"
  shows "ackDevice M a s = Some (s\<lparr>mem := (mem s)(a + 4 := ACK M)\<rparr>)"
  using outside_store(1) [OF device_words [OF M _ a(2), where i = 1], where s = s and v = "ACK M"] a(1)
    resolveDeviceAddress_bound(2,3) [OF M, of a] by (simp add: ackDevice_def)

text \<open>What the handler does after the V on the semaphore of the device.\<close>

definition device_next :: "machine \<Rightarrow> nat \<Rightarrow> kernel \<Rightarrow> unit outcome option" where
  "device_next M d s = do {
     (removed_pcb, s) \<leftarrow> removeBlocked (sem_mut_addr M d) s;
     if removed_pcb \<noteq> NULL then beginIO M (int d) removed_pcb s
     else do {
       s \<leftarrow> upd_sysio (int d) (waiting_process_update (\<lambda>_. NULL)) s;
       s \<leftarrow> upd_sysio (int d) (\<lambda>io. io\<lparr>sem_mut := sem_mut io + 1\<rparr>) s;
       Some (Returns () s)
     }
   }"

text \<open>
  The process that waits gets the registers and the result and becomes ready; the state is
  described for the queues with the current process \<open>c\<close>.
\<close>

lemma handleDeviceInt_wakes:
  assumes M: "machine_ok M" and io: "io_waiting M line a d w A s"
    and k: "kinv (s\<lparr>g_current_process := c\<rparr>) R A rq fs ts"
  shows "\<exists>s' R'. handleDeviceInt M line s = device_next M d s' \<and>
     kinv (s'\<lparr>g_current_process := c\<rparr>) R' (A(sem_sync_addr M d := [])) (rq @ [w]) fs ts \<and>
     g_current_process s' = g_current_process s \<and> g_process_count s' = g_process_count s \<and>
     g_soft_block_count s' = g_soft_block_count s - 1 \<and> g_old_state s' = g_old_state s \<and> n_type s' = n_type s \<and>
     same_times s s' \<and> tod_reads s' = tod_reads s \<and> g_tod s' = g_tod s \<and> g_sysiostates s' = g_sysiostates s \<and>
     reg_v0 (p_s (pcbs s' w)) = io_result M a (mem s a) \<and> mem s' (a + 4) = ACK M \<and>
     (\<forall>b < RAMSTART. b \<noteq> a + 4 \<longrightarrow> mem s' b = mem s b) \<and>
     (\<forall>p. cmd_addr (pcbs s' p) = cmd_addr (pcbs s p) \<and> cmd_values (pcbs s' p) = cmd_values (pcbs s p)) \<and>
     (\<forall>i < nat (getNumRegister (cmd_addr (pcbs s w))).
        mem s' (cmd_values (pcbs s w) + 4 * of_nat i) = mem s (cmd_addr (pcbs s w) + 4 * of_nat i))"
proof -
  from io have io': "findDevRegAddr M line s = Some a" "resolveDeviceAddress M a = int d" "unat a mod 4 = 0"
    "waiting_process (g_sysiostates s d) = Ref w" "sem_sync (g_sysiostates s d) = 0"
    "A (sem_sync_addr M d) = [w]" "user_words M (cmd_values (pcbs s w))"
    by (simp_all add: io_waiting_def)
  have d: "d < DEVICE_NUMBER" using resolveDeviceAddress_bound(1) [OF M, of a] io'(2) by auto
  have a0: "a \<noteq> 0" by (rule device_address_nonzero [OF M]) (simp add: io'(2))
  obtain m where m: "endIO M (int d) s = Some (s\<lparr>mem := m, g_soft_block_count := g_soft_block_count s - 1\<rparr>)"
    "\<forall>i < nat (getNumRegister (cmd_addr (pcbs s w))).
        m (cmd_values (pcbs s w) + 4 * of_nat i) = mem s (cmd_addr (pcbs s w) + 4 * of_nat i)"
    "\<forall>b < RAMSTART. m b = mem s b" using endIO_pending [OF M io] by blast
  have low: "a + 4 * of_nat i < RAMSTART" if "i < 4" for i using device_words_low [OF M _ io'(3) that] io'(2) by simp
  let ?pw = "(pcbs s w)\<lparr>p_s := (p_s (pcbs s w))\<lparr>reg_v0 := io_result M a (mem s a)\<rparr>\<rparr>"
  define s3 where "s3 = s\<lparr>mem := m(a + 4 := ACK M), g_soft_block_count := g_soft_block_count s - 1,
    pcbs := (pcbs s)(w := ?pw)\<rparr>"
  have "endIO M (int d) s \<bind> setReturnValue M (int d) a \<bind> ackDevice M a = Some s3"
    using setReturnValue_pending [OF M io'(2,3), of "s\<lparr>mem := m, g_soft_block_count := g_soft_block_count s - 1\<rparr>" w]
      ackDevice_pending [OF M io'(2,3)] io'(4) m(3) low [of 0] by (simp add: m(1) s3_def)
  moreover have "handleDeviceInt M line s = do {
      s \<leftarrow> endIO M (int d) s \<bind> setReturnValue M (int d) a \<bind> ackDevice M a;
      r \<leftarrow> sysVerhogen M (sem_sync_addr M d) s;
      returning r (\<lambda>_. device_next M d)
    }"
    using a0 d io'(5) by (simp add: handleDeviceInt_def device_next_def [abs_def] io'(1,2) Let_def)
  ultimately have h: "handleDeviceInt M line s = do {
      r \<leftarrow> sysVerhogen M (sem_sync_addr M d) s3; returning r (\<lambda>_. device_next M d) }" by simp
  have k3: "kinv (s3\<lparr>g_current_process := c\<rparr>) R A rq fs ts" by (rule kinv_cong [OF k]) (simp_all add: s3_def)
  from queues_wake_at [OF kinvD(1) [OF k3] io'(6)] obtain s4 hl hk R4 where
    w: "removeBlocked (sem_sync_addr M d) s3 = Some (Ref w, s4)"
    "insertProcQ (Ref Ready_queue) (Ref w) s4 =
       Some (s3\<lparr>lh := hl, hh := hk, pcbs := (pcbs s3)(w := (pcbs s3 w)\<lparr>p_semAdd := 0\<rparr>)\<rparr>)"
    "queues (s3\<lparr>lh := hl, hh := hk, pcbs := (pcbs s3)(w := (pcbs s3 w)\<lparr>p_semAdd := 0\<rparr>),
       g_current_process := c\<rparr>) R4 (A(sem_sync_addr M d := [])) (rq @ [w])" "same_rest R R4"
    by blast
  let ?s5 = "s3\<lparr>lh := hl, hh := hk, pcbs := (pcbs s3)(w := (pcbs s3 w)\<lparr>p_semAdd := 0\<rparr>)\<rparr>"
  have "load_int M (sem_sync_addr M d) s3 = Some 0"
    using load_fields(2) [OF M d, of s3] io'(5) by (simp add: s3_def)
  then have v: "sysVerhogen M (sem_sync_addr M d) s3 = Some (Returns () ?s5)"
    using w(1,2) by (simp add: sysVerhogen_def)
  have k5: "kinv (?s5\<lparr>g_current_process := c\<rparr>) R4 (A(sem_sync_addr M d := [])) (rq @ [w]) fs ts"
  proof (rule kinv_queues [OF k3 w(3,4)])
    show "sem_ptrs (?s5\<lparr>g_current_process := c\<rparr>) (A(sem_sync_addr M d := []))"
      by (rule sem_ptrs_wake [OF kinvD(3) [OF k3] io'(6)]) simp_all
    show "accounted (?s5\<lparr>g_current_process := c\<rparr>) (A(sem_sync_addr M d := [])) (rq @ [w]) q"
      if "accounted (s3\<lparr>g_current_process := c\<rparr>) A rq q" for q
      by (rule accounted_wake [OF that io'(6)]) simp
  qed simp_all
  have neq: "cmd_values (pcbs s w) + 4 * of_nat i \<noteq> a + 4" if "i < nat (getNumRegister (cmd_addr (pcbs s w)))" for i
  proof -
    have "i < 4" using that getNumRegister_le [of "cmd_addr (pcbs s w)"] by linarith
    then have "RAMSTART \<le> cmd_values (pcbs s w) + 4 * of_nat i" using io'(7) by (simp add: user_words_def)
    then show ?thesis using low [of 1] by auto
  qed
  then have "\<forall>i < nat (getNumRegister (cmd_addr (pcbs s w))). mem ?s5 (cmd_values (pcbs s w) + 4 * of_nat i) =
      mem s (cmd_addr (pcbs s w) + 4 * of_nat i)"
    using m(2) by (auto simp: s3_def)
  moreover have "handleDeviceInt M line s = device_next M d ?s5" unfolding h v by simp
  ultimately show ?thesis using k5 m(3) by (intro exI [of _ ?s5] exI [of _ R4]) (simp add: s3_def same_times_def)
qed

text \<open>With no other process waiting, the device becomes free.\<close>

lemma handleDeviceInt_done:
  assumes M: "machine_ok M" and io: "io_pending M line a d w A s"
    and k: "kinv (s\<lparr>g_current_process := c\<rparr>) R A rq fs ts"
  shows "\<exists>s' R'. handleDeviceInt M line s = Some (Returns () s') \<and>
     kinv (s'\<lparr>g_current_process := c\<rparr>) R' (A(sem_sync_addr M d := [])) (rq @ [w]) fs ts \<and>
     g_current_process s' = g_current_process s \<and> g_process_count s' = g_process_count s \<and>
     g_soft_block_count s' = g_soft_block_count s - 1 \<and> g_old_state s' = g_old_state s \<and> n_type s' = n_type s \<and>
     same_times s s' \<and> g_sysiostates s' = (g_sysiostates s)(d := \<lparr>sem_mut = sem_mut (g_sysiostates s d) + 1, sem_sync = 0,
        waiting_process = NULL\<rparr>) \<and>
     reg_v0 (p_s (pcbs s' w)) = io_result M a (mem s a) \<and> mem s' (a + 4) = ACK M \<and>
     (\<forall>b < RAMSTART. b \<noteq> a + 4 \<longrightarrow> mem s' b = mem s b) \<and>
     (\<forall>p. cmd_addr (pcbs s' p) = cmd_addr (pcbs s p) \<and> cmd_values (pcbs s' p) = cmd_values (pcbs s p)) \<and>
     (\<forall>i < nat (getNumRegister (cmd_addr (pcbs s w))).
        mem s' (cmd_values (pcbs s w) + 4 * of_nat i) = mem s (cmd_addr (pcbs s w) + 4 * of_nat i))"
proof -
  from io have io': "io_waiting M line a d w A s" "A (sem_mut_addr M d) = []" by (simp_all add: io_pending_def)
  then have sync: "sem_sync (g_sysiostates s d) = 0" "resolveDeviceAddress M a = int d" by (simp_all add: io_waiting_def)
  have d: "d < DEVICE_NUMBER" using resolveDeviceAddress_bound(1) [OF M, of a] sync(2) by auto
  obtain s5 R5 where h: "handleDeviceInt M line s = device_next M d s5"
    and k5: "kinv (s5\<lparr>g_current_process := c\<rparr>) R5 (A(sem_sync_addr M d := [])) (rq @ [w]) fs ts"
    and f: "g_current_process s5 = g_current_process s" "g_process_count s5 = g_process_count s"
      "g_soft_block_count s5 = g_soft_block_count s - 1" "g_old_state s5 = g_old_state s"
      "g_sysiostates s5 = g_sysiostates s" "n_type s5 = n_type s" "same_times s s5"
      "reg_v0 (p_s (pcbs s5 w)) = io_result M a (mem s a)" "mem s5 (a + 4) = ACK M"
      "\<forall>b < RAMSTART. b \<noteq> a + 4 \<longrightarrow> mem s5 b = mem s b"
      "\<forall>p. cmd_addr (pcbs s5 p) = cmd_addr (pcbs s p) \<and> cmd_values (pcbs s5 p) = cmd_values (pcbs s p)"
      "\<forall>i < nat (getNumRegister (cmd_addr (pcbs s w))).
        mem s5 (cmd_values (pcbs s w) + 4 * of_nat i) = mem s (cmd_addr (pcbs s w) + 4 * of_nat i)"
    using handleDeviceInt_wakes [OF M io'(1) k] by blast
  have "sem_mut_addr M d \<noteq> sem_sync_addr M d" by (rule sem_addr_distinct(1) [OF M d d])
  then have none: "removeBlocked (sem_mut_addr M d) s5 = Some (NULL, s5)"
    using removeBlocked_none [of s5 R5 "A(sem_sync_addr M d := [])" "sem_mut_addr M d"] io'(2)
      queuesD(1) [OF kinvD(1) [OF k5]] by simp
  define s6 where "s6 = s5\<lparr>g_sysiostates := (g_sysiostates s)(d := \<lparr>sem_mut = sem_mut (g_sysiostates s d) + 1,
    sem_sync = 0, waiting_process = NULL\<rparr>)\<rparr>"
  have "handleDeviceInt M line s = Some (Returns () s6)"
    unfolding h device_next_def using none d sync(1)
    by (cases "g_sysiostates s d") (simp add: s6_def f(5))
  moreover have "kinv (s6\<lparr>g_current_process := c\<rparr>) R5 (A(sem_sync_addr M d := [])) (rq @ [w]) fs ts"
    by (rule kinv_cong [OF k5]) (simp_all add: s6_def)
  ultimately show ?thesis using f by (intro exI [of _ s6] exI [of _ R5]) (simp add: s6_def same_times_def)
qed

end
