(* ===== verification/Device_IO.thy ===== *)
theory Device_IO
  imports Interrupts
begin

text \<open>
  The start of an operation of a free device: \<open>sysDoIO\<close> takes the mutex of the device,
  writes its registers, and blocks the caller on the semaphore of the device.
\<close>

definition device_free :: "machine \<Rightarrow> nat \<Rightarrow> ash \<Rightarrow> kernel \<Rightarrow> bool" where
  "device_free M d A s \<longleftrightarrow> sem_mut (g_sysiostates s d) = 1 \<and> sem_sync (g_sysiostates s d) = 0 \<and>
     A (sem_mut_addr M d) = []"

lemma passeren_takes:
  assumes M: "machine_ok M" and d: "d < DEVICE_NUMBER" and q: "queues s R A rq" and f: "device_free M d A s"
  shows "sysPasseren M (sem_mut_addr M d) s =
    Some (Returns () (s\<lparr>g_sysiostates := (g_sysiostates s)(d := (g_sysiostates s d)\<lparr>sem_mut := 0\<rparr>)\<rparr>))"
  using f queues_no_waiter [OF q, of "sem_mut_addr M d"] load_fields(1) [OF M d, of s] store_fields(1) [OF M d] d
  by (simp add: sysPasseren_def device_free_def)

lemma passeren_blocks:
  assumes M: "machine_ok M" and d: "d < DEVICE_NUMBER" and v: "sem_sync (g_sysiostates s d) \<noteq> 1"
  shows "sysPasseren M (sem_sync_addr M d) s = block_current M (sem_sync_addr M d) s"
  unfolding sysPasseren_op by (rule sem_op_taken [OF load_fields(2) [OF M d] v])

lemma sysDoIO_starts:
  assumes M: "machine_ok M" and k: "kinv s R A rq fs ts" and c: "g_current_process s = Ref p"
    and a: "resolveDeviceAddress M a = int d" "unat a mod 4 = 0" and v: "user_words M v"
    and f: "device_free M d A s"
  shows "\<exists>s' R'. sysDoIO M a v s = (do { r \<leftarrow> scheduler M s'; returning r (\<lambda>_ s. Some (Returns 0 s)) }) \<and>
     kinv s' R' (A(sem_sync_addr M d := A (sem_sync_addr M d) @ [p])) rq fs ts \<and> g_current_process s' = NULL \<and>
     g_sysiostates s' = (g_sysiostates s)(d := \<lparr>sem_mut = 0, sem_sync = 0, waiting_process = Ref p\<rparr>) \<and>
     g_soft_block_count s' = g_soft_block_count s + 1 \<and> g_process_count s' = g_process_count s \<and>
     cmd_addr (pcbs s' p) = a \<and> cmd_values (pcbs s' p) = v \<and> p_s (pcbs s' p) = g_old_state s \<and>
     (\<forall>i < nat (getNumRegister a). mem s' (a + 4 * of_nat i) = mem s (v + 4 * of_nat i)) \<and>
     n_type s' = n_type s \<and> (\<forall>q. q \<noteq> p \<longrightarrow> pcbs s' q = pcbs s q)"
proof -
  have am: "resolveDeviceAddress M a \<noteq> - 1" using a(1) by simp
  have d: "d < DEVICE_NUMBER" using resolveDeviceAddress_bound(1) [OF M am] a(1) by auto
  define s1 where "s1 = s\<lparr>pcbs := (pcbs s)(p := (pcbs s p)\<lparr>cmd_addr := a, cmd_values := v\<rparr>)\<rparr>"
  define s2 where "s2 = s1\<lparr>g_sysiostates := (g_sysiostates s)(d := (g_sysiostates s d)\<lparr>sem_mut := 0\<rparr>)\<rparr>"
  have k1: "kinv s1 R A rq fs ts" by (rule kinv_cong [OF k]) (simp_all add: s1_def)
  have P: "sysPasseren M (sem_mut_addr M d) s1 = Some (Returns () s2)"
    using passeren_takes [OF M d kinvD(1) [OF k1]] f by (simp add: s2_def s1_def device_free_def)
  have do: "sysDoIO M a v s = do {
      r \<leftarrow> beginIO M (int d) (Ref p) s2; returning r (\<lambda>_ s. Some (Returns 0 s)) }"
    using P c by (simp add: sysDoIO_def a(1) s1_def s2_def)
  let ?s3 = "s2\<lparr>g_sysiostates := (g_sysiostates s)(d := \<lparr>sem_mut = 0, sem_sync = 0, waiting_process = Ref p\<rparr>)\<rparr>"
  obtain m where m: "copy_registers M (getNumRegister a) a v ?s3 = Some (?s3\<lparr>mem := m\<rparr>)"
    "\<forall>i < nat (getNumRegister a). m (a + 4 * of_nat i) = mem ?s3 (v + 4 * of_nat i)"
    using copy_to_device [OF M am a(2) v getNumRegister_le] by blast
  define s4 where "s4 = ?s3\<lparr>mem := m, g_soft_block_count := g_soft_block_count s + 1\<rparr>"
  have up: "upd_sysio (int d) (waiting_process_update (\<lambda>_. Ref p)) s2 = Some ?s3"
    using d f by (cases "g_sysiostates s d") (simp add: s2_def device_free_def)
  have cmd: "get_pcb (Ref p) ?s3 = Some ((pcbs s p)\<lparr>cmd_addr := a, cmd_values := v\<rparr>)" by (simp add: s2_def s1_def)
  have "beginIO M (int d) (Ref p) s2 = sysPasseren M (sem_sync_addr M d) s4"
    unfolding beginIO_def up Option.bind.bind_lunit cmd using m(1) by (simp add: s4_def s2_def s1_def)
  also have "\<dots> = block_current M (sem_sync_addr M d) s4"
    by (rule passeren_blocks [OF M d]) (simp add: s4_def)
  finally have b: "beginIO M (int d) (Ref p) s2 = block_current M (sem_sync_addr M d) s4" .
  have k4: "kinv s4 R A rq fs ts" by (rule kinv_cong [OF k1]) (simp_all add: s4_def s2_def s1_def)
  have c4: "g_current_process s4 = Ref p" using c by (simp add: s4_def s2_def s1_def)
  have "sem_sync_addr M d \<noteq> 0" using sem_addr_fields(2) [OF M d] by (auto simp: sem_addr_def word_pointer_def)
  from block_current_state [OF k4 c4 this, of M] obtain s' R' where
    s': "block_current M (sem_sync_addr M d) s4 = scheduler M s'"
      "kinv s' R' (A(sem_sync_addr M d := A (sem_sync_addr M d) @ [p])) rq fs ts" "g_current_process s' = NULL"
      "pcbs s' = (pcbs s4)(p := (stopped p s4)\<lparr>p_semAdd := sem_sync_addr M d\<rparr>)"
      "g_soft_block_count s' = g_soft_block_count s4" "g_process_count s' = g_process_count s4"
      "g_sysiostates s' = g_sysiostates s4" "mem s' = mem s4" "n_type s' = n_type s4" by blast
  show ?thesis unfolding do b s'(1)
    using s'(2-9) m(2)
    by (intro exI [of _ s'] exI [of _ R'] conjI) (simp_all add: s4_def s2_def s1_def stopped_def)
qed

text \<open>While the device is in use the caller waits for its mutex, with its command kept.\<close>

lemma sysDoIO_busy:
  assumes M: "machine_ok M" and k: "kinv s R A rq fs ts" and c: "g_current_process s = Ref p"
    and a: "resolveDeviceAddress M a = int d" and busy: "sem_mut (g_sysiostates s d) \<noteq> 1"
  shows "\<exists>s' R' e t. sysDoIO M a v s = Some (Exits e t) \<and> scheduler M s' = Some (Exits e t) \<and>
     kinv s' R' (A(sem_mut_addr M d := A (sem_mut_addr M d) @ [p])) rq fs ts \<and> g_current_process s' = NULL \<and>
     g_sysiostates s' = g_sysiostates s \<and> g_soft_block_count s' = g_soft_block_count s \<and>
     g_process_count s' = g_process_count s \<and> mem s' = mem s \<and> n_type s' = n_type s \<and>
     cmd_addr (pcbs s' p) = a \<and> cmd_values (pcbs s' p) = v \<and> p_s (pcbs s' p) = g_old_state s \<and>
     (\<forall>q. q \<noteq> p \<longrightarrow> pcbs s' q = pcbs s q)"
proof -
  let ?k = "sem_mut_addr M d"
  have d: "d < DEVICE_NUMBER" using resolveDeviceAddress_bound(1) [OF M, of a] a by auto
  let ?s1 = "s\<lparr>pcbs := (pcbs s)(p := (pcbs s p)\<lparr>cmd_addr := a, cmd_values := v\<rparr>)\<rparr>"
  have k1: "kinv ?s1 R A rq fs ts" by (rule kinv_cong [OF k]) simp_all
  have c1: "g_current_process ?s1 = Ref p" using c by simp
  have "?k \<noteq> 0" using sem_addr_fields(1) [OF M d] by (auto simp: sem_addr_def word_pointer_def)
  from block_current_state [OF k1 c1 this, of M] obtain s' R' where
    s': "block_current M ?k ?s1 = scheduler M s'" "kinv s' R' (A(?k := A ?k @ [p])) rq fs ts"
      "g_current_process s' = NULL" "pcbs s' = (pcbs ?s1)(p := (stopped p ?s1)\<lparr>p_semAdd := ?k\<rparr>)"
      "g_soft_block_count s' = g_soft_block_count ?s1" "g_process_count s' = g_process_count ?s1"
      "g_sysiostates s' = g_sysiostates ?s1" "mem s' = mem ?s1" "n_type s' = n_type ?s1" by blast
  have "kinv (s'\<lparr>g_current_process := NULL\<rparr>) R' (A(?k := A ?k @ [p])) rq fs ts"
    using s'(2) unfolding current_same [OF s'(3)] .
  from scheduler_exits [OF this] obtain e t where e: "scheduler M s' = Some (Exits e t)" by blast
  have "load_int M ?k ?s1 = Some (sem_mut (g_sysiostates s d))" using load_fields(1) [OF M d, of ?s1] by simp
  then have "sysPasseren M ?k ?s1 = block_current M ?k ?s1"
    unfolding sysPasseren_op by (rule sem_op_taken) (rule busy)
  then have "sysDoIO M a v s = Some (Exits e t)" using c s'(1) e by (simp add: sysDoIO_def a)
  then show ?thesis using e s'(2-9)
    by (intro exI [of _ s'] exI [of _ R'] exI [of _ e] exI [of _ t]) (simp add: stopped_def)
qed

section \<open>The devices\<close>

lemma devices_ok_waiter:
  assumes "minv M s R A rq fs ts" "g_current_process s = Ref p" "A k = [w]"
  shows "w \<noteq> p"
  using queues_current(1) [OF kinvD(1) [OF minvD(1) [OF assms(1)]] assms(2), of k] assms(3) by auto

lemma minv_starts:
  assumes M: "machine_ok M" and k: "minv M s R A rq fs ts" and c: "g_current_process s = Ref p"
    and a: "resolveDeviceAddress M a = int d" "unat a mod 4 = 0" and v: "user_words M v" and f: "device_idle M d A s"
  shows "safe M (sysDoIO M a v s)"
proof -
  note K = minvD [OF k]
  let ?A = "A(sem_sync_addr M d := [p])"
  have d: "d < DEVICE_NUMBER" using resolveDeviceAddress_bound(1) [OF M, of a] a(1) by auto
  have f': "device_free M d A s" "A (sem_sync_addr M d) = []"
    using f by (simp_all add: device_idle_def device_free_def free_device_def)
  from sysDoIO_starts [OF M K(1) c a v f'(1), unfolded f'(2)] obtain s' R' where
    s': "sysDoIO M a v s = (do { r \<leftarrow> scheduler M s'; returning r (\<lambda>_ s. Some (Returns 0 s)) })"
      "kinv s' R' (A(sem_sync_addr M d := [] @ [p])) rq fs ts" "g_current_process s' = NULL"
      "g_sysiostates s' = (g_sysiostates s)(d := \<lparr>sem_mut = 0, sem_sync = 0, waiting_process = Ref p\<rparr>)"
      "cmd_addr (pcbs s' p) = a" "cmd_values (pcbs s' p) = v" "n_type s' = n_type s"
      "\<forall>q. q \<noteq> p \<longrightarrow> pcbs s' q = pcbs s q" by blast
  have "device_busy M d p ?A s'" using s'(4-6) a v by (simp add: device_busy_def)
  then have "device_ok M d ?A s'" unfolding device_ok_def by blast
  moreover have "device_ok M e ?A s'" if e: "e < DEVICE_NUMBER" "e \<noteq> d" for e
  proof -
    note ne = sem_addr_distinct [OF M e(1) d] sem_addr_distinct [OF M d e(1)]
    have "device_ok M e A s" using K(2) e(1) by (simp add: devices_ok_def)
    then show ?thesis
    proof (rule device_ok_queues)
      show "?A (sem_sync_addr M e) = [w] \<and> cmd_addr (pcbs s' w) = cmd_addr (pcbs s w) \<and>
          cmd_values (pcbs s' w) = cmd_values (pcbs s w)" if "A (sem_sync_addr M e) = [w]" for w
        using that devices_ok_waiter [OF k c that] ne e(2) s'(8) by auto
    qed (use ne e(2) in \<open>auto simp: s'(4)\<close>)
  qed
  ultimately have "devices_ok M ?A s'" unfolding devices_ok_def by metis
  then have "minv M s' R' ?A rq fs ts" using s'(2,7) K(3) by (simp add: minv_def namespaces_ok_def)
  from scheduler_settled_none [OF this s'(3)] show ?thesis unfolding s'(1) by auto
qed

lemma minv_busy:
  assumes M: "machine_ok M" and k: "minv M s R A rq fs ts" and c: "g_current_process s = Ref p"
    and a: "resolveDeviceAddress M a = int d" and f: "sem_mut (g_sysiostates s d) \<noteq> 1"
  shows "safe M (sysDoIO M a v s)"
proof -
  note K = minvD [OF k]
  let ?k = "sem_mut_addr M d"
  have d: "d < DEVICE_NUMBER" using resolveDeviceAddress_bound(1) [OF M, of a] a(1) by auto
  from sysDoIO_busy [OF M K(1) c a f] obtain s' R' e t where
    s': "sysDoIO M a v s = Some (Exits e t)" "scheduler M s' = Some (Exits e t)"
      "kinv s' R' (A(?k := A ?k @ [p])) rq fs ts" "g_current_process s' = NULL"
      "g_sysiostates s' = g_sysiostates s" "n_type s' = n_type s" "\<forall>q. q \<noteq> p \<longrightarrow> pcbs s' q = pcbs s q" by blast
  have "devices_ok M (A(?k := A ?k @ [p])) s'"
  proof (rule devices_ok_queues [OF K(2) s'(5)])
    fix e w assume e: "e < DEVICE_NUMBER" "A (sem_sync_addr M e) = [w]"
    then show "(A(?k := A ?k @ [p])) (sem_sync_addr M e) = [w] \<and>
      cmd_addr (pcbs s' w) = cmd_addr (pcbs s w) \<and> cmd_values (pcbs s' w) = cmd_values (pcbs s w)"
      using s'(7) devices_ok_waiter [OF k c e(2)] sem_addr_distinct(1) [OF M d e(1)] by auto
  next
    show "(A(?k := A ?k @ [p])) (sem_sync_addr M e) = []" if "e < DEVICE_NUMBER" "A (sem_sync_addr M e) = []" for e
      using that sem_addr_distinct(1) [OF M d that(1)] by auto
    fix e assume e: "e < DEVICE_NUMBER" "g_sysiostates s e = free_device" "A (sem_mut_addr M e) = []"
    then have "e \<noteq> d" using f by (auto simp: free_device_def)
    then show "(A(?k := A ?k @ [p])) (sem_mut_addr M e) = []"
      using e(3) sem_addr_distinct [OF M d e(1)] by auto
  qed
  then have "minv M s' R' (A(?k := A ?k @ [p])) rq fs ts" using s'(3,6) K(3) by (simp add: minv_def namespaces_ok_def)
  from scheduler_settled_none [OF this s'(4)] show ?thesis using s'(1,2) by auto
qed

text \<open>The arguments of \<open>sysDoIO\<close>: a register of a device, and four words of the memory of the process.\<close>

definition io_arg :: "machine \<Rightarrow> u32 \<Rightarrow> u32 \<Rightarrow> bool" where
  "io_arg M a v \<longleftrightarrow> resolveDeviceAddress M a = - 1 \<or> unat a mod 4 = 0 \<and> user_words M v"

lemma sysDoIO_safe:
  assumes M: "machine_ok M" and r: "running M s" and a: "io_arg M a v"
  shows "safe M (sysDoIO M a v s)"
proof (cases "resolveDeviceAddress M a = - 1")
  case True
  then show ?thesis using r by (simp add: sysDoIO_def)
next
  case False
  from resolveDeviceAddress_bound(1) [OF M this] obtain d where
    d: "d < DEVICE_NUMBER" "resolveDeviceAddress M a = int d" by blast
  from r obtain R A rq fs ts p where k: "minv M s R A rq fs ts" and c: "g_current_process s = Ref p"
    by (rule runningE)
  from minvD(2) [OF k] d(1) show ?thesis
  proof (cases rule: devices_okE)
    case 1
    then show ?thesis using minv_starts [OF M k c d(2)] a False by (simp add: io_arg_def)
  next
    case (2 w)
    then show ?thesis using minv_busy [OF M k c d(2)] by (simp add: device_busy_def)
  next
    case 3
    then show ?thesis using minv_busy [OF M k c d(2)] by (auto simp: device_orphan_def)
  qed
qed

end
