(* ===== verification/Interrupt_Lines.thy ===== *)
theory Interrupt_Lines
  imports Device_IO
begin

text \<open>
  \<open>interruptHandler\<close>: every line whose bit is set in the cause register is served, one
  after another, and the invariant is kept.
\<close>

section \<open>The bits of the cause register\<close>

definition irq_bits :: "nat set" where
  "irq_bits = {9, 10, 11, 12, 14, 15}"

definition pending :: "u32 \<Rightarrow> nat set" where
  "pending c = {k \<in> irq_bits. bit c k}"

lemma finite_pending [simp]: "finite (pending c)"
  by (simp add: pending_def irq_bits_def)

lemma and_power: "(c :: u32) AND 2 ^ k \<noteq> 0 \<longleftrightarrow> bit c k"
  using and_exp_eq_0_iff_not_bit [of c k] by simp

lemma line_bits:
  "c AND LOCALTIMERINT \<noteq> 0 \<longleftrightarrow> bit c 9" "c AND TIMERINTERRUPT \<noteq> 0 \<longleftrightarrow> bit c 10"
  "c AND DISKINTERRUPT \<noteq> 0 \<longleftrightarrow> bit c 11" "c AND FLASHINTERRUPT \<noteq> 0 \<longleftrightarrow> bit c 12"
  "c AND PRINTINTERRUPT \<noteq> 0 \<longleftrightarrow> bit c 14" "c AND TERMINTERRUPT \<noteq> 0 \<longleftrightarrow> bit c 15"
  using and_power [of c 9] and_power [of c 10] and_power [of c 11] and_power [of c 12] and_power [of c 14]
    and_power [of c 15]
  by (simp_all add: interrupt_lines)

lemma line_masks:
  "LOCALTIMERINT = 2 ^ 9" "TIMERINTERRUPT = 2 ^ 10" "DISKINTERRUPT = 2 ^ 11" "FLASHINTERRUPT = 2 ^ 12"
  "PRINTINTERRUPT = 2 ^ 14" "TERMINTERRUPT = 2 ^ 15"
  by (simp_all add: interrupt_lines)

lemma mask_pending: "c AND interrupt_mask \<noteq> 0 \<longleftrightarrow> pending c \<noteq> {}"
proof -
  have "c AND interrupt_mask = (c AND DISKINTERRUPT) OR (c AND FLASHINTERRUPT) OR (c AND PRINTINTERRUPT) OR
      (c AND TERMINTERRUPT) OR (c AND LOCALTIMERINT) OR (c AND TIMERINTERRUPT)"
    unfolding interrupt_mask_def by (simp only: bit.conj_disj_distrib)
  then have "c AND interrupt_mask \<noteq> 0 \<longleftrightarrow> bit c 9 \<or> bit c 10 \<or> bit c 11 \<or> bit c 12 \<or> bit c 14 \<or> bit c 15"
    unfolding line_bits [symmetric] by (auto simp: or_eq_0_iff)
  then show ?thesis by (auto simp: pending_def irq_bits_def)
qed

lemma bit_clear: "bit (c AND NOT (2 ^ k)) j \<longleftrightarrow> bit (c :: u32) j \<and> j \<noteq> k"
  by (auto simp: bit_and_iff bit_not_iff bit_exp_iff dest: bit_imp_le_length)

lemma pending_clear: "pending (c AND NOT (2 ^ k)) = pending c - {k}"
  by (auto simp: pending_def bit_clear)

section \<open>One line\<close>

definition serve_first :: "machine \<Rightarrow> kernel \<Rightarrow> unit outcome option" where
  "serve_first M s = (let c = cause (g_old_state s) in
     if bit c 9 then handleLocalTimer M (clear_cause LOCALTIMERINT s)
     else if bit c 10 then do { s \<leftarrow> handleSysTimer M (clear_cause TIMERINTERRUPT s); Some (Returns () s) }
     else if bit c 11 then handleDeviceInt M DISK_INTLINE (clear_cause DISKINTERRUPT s)
     else if bit c 12 then handleDeviceInt M FLASH_INTLINE (clear_cause FLASHINTERRUPT s)
     else if bit c 14 then handleDeviceInt M PRINTER_INTLINE (clear_cause PRINTINTERRUPT s)
     else if bit c 15 then handleDeviceInt M TERM_INTLINE (clear_cause TERMINTERRUPT s)
     else Some (Returns () s))"

lemma interruptHandler_step:
  "interruptHandler M (Suc n) s = do {
     r \<leftarrow> serve_first M s;
     returning r (\<lambda>_ s. do {
       r \<leftarrow> (if pending (cause (g_old_state s)) \<noteq> {} then interruptHandler M n s else Some (Returns () s));
       returning r (\<lambda>_ s. do {
         let (tod, s) = STCK s;
         let s = s\<lparr>g_tod := tod\<rparr>;
         Some (Exits (LDST (g_old_state s)) s)
       })
     })
   }"
  by (simp only: interruptHandler.simps serve_first_def Let_def line_bits mask_pending)

text \<open>Every device that interrupts has been started by \<open>beginIO\<close>, on the queues \<open>A\<close>.\<close>

definition irq_pending :: "machine \<Rightarrow> ash \<Rightarrow> kernel \<Rightarrow> bool" where
  "irq_pending M A s \<longleftrightarrow> (\<forall>l \<in> {3, 4, 6, 7}. bit (cause (g_old_state s)) (l + 8) \<longrightarrow>
     (\<exists>a d w. io_pending M l a d w A s))"

lemma io_pending_cong:
  assumes "io_pending M l a d w A s" "findDevRegAddr M l s' = findDevRegAddr M l s"
    and "g_sysiostates s' d = g_sysiostates s d"
    and "cmd_addr (pcbs s' w) = cmd_addr (pcbs s w)" "cmd_values (pcbs s' w) = cmd_values (pcbs s w)"
    and "A' (sem_sync_addr M d) = A (sem_sync_addr M d)" "A' (sem_mut_addr M d) = A (sem_mut_addr M d)"
  shows "io_pending M l a d w A' s'"
  using assms by (simp add: io_pending_def io_waiting_def)

lemma findDevRegAddr_cong:
  assumes "machine_ok M" "l \<in> {3..7}" "mem s' (line_bitmap l) = mem s (line_bitmap l)"
    and "l = 7 \<Longrightarrow> mem s' transmitter_status = mem s transmitter_status"
  shows "findDevRegAddr M l s' = findDevRegAddr M l s"
  unfolding findDevRegAddr_line [OF assms(1,2)] using assms(3,4) by (auto split: option.splits)

lemma io_pending_register:
  assumes M: "machine_ok M" and l: "l \<in> {3..7}" and io: "io_pending M l a d w A s"
  shows "d < DEVICE_NUMBER" "(\<exists>i < 8. a = DEVADDR l i) \<or> l = 7 \<and> a = transmitter_status"
proof -
  from io have a: "findDevRegAddr M l s = Some a" "resolveDeviceAddress M a = int d" by (simp_all add: io_pending_def io_waiting_def)
  show "d < DEVICE_NUMBER" using resolveDeviceAddress_bound(1) [OF M, of a] a(2) by auto
  have "a \<noteq> 0" by (rule device_address_nonzero [OF M]) (simp add: a(2))
  then show "(\<exists>i < 8. a = DEVADDR l i) \<or> l = 7 \<and> a = transmitter_status"
    using a(1) unfolding findDevRegAddr_line [OF M l]
    by (auto split: option.splits if_splits simp: pending_device_Some)
qed

lemma device_number_line:
  assumes M: "machine_ok M" and l: "l \<in> {3..7}" and io: "io_pending M l a d w A s"
  shows "if l < 7 then d div 8 = l - 3 else d \<in> {32, 33}"
proof -
  have sz: "DEVREGSIZE M = 16" using M by (simp add: machine_ok_def)
  have r: "resolveDeviceAddress M a = int d" using io by (simp add: io_pending_def io_waiting_def)
  show ?thesis
  proof (cases "l < 7")
    case True
    then obtain i where i: "i < 8" "a = DEVADDR l i" using io_pending_register(2) [OF M l io] by auto
    have "resolveDeviceAddress M (DEVADDR l i) = int (8 * (l - 3) + i)"
      using lines_finite [OF l] devices_finite [OF i(1)] True
      by (elim disjE) (simp_all add: resolveDeviceAddress_def device_regs sz)
    then have "d = 8 * (l - 3) + i" using r i(2) by simp
    then show ?thesis using True i(1) by simp
  next
    case False
    then have l7: "l = 7" using l by simp
    consider i where "i < 8" "a = DEVADDR 7 i" | "a = transmitter_status"
      using io_pending_register(2) [OF M l io] l7 by blast
    then show ?thesis
    proof cases
      case (1 i)
      then show ?thesis using r devices_finite [OF 1(1)] l7
        by (elim disjE) (simp_all add: resolveDeviceAddress_def device_regs sz)
    next
      case 2
      then show ?thesis using r l7
        by (simp add: resolveDeviceAddress_def transmitter_status_def device_regs sz)
    qed
  qed
qed

text \<open>What a step of \<open>interruptHandler\<close> keeps, with the current process \<open>c\<close>.\<close>

definition served :: "machine \<Rightarrow> pcb ptr \<Rightarrow> kernel \<Rightarrow> pcb list \<Rightarrow> ptree list \<Rightarrow> kernel \<Rightarrow> bool" where
  "served M c s fs ts s' \<longleftrightarrow>
     (\<exists>R A rq. minv M (s'\<lparr>g_current_process := c\<rparr>) R A rq fs ts \<and> irq_pending M A s') \<and>
     g_current_process s' = g_current_process s \<and> g_process_count s' = g_process_count s \<and> same_times s s'"

lemma io_pending_clear [simp]: "io_pending M l a d w A (clear_cause b s) = io_pending M l a d w A s"
proof -
  have "findDevRegAddr M l (clear_cause b s) = findDevRegAddr M l s"
    by (simp add: findDevRegAddr_def load_int_def clear_cause_def cong: if_cong)
  then show ?thesis by (simp add: io_pending_def io_waiting_def clear_cause_def)
qed

lemma irq_pending_clear:
  assumes "irq_pending M A s" "g_old_state s' = (g_old_state s)\<lparr>cause := cause (g_old_state s) AND NOT (2 ^ k)\<rparr>"
    and "\<And>l a d w. l \<in> {3, 4, 6, 7} \<Longrightarrow> l + 8 \<noteq> k \<Longrightarrow> bit (cause (g_old_state s)) (l + 8) \<Longrightarrow>
           io_pending M l a d w A s \<Longrightarrow> io_pending M l a d w A' s'"
  shows "irq_pending M A' s'"
  unfolding irq_pending_def
proof (intro ballI impI)
  fix l :: nat
  assume l: "l \<in> {3, 4, 6, 7}" "bit (cause (g_old_state s')) (l + 8)"
  then have b: "bit (cause (g_old_state s)) (l + 8)" "l + 8 \<noteq> k" unfolding assms(2) by (simp_all add: bit_clear)
  then obtain a d w where "io_pending M l a d w A s" using assms(1) l(1) unfolding irq_pending_def by blast
  then show "\<exists>a d w. io_pending M l a d w A' s'" using assms(3) [OF l(1) b(2,1)] by blast
qed

text \<open>The interval timer.\<close>

lemma device_sem_not_clock:
  assumes "machine_ok M" "d < DEVICE_NUMBER"
  shows "sem_mut_addr M d \<noteq> pseudo_clock_addr M" "sem_sync_addr M d \<noteq> pseudo_clock_addr M"
proof -
  have "in_sysiostates M (sem_mut_addr M d)" "in_sysiostates M (sem_sync_addr M d)"
    using field_addr(2) [OF assms, of 0] field_addr(2) [OF assms, of 4] by (simp_all add: sem_mut_addr_def sem_sync_addr_def)
  moreover have "\<not> in_sysiostates M (pseudo_clock_addr M)" using assms(1) by (simp add: machine_ok_def)
  ultimately show "sem_mut_addr M d \<noteq> pseudo_clock_addr M" "sem_sync_addr M d \<noteq> pseudo_clock_addr M" by metis+
qed

lemma serve_timer:
  assumes M: "machine_ok M" and k: "minv M (s\<lparr>g_current_process := c\<rparr>) R A rq fs ts" and io: "irq_pending M A s"
  shows "\<exists>s'. handleSysTimer M (clear_cause TIMERINTERRUPT s) = Some s' \<and> served M c s fs ts s' \<and>
     g_old_state s' = (g_old_state s)\<lparr>cause := cause (g_old_state s) AND NOT (2 ^ 10)\<rparr>"
proof -
  let ?s = "clear_cause TIMERINTERRUPT s"
  have m: "minv M (?s\<lparr>g_current_process := c\<rparr>) R A rq fs ts" by (rule minv_cong [OF k]) (simp_all add: clear_cause_def)
  note K = minvD [OF m]
  from handleSysTimer_kinv [OF K(1)] obtain s' R' where t: "handleSysTimer M ?s = Some s'"
    "kinv (s'\<lparr>g_current_process := c\<rparr>) R' (A(pseudo_clock_addr M := [])) (rq @ A (pseudo_clock_addr M)) fs ts"
    "g_current_process s' = g_current_process ?s" "g_process_count s' = g_process_count ?s"
    "g_old_state s' = g_old_state ?s" "g_sysiostates s' = g_sysiostates ?s" "mem s' = mem ?s"
    "\<forall>p. (pcbs s' p)\<lparr>p_semAdd := 0\<rparr> = (pcbs ?s p)\<lparr>p_semAdd := 0\<rparr>" "n_type s' = n_type ?s" "tod_clock s' = tod_clock ?s"
    by blast
  have old: "g_old_state s' = (g_old_state s)\<lparr>cause := cause (g_old_state s) AND NOT (2 ^ 10)\<rparr>"
    unfolding t(5) by (simp add: clear_cause_def line_masks)
  have cmd: "cmd_addr (pcbs s' p) = cmd_addr (pcbs s p)" "cmd_values (pcbs s' p) = cmd_values (pcbs s p)" for p
    using arg_cong [OF t(8) [rule_format, of p], of cmd_addr] arg_cong [OF t(8) [rule_format, of p], of cmd_values]
    by (simp_all add: clear_cause_def)
  have "irq_pending M (A(pseudo_clock_addr M := [])) s'"
  proof (rule irq_pending_clear [OF io old])
    fix l a d w assume l: "l \<in> {3, 4, 6, 7 :: nat}" and p: "io_pending M l a d w A s"
    then have l': "l \<in> {3..7}" by auto
    have d: "d < DEVICE_NUMBER" by (rule io_pending_register(1) [OF M l' p])
    have "pseudo_clock_addr M \<noteq> sem_sync_addr M d" "pseudo_clock_addr M \<noteq> sem_mut_addr M d"
      using device_sem_not_clock [OF M d] by auto
    then show "io_pending M l a d w (A(pseudo_clock_addr M := [])) s'"
      using findDevRegAddr_cong [OF M l', of s' s] t(6,7)
      by (intro io_pending_cong [OF p]) (simp_all add: cmd clear_cause_def)
  qed
  moreover have "devices_ok M (A(pseudo_clock_addr M := [])) (s'\<lparr>g_current_process := c\<rparr>)"
    by (rule devices_ok_queues [OF K(2)])
      (use t(6) cmd device_sem_not_clock [OF M] in \<open>simp_all add: clear_cause_def\<close>)
  then have "minv M (s'\<lparr>g_current_process := c\<rparr>) R' (A(pseudo_clock_addr M := [])) (rq @ A (pseudo_clock_addr M)) fs ts"
    using t(2,9) K(3) by (simp add: minv_def namespaces_ok_def)
  moreover have "same_times s s'"
    using t(10) arg_cong [OF t(8) [rule_format], of p_time] by (simp add: same_times_def clear_cause_def)
  ultimately show ?thesis using t(1,3,4) old unfolding served_def by (auto simp: clear_cause_def)
qed

text \<open>A device: the lines that follow it are as ready as before.\<close>

lemma register_elsewhere:
  assumes "l \<in> {3, 4, 6 :: nat}" "i < 8" "l' \<in> {3..7}"
  shows "DEVADDR l i + 4 \<noteq> line_bitmap l'" "DEVADDR l i + 4 \<noteq> transmitter_status"
    "line_bitmap l' < RAMSTART" "transmitter_status < RAMSTART"
proof -
  show "DEVADDR l i + 4 \<noteq> line_bitmap l'"
    using devices_finite [OF assms(2)] lines_finite [OF assms(3)] assms(1)
    by (elim disjE insertE emptyE) (simp_all add: device_regs line_bitmap_def)
  show "DEVADDR l i + 4 \<noteq> transmitter_status"
    using devices_finite [OF assms(2)] assms(1)
    by (elim disjE insertE emptyE) (simp_all add: device_regs transmitter_status_def)
  show "line_bitmap l' < RAMSTART" using lines_finite [OF assms(3)]
    by (elim disjE) (simp_all add: line_bitmap_def INTDEV_BITMAP_def RAMSTART_def)
  show "transmitter_status < RAMSTART" by (simp add: transmitter_status_def RAMSTART_def)
qed

text \<open>The device whose operation is complete is free again.\<close>

lemma devices_ok_completed:
  assumes M: "machine_ok M" and d: "d < DEVICE_NUMBER" and ok: "devices_ok M A s"
    and w: "waiting_process (g_sysiostates s d) = Ref w" "A (sem_mut_addr M d) = []"
    and s': "g_sysiostates s' = (g_sysiostates s)(d := \<lparr>sem_mut = sem_mut (g_sysiostates s d) + 1, sem_sync = 0,
        waiting_process = NULL\<rparr>)"
      "\<And>p. cmd_addr (pcbs s' p) = cmd_addr (pcbs s p)" "\<And>p. cmd_values (pcbs s' p) = cmd_values (pcbs s p)"
  shows "devices_ok M (A(sem_sync_addr M d := [])) s'"
  unfolding devices_ok_def
proof (intro allI impI)
  fix e assume e: "e < DEVICE_NUMBER"
  let ?A = "A(sem_sync_addr M d := [])"
  note ne = sem_addr_distinct [OF M e d] sem_addr_distinct(1) [OF M d e]
  show "device_ok M e ?A s'"
  proof (cases "e = d")
    case True
    have "sem_mut (g_sysiostates s d) = 0"
      using ok d by (cases rule: devices_okE) (use w(1) in \<open>auto simp: device_idle_def device_busy_def device_orphan_def free_device_def\<close>)
    then have "device_idle M d ?A s'" using w(2) ne by (simp add: device_idle_def s'(1) free_device_def True)
    then show ?thesis using True by (simp add: device_ok_def)
  next
    case False
    have "device_ok M e A s" using ok e by (simp add: devices_ok_def)
    then show ?thesis by (rule device_ok_queues) (use ne False in \<open>auto simp: s'\<close>)
  qed
qed

lemma serve_device:
  assumes M: "machine_ok M" and k: "minv M (s\<lparr>g_current_process := c\<rparr>) R A rq fs ts" and io: "irq_pending M A s"
    and l: "l \<in> {3, 4, 6, 7}" "bit (cause (g_old_state s)) (l + 8)" "b = 2 ^ (l + 8)"
    and first: "\<And>l'. l' \<in> {3, 4, 6, 7} \<Longrightarrow> bit (cause (g_old_state s)) (l' + 8) \<Longrightarrow> l \<le> l'"
  shows "\<exists>s'. handleDeviceInt M l (clear_cause b s) = Some (Returns () s') \<and> served M c s fs ts s' \<and>
     g_old_state s' = (g_old_state s)\<lparr>cause := cause (g_old_state s) AND NOT (2 ^ (l + 8))\<rparr>"
proof -
  let ?s = "clear_cause b s"
  have l': "l \<in> {3..7}" using l(1) by auto
  have m: "minv M (?s\<lparr>g_current_process := c\<rparr>) R A rq fs ts" by (rule minv_cong [OF k]) (simp_all add: clear_cause_def)
  note K = minvD [OF m]
  obtain a d w where p: "io_pending M l a d w A s" using io l(1,2) unfolding irq_pending_def by blast
  then have p': "io_pending M l a d w A ?s" by simp
  from handleDeviceInt_done [OF M p' K(1)] obtain s' R' where h: "handleDeviceInt M l ?s = Some (Returns () s')"
    "kinv (s'\<lparr>g_current_process := c\<rparr>) R' (A(sem_sync_addr M d := [])) (rq @ [w]) fs ts"
    "g_current_process s' = g_current_process ?s" "g_process_count s' = g_process_count ?s"
    "g_old_state s' = g_old_state ?s"
    "g_sysiostates s' = (g_sysiostates ?s)(d := \<lparr>sem_mut = sem_mut (g_sysiostates ?s d) + 1, sem_sync = 0,
        waiting_process = NULL\<rparr>)"
    "\<forall>b < RAMSTART. b \<noteq> a + 4 \<longrightarrow> mem s' b = mem ?s b"
    "\<forall>p. cmd_addr (pcbs s' p) = cmd_addr (pcbs ?s p) \<and> cmd_values (pcbs s' p) = cmd_values (pcbs ?s p)"
    "n_type s' = n_type ?s" "same_times ?s s'" by blast
  have old: "g_old_state s' = (g_old_state s)\<lparr>cause := cause (g_old_state s) AND NOT (2 ^ (l + 8))\<rparr>"
    unfolding h(5) by (simp add: clear_cause_def l(3))
  have d: "d < DEVICE_NUMBER" by (rule io_pending_register(1) [OF M l' p])
  have "irq_pending M (A(sem_sync_addr M d := [])) s'"
  proof (rule irq_pending_clear [OF io old])
    fix l2 a2 d2 w2
    assume l2: "l2 \<in> {3, 4, 6, 7 :: nat}" "l2 + 8 \<noteq> l + 8" "bit (cause (g_old_state s)) (l2 + 8)"
      and q: "io_pending M l2 a2 d2 w2 A s"
    have lt: "l < l2" "l2 \<in> {3..7}" using first [OF l2(1,3)] l2(1,2) by auto
    then have l6: "l \<in> {3, 4, 6}" using l(1) l2(1) by auto
    then obtain i where i: "i < 8" "a = DEVADDR l i" using io_pending_register(2) [OF M l' p] by auto
    have "d div 8 = l - 3" "l < 7" using device_number_line [OF M l' p] l6 by (auto split: if_splits)
    then have dd: "d2 \<noteq> d"
      using device_number_line [OF M lt(2) q] lt l6 l2(1) by (auto split: if_splits)
    have d2: "d2 < DEVICE_NUMBER" by (rule io_pending_register(1) [OF M lt(2) q])
    note e = register_elsewhere [OF l6 i(1) lt(2)]
    have "mem s' (line_bitmap l2) = mem s (line_bitmap l2)" "mem s' transmitter_status = mem s transmitter_status"
      using h(7) e unfolding i(2) by (auto simp: clear_cause_def)
    then have "findDevRegAddr M l2 s' = findDevRegAddr M l2 s" by (intro findDevRegAddr_cong [OF M lt(2)])
    then show "io_pending M l2 a2 d2 w2 (A(sem_sync_addr M d := [])) s'"
      using h(6,8) dd sem_addr_distinct [OF M d2 d] sem_addr_distinct(1) [OF M d2 d] sem_addr_distinct(1) [OF M d d2]
      by (intro io_pending_cong [OF q]) (simp_all add: clear_cause_def)
  qed
  moreover have "devices_ok M (A(sem_sync_addr M d := [])) (s'\<lparr>g_current_process := c\<rparr>)"
    by (rule devices_ok_completed [OF M d K(2)])
      (use h(6,8) p in \<open>simp_all add: io_pending_def io_waiting_def clear_cause_def\<close>)
  then have "minv M (s'\<lparr>g_current_process := c\<rparr>) R' (A(sem_sync_addr M d := [])) (rq @ [w]) fs ts"
    using h(2,9) K(3) by (simp add: minv_def namespaces_ok_def)
  moreover have "same_times s s'" using h(10) by (simp add: same_times_def clear_cause_def)
  ultimately show ?thesis using h(1,3,4) old unfolding served_def by (auto simp: clear_cause_def)
qed

lemma serve_first_ready:
  assumes M: "machine_ok M" and k: "minv M (s\<lparr>g_current_process := c\<rparr>) R A rq fs ts" and io: "irq_pending M A s"
    and local: "\<not> bit (cause (g_old_state s)) 9" and p: "pending (cause (g_old_state s)) \<noteq> {}"
  shows "\<exists>s' b. serve_first M s = Some (Returns () s') \<and> served M c s fs ts s' \<and>
     b \<in> pending (cause (g_old_state s)) \<and>
     g_old_state s' = (g_old_state s)\<lparr>cause := cause (g_old_state s) AND NOT (2 ^ b)\<rparr>"
proof -
  let ?c = "cause (g_old_state s)"
  have bits: "b \<in> pending ?c \<longleftrightarrow> b \<in> irq_bits \<and> bit ?c b" for b by (simp add: pending_def)
  have dev: "\<exists>s' b. handleDeviceInt M l (clear_cause (2 ^ (l + 8)) s) = Some (Returns () s') \<and> served M c s fs ts s' \<and>
      b \<in> pending ?c \<and> g_old_state s' = (g_old_state s)\<lparr>cause := ?c AND NOT (2 ^ b)\<rparr>"
    if l: "l \<in> {3, 4, 6, 7}" "bit ?c (l + 8)"
      and f: "\<forall>l' \<in> {3, 4, 6, 7}. bit ?c (l' + 8) \<longrightarrow> l \<le> l'" for l
  proof -
    have "l + 8 \<in> pending ?c" using l by (auto simp: bits irq_bits_def)
    then show ?thesis using serve_device [OF M k io l refl] f by blast
  qed
  from p local have "bit ?c 10 \<or> bit ?c 11 \<or> bit ?c 12 \<or> bit ?c 14 \<or> bit ?c 15"
    by (auto simp: pending_def irq_bits_def)
  then consider "bit ?c 10" | "\<not> bit ?c 10" "bit ?c 11" | "\<not> bit ?c 10" "\<not> bit ?c 11" "bit ?c 12"
    | "\<not> bit ?c 10" "\<not> bit ?c 11" "\<not> bit ?c 12" "bit ?c 14"
    | "\<not> bit ?c 10" "\<not> bit ?c 11" "\<not> bit ?c 12" "\<not> bit ?c 14" "bit ?c 15" by blast
  then show ?thesis
  proof cases
    case 1
    obtain s' where t: "handleSysTimer M (clear_cause TIMERINTERRUPT s) = Some s'" "served M c s fs ts s'"
      "g_old_state s' = (g_old_state s)\<lparr>cause := ?c AND NOT (2 ^ 10)\<rparr>" using serve_timer [OF M k io] by blast
    then have "serve_first M s = Some (Returns () s')" using local 1 by (simp add: serve_first_def Let_def)
    moreover have "10 \<in> pending ?c" using 1 by (simp add: bits irq_bits_def)
    ultimately show ?thesis using t(2,3) by blast
  next
    case 2
    then show ?thesis using dev [of 3] local by (fastforce simp: serve_first_def Let_def line_masks DISK_INTLINE_def)
  next
    case 3
    then show ?thesis using dev [of 4] local by (fastforce simp: serve_first_def Let_def line_masks FLASH_INTLINE_def)
  next
    case 4
    then show ?thesis using dev [of 6] local by (fastforce simp: serve_first_def Let_def line_masks PRINTER_INTLINE_def)
  next
    case 5
    then show ?thesis using dev [of 7] local by (fastforce simp: serve_first_def Let_def line_masks TERM_INTLINE_def)
  qed
qed

section \<open>All the lines\<close>

lemma serve_first_none: "pending (cause (g_old_state s)) = {} \<Longrightarrow> serve_first M s = Some (Returns () s)"
proof -
  assume "pending (cause (g_old_state s)) = {}"
  then have "\<not> bit (cause (g_old_state s)) b" if "b \<in> irq_bits" for b using that by (auto simp: pending_def)
  then show ?thesis by (simp add: serve_first_def irq_bits_def)
qed

text \<open>The end of \<open>interruptHandler\<close>: the clock is read and the saved state is loaded.\<close>

definition interrupted :: "kernel \<Rightarrow> kernel" where
  "interrupted s = s\<lparr>g_tod := tod_clock s (tod_reads s), tod_reads := Suc (tod_reads s)\<rparr>"

lemma interruptHandler_end:
  assumes "serve_first M s = Some (Returns () s1)" "pending (cause (g_old_state s1)) = {}"
  shows "interruptHandler M (Suc n) s = Some (Exits (LDST (g_old_state s1)) (interrupted s1))"
  unfolding interruptHandler_step using assms by (simp add: STCK_def Let_def interrupted_def)

lemma interruptHandler_more:
  assumes "serve_first M s = Some (Returns () s1)" "pending (cause (g_old_state s1)) \<noteq> {}"
    and "interruptHandler M n s1 = Some (Exits e s2)"
  shows "interruptHandler M (Suc n) s = Some (Exits e s2)"
  unfolding interruptHandler_step using assms by simp

definition all_served :: "machine \<Rightarrow> pcb ptr \<Rightarrow> kernel \<Rightarrow> pcb list \<Rightarrow> ptree list \<Rightarrow> kernel \<Rightarrow> bool" where
  "all_served M c s fs ts s' \<longleftrightarrow> (\<exists>R A rq. minv M (s'\<lparr>g_current_process := c\<rparr>) R A rq fs ts) \<and>
     g_current_process s' = g_current_process s \<and> g_process_count s' = g_process_count s \<and>
     same_times s s' \<and> g_tod s' = tod_clock s' (tod_reads s' - 1) \<and>
     pending (cause (g_old_state s')) = {} \<and> (g_old_state s')\<lparr>cause := 0\<rparr> = (g_old_state s)\<lparr>cause := 0\<rparr>"

lemma all_served_interrupted:
  assumes "served M c s fs ts s1" "pending (cause (g_old_state s1)) = {}"
    and "(g_old_state s1)\<lparr>cause := 0\<rparr> = (g_old_state s)\<lparr>cause := 0\<rparr>"
  shows "all_served M c s fs ts (interrupted s1)"
proof -
  from assms(1) obtain R A rq where "minv M (s1\<lparr>g_current_process := c\<rparr>) R A rq fs ts" by (auto simp: served_def)
  then have "minv M ((interrupted s1)\<lparr>g_current_process := c\<rparr>) R A rq fs ts"
    by (rule minv_cong) (simp_all add: interrupted_def)
  moreover have "same_times s (interrupted s1)" using assms(1) by (simp add: served_def same_times_def interrupted_def)
  ultimately show ?thesis using assms unfolding all_served_def served_def by (auto simp: interrupted_def)
qed

lemma lines_served:
  assumes M: "machine_ok M"
  shows "minv M (s\<lparr>g_current_process := c\<rparr>) R A rq fs ts \<Longrightarrow> irq_pending M A s \<Longrightarrow>
    \<not> bit (cause (g_old_state s)) 9 \<Longrightarrow> card (pending (cause (g_old_state s))) \<le> n \<Longrightarrow>
    \<exists>s'. interruptHandler M (Suc n) s = Some (Exits (LDST (g_old_state s')) s') \<and> all_served M c s fs ts s'"
proof (induction n arbitrary: s R A rq)
  case (0 s)
  then have p: "pending (cause (g_old_state s)) = {}" by simp
  have "served M c s fs ts s" using 0 same_times_refl unfolding served_def by blast
  then show ?case using interruptHandler_end [OF serve_first_none [OF p] p, where n = 0] all_served_interrupted [OF _ p, of M c s fs ts]
    by (intro exI [of _ "interrupted s"]) (simp add: interrupted_def)
next
  case (Suc n s)
  show ?case
  proof (cases "pending (cause (g_old_state s)) = {}")
    case True
    have "served M c s fs ts s" using Suc.prems same_times_refl unfolding served_def by blast
    then show ?thesis using interruptHandler_end [OF serve_first_none [OF True] True, where n = "Suc n"]
      all_served_interrupted [OF _ True, of M c s fs ts] by (intro exI [of _ "interrupted s"]) (simp add: interrupted_def)
  next
    case False
    from serve_first_ready [OF M Suc.prems(1-3) False] obtain s1 b where
      s1: "serve_first M s = Some (Returns () s1)" "served M c s fs ts s1" "b \<in> pending (cause (g_old_state s))"
      "g_old_state s1 = (g_old_state s)\<lparr>cause := cause (g_old_state s) AND NOT (2 ^ b)\<rparr>" by blast
    have p: "pending (cause (g_old_state s1)) = pending (cause (g_old_state s)) - {b}"
      unfolding s1(4) by (simp add: pending_clear)
    have old: "(g_old_state s1)\<lparr>cause := 0\<rparr> = (g_old_state s)\<lparr>cause := 0\<rparr>" unfolding s1(4) by simp
    show ?thesis
    proof (cases "pending (cause (g_old_state s1)) = {}")
      case True
      then show ?thesis using interruptHandler_end [OF s1(1) True] all_served_interrupted [OF s1(2) True old]
        by (intro exI [of _ "interrupted s1"]) (simp add: interrupted_def)
    next
      case more: False
      from s1(2) obtain R1 A1 rq1 where k1: "minv M (s1\<lparr>g_current_process := c\<rparr>) R1 A1 rq1 fs ts" "irq_pending M A1 s1"
        by (auto simp: served_def)
      have "\<not> bit (cause (g_old_state s1)) 9" using Suc.prems(3) unfolding s1(4) by (simp add: bit_clear)
      moreover have "card (pending (cause (g_old_state s1))) \<le> n"
        using Suc.prems(4) s1(3) card_Diff_singleton [OF s1(3)] unfolding p by simp
      ultimately obtain s2 where s2: "interruptHandler M (Suc n) s1 = Some (Exits (LDST (g_old_state s2)) s2)"
        "all_served M c s1 fs ts s2" using Suc.IH [OF k1] by blast
      have "all_served M c s fs ts s2"
        using s2(2) s1(2) old same_times_trans [of s s1 s2] by (simp add: all_served_def served_def)
      then show ?thesis using interruptHandler_more [OF s1(1) more s2(1)] by blast
    qed
  qed
qed

text \<open>The six lines: a fuel of \<open>INTERRUPT_LINES\<close> is enough.\<close>

lemma interruptHandler_all:
  assumes M: "machine_ok M" and k: "minv M (s\<lparr>g_current_process := c\<rparr>) R A rq fs ts" and io: "irq_pending M A s"
    and local: "\<not> bit (cause (g_old_state s)) 9"
  shows "\<exists>s'. interruptHandler M INTERRUPT_LINES s = Some (Exits (LDST (g_old_state s')) s') \<and> all_served M c s fs ts s'"
proof -
  have "pending (cause (g_old_state s)) \<subseteq> {10, 11, 12, 14, 15}" using local by (auto simp: pending_def irq_bits_def)
  then have "card (pending (cause (g_old_state s))) \<le> card {10, 11, 12, 14, 15 :: nat}" by (intro card_mono) simp_all
  then show ?thesis using lines_served [OF M k io local, of 5] by (simp add: INTERRUPT_LINES_def)
qed

lemma interruptHandler_local:
  assumes r: "running M s" and local: "bit (cause (g_old_state s)) 9"
  shows "safe M (interruptHandler M INTERRUPT_LINES s)"
proof -
  have "running M (clear_cause LOCALTIMERINT s)" by (rule running_cong [OF r]) (simp_all add: clear_cause_def)
  then obtain e s' where
    e: "handleLocalTimer M (clear_cause LOCALTIMERINT s) = Some (Exits e s')" "settled M e s'"
    by (rule handleLocalTimer_exits)
  have six: "INTERRUPT_LINES = Suc 5" by (simp add: INTERRUPT_LINES_def)
  have "serve_first M s = Some (Exits e s')" using e(1) local by (simp add: serve_first_def)
  then show ?thesis unfolding six interruptHandler_step using e(2) by simp
qed

section \<open>The devices that may interrupt\<close>

text \<open>
  The first pending device of a line was started, its process was not terminated, and no process
  waits for its mutex.  This is read off the state: a device interrupts only after a command, and
  which processes wait is in their descriptors.
\<close>

definition raised :: "machine \<Rightarrow> nat \<Rightarrow> kernel \<Rightarrow> bool" where
  "raised M l s \<longleftrightarrow> (case findDevRegAddr M l s of
      None \<Rightarrow> False
    | Some a \<Rightarrow> resolveDeviceAddress M a \<noteq> - 1 \<and>
        waiting_process (g_sysiostates s (nat (resolveDeviceAddress M a))) \<noteq> NULL \<and>
        sem_sync (g_sysiostates s (nat (resolveDeviceAddress M a))) \<noteq> - 1 \<and>
        (\<forall>p < MAX_PROC. p_semAdd (pcbs s p) \<noteq> sem_mut_addr M (nat (resolveDeviceAddress M a))))"

definition irq_ready :: "machine \<Rightarrow> kernel \<Rightarrow> bool" where
  "irq_ready M s \<longleftrightarrow> (\<forall>l \<in> {3, 4, 6, 7}. bit (cause (g_old_state s)) (l + 8) \<longrightarrow> raised M l s)"

lemma findDevRegAddr_aligned:
  assumes M: "machine_ok M" and l: "l \<in> {3..7}" and a: "findDevRegAddr M l s = Some a" "a \<noteq> 0"
  shows "unat a mod 4 = 0"
proof -
  have "unat (DEVADDR l i) mod 4 = 0" if "i < 8" for i
    using devices_finite [OF that] lines_finite [OF l] by (elim disjE) (simp_all add: device_regs)
  moreover have "unat transmitter_status mod 4 = 0" by (simp add: transmitter_status_def)
  ultimately show ?thesis using a pending_device_Some
    unfolding findDevRegAddr_line [OF M l] by (auto split: option.splits if_splits)
qed

lemma raised_pending:
  assumes M: "machine_ok M" and k: "minv M (s\<lparr>g_current_process := c\<rparr>) R A rq fs ts"
    and l: "l \<in> {3..7}" and r: "raised M l s"
  shows "\<exists>a d w. io_pending M l a d w A s"
proof -
  note K = minvD [OF k] and Q = queuesD [OF kinvD(1) [OF minvD(1) [OF k]]]
  obtain a where a: "findDevRegAddr M l s = Some a" "resolveDeviceAddress M a \<noteq> - 1"
    "waiting_process (g_sysiostates s (nat (resolveDeviceAddress M a))) \<noteq> NULL"
    "sem_sync (g_sysiostates s (nat (resolveDeviceAddress M a))) \<noteq> - 1"
    "\<And>p. p < MAX_PROC \<Longrightarrow> p_semAdd (pcbs s p) \<noteq> sem_mut_addr M (nat (resolveDeviceAddress M a))"
    using r by (auto simp: raised_def split: option.splits)
  from resolveDeviceAddress_bound(1) [OF M a(2)] obtain d where
    d: "d < DEVICE_NUMBER" "resolveDeviceAddress M a = int d" by blast
  have "unat a mod 4 = 0" using findDevRegAddr_aligned [OF M l a(1)] device_address_nonzero [OF M a(2)] by blast
  moreover obtain w where "device_busy M d w A s"
    using K(2) d(1)
    by (cases rule: devices_okE)
      (use a(3,4) d(2) in \<open>auto simp: device_idle_def device_busy_def device_orphan_def free_device_def\<close>)
  moreover have "A (sem_mut_addr M d) = []"
  proof (rule ccontr)
    assume "A (sem_mut_addr M d) \<noteq> []"
    then obtain p where p: "p \<in> set (A (sem_mut_addr M d))" by (cases "A (sem_mut_addr M d)") auto
    have "p < MAX_PROC" using Q(3) p by blast
    moreover have "p_semAdd (pcbs s p) = sem_mut_addr M d" using ash_semAdd [OF Q(1) p] by simp
    ultimately show False using a(5) d(2) by simp
  qed
  ultimately have "io_pending M l a d w A s"
    using a(1) d(2) by (simp add: io_pending_def io_waiting_def device_busy_def)
  then show ?thesis by blast
qed

lemma irq_ready_pending:
  assumes "machine_ok M" "minv M (s\<lparr>g_current_process := c\<rparr>) R A rq fs ts" "irq_ready M s"
  shows "irq_pending M A s"
  using raised_pending [OF assms(1,2)] assms(3) unfolding irq_pending_def irq_ready_def by fastforce

end
