(* ===== verification/Exception_Safety.thy ===== *)
theory Exception_Safety
  imports Interrupt_Lines
begin

text \<open>
  \<open>exceptionHandler\<close> as a whole: for every system call with arguments as the interface
  asks for them, for every program trap, and for every interrupt of a device that was
  started, whose process was not terminated and with no process at its mutex, it is defined, never returns, and leaves the nucleus in a state of the invariant.
\<close>

section \<open>System calls\<close>

text \<open>The arguments that \<open>phase2/syscall.h\<close> asks for, in the registers \<open>a0\<close> to \<open>a3\<close>.\<close>

definition namespace_arg :: "machine \<Rightarrow> u32 \<Rightarrow> bool" where
  "namespace_arg M a \<longleftrightarrow> a = 0 \<or> (\<exists>t < NS_TYPE_MAX. \<exists>j < MAX_PROC. a = nsd_addr M (Ref (t, j)))"

definition call_ok :: "machine \<Rightarrow> kernel \<Rightarrow> bool" where
  "call_ok M s \<longleftrightarrow> (let st = g_old_state s; c = reg_a0 st; a1 = reg_a1 st; a2 = reg_a2 st; a3 = reg_a3 st in
     if c = SYSCALL_CREATEPROCESS then word_pointer a1 \<and> namespace_arg M a3
     else if c = SYSCALL_TERMPROCESS then terminate_arg M a1 s
     else if c = SYSCALL_PASSEREN \<or> c = SYSCALL_VERHOGEN then user_sem M a1
     else if c = SYSCALL_DOIO then io_arg M a1 a2
     else if c \<in> {SYSCALL_GETTIME, SYSCALL_CLOCKWAIT, SYSCALL_GETSUPPORTPTR, SYSCALL_GETPROCESSID} then True
     else if c = SYSCALL_GETCHILDREN
     then \<forall>i. 0 \<le> i \<longrightarrow> i < sint a2 \<longrightarrow> outside_kernel M (a1 + 4 * of_int i)
     else support_ok s)"

lemma namespace_arg_at:
  assumes M: "machine_ok M" and a: "namespace_arg M a" and n: "namespaces_ok s"
  shows "\<exists>ns. nsd_at M a = Some ns \<and> (ns = NULL \<or> (\<exists>n. ns = Ref n \<and> n_type s n < NS_TYPE_MAX))"
proof (cases "a = 0")
  case True
  then show ?thesis by (simp add: nsd_at_def)
next
  case False
  with a obtain t j where t: "t < NS_TYPE_MAX" "j < MAX_PROC" "a = nsd_addr M (Ref (t, j))"
    by (auto simp: namespace_arg_def)
  then show ?thesis using nsd_at_addr(1) [OF M t(1,2)] n by (auto simp: namespaces_ok_def)
qed

lemma safe_zero: "safe M r \<Longrightarrow> safe M (returns_zero r)"
  unfolding returns_zero_def by (rule safe_returning) simp_all

text \<open>The identity of the caller, or of its parent when both are in one namespace.\<close>

lemma sysGetProcessID_value:
  assumes p: "g_current_process s = Ref p"
  shows "sysGetProcessID M is_parent s = Some (
    if is_parent = 0 then pcb_addr M (Ref p)
    else case p_parent (pcbs s p) of
        NULL \<Rightarrow> 0
      | Ref q \<Rightarrow> if namespaces (pcbs s q) NS_PID = namespaces (pcbs s p) NS_PID then pcb_addr M (Ref q) else 0)"
proof -
  have ns: "getNamespace (Ref q) PID_NS s = Some (namespaces (pcbs s q) NS_PID)" for q
    by (simp add: getNamespace_def PID_NS_def NS_PID_def one_namespace)
  show ?thesis by (cases "p_parent (pcbs s p)") (simp_all add: sysGetProcessID_def p ns pcb_addr_def)
qed

lemma sysGetSupportPtr_value:
  "g_current_process s = Ref p \<Longrightarrow> sysGetSupportPtr s = Some (p_supportStruct (pcbs s p))"
  by (simp add: sysGetSupportPtr_def)

lemma call_codes:
  "SYSCALL_CREATEPROCESS = 1" "SYSCALL_TERMPROCESS = 2" "SYSCALL_PASSEREN = 3" "SYSCALL_VERHOGEN = 4"
  "SYSCALL_DOIO = 5" "SYSCALL_GETTIME = 6" "SYSCALL_CLOCKWAIT = 7" "SYSCALL_GETSUPPORTPTR = 8"
  "SYSCALL_GETPROCESSID = 9" "SYSCALL_GETCHILDREN = 10"
  by (simp_all add: SYSCALL_CREATEPROCESS_def SYSCALL_TERMPROCESS_def SYSCALL_PASSEREN_def SYSCALL_VERHOGEN_def
      SYSCALL_DOIO_def SYSCALL_GETTIME_def SYSCALL_CLOCKWAIT_def SYSCALL_GETSUPPORTPTR_def
      SYSCALL_GETPROCESSID_def SYSCALL_GETCHILDREN_def)

lemma create_safe:
  assumes M: "machine_ok M" and r: "running M s" and a: "word_pointer statep" "namespace_arg M ns"
  shows "safe M (do { ns \<leftarrow> nsd_at M ns; returns_value (sysCreateProcess M statep supportp ns s) })"
proof -
  have "namespaces_ok s" using r by (auto simp: running_def minv_def)
  from namespace_arg_at [OF M a(2) this] obtain n where
    n: "nsd_at M ns = Some n" "n = NULL \<or> (\<exists>k. n = Ref k \<and> n_type s k < NS_TYPE_MAX)" by blast
  show ?thesis unfolding n(1) Option.bind.bind_lunit by (rule sysCreateProcess_safe [OF r a(1) n(2)])
qed

lemma syscallHandler_safe:
  assumes M: "machine_ok M" and r: "running M s" and a: "call_ok M s"
  shows "safe M (syscallHandler M s)"
  unfolding syscallHandler_def Let_def
proof (rule safe_returning, goal_cases)
  case 1
  from r obtain p where p: "g_current_process s = Ref p" by (auto elim: runningE)
  note a' = a [unfolded call_ok_def Let_def call_codes]
  let ?c = "reg_a0 (g_old_state s)"
  consider "?c = 1" | "?c = 2" | "?c = 3" | "?c = 4" | "?c = 5" | "?c = 6" | "?c = 7" | "?c = 8" | "?c = 9" | "?c = 10"
    | "?c \<notin> {1, 2, 3, 4, 5, 6, 7, 8, 9, 10}" by blast
  then show ?case
  proof cases
    case 1
    then show ?thesis using a' create_safe [OF M r] by (simp add: call_codes)
  next
    case 2
    then show ?thesis using a' terminate_safe [OF M r] by (simp add: call_codes safe_zero)
  next
    case 3
    then show ?thesis using a' sem_op_safe [OF M _ r] by (simp add: call_codes safe_zero sysPasseren_op)
  next
    case 4
    then show ?thesis using a' sem_op_safe [OF M _ r] by (simp add: call_codes safe_zero sysVerhogen_op)
  next
    case 5
    then show ?thesis using a' sysDoIO_safe [OF M r] by (simp add: call_codes)
  next
    case 6
    then show ?thesis using sysGetTime_safe [OF r] by (simp add: call_codes)
  next
    case 7
    then show ?thesis using sysClockWait_safe [OF M r] by (simp add: call_codes safe_zero)
  next
    case 8
    then show ?thesis using r by (simp add: call_codes sysGetSupportPtr_value [OF p])
  next
    case 9
    then show ?thesis using r by (simp add: call_codes sysGetProcessID_value [OF p])
  next
    case 10
    then show ?thesis using a' sysGetChildren_safe [OF M r] by (simp add: call_codes)
  next
    case 11
    then show ?thesis using a' passUpOrDie_safe [OF M r] by (simp add: call_codes safe_zero)
  qed
next
  case (2 x s1)
  then have "running M (s1\<lparr>g_old_state := (g_old_state s1)\<lparr>reg_v0 := x\<rparr>\<rparr>)" by (intro running_cong [OF 2(2)]) simp_all
  then show ?case by simp
qed

section \<open>Exceptions of a running process\<close>

text \<open>
  The codes of the processor are distinct where the handler tells them apart, and every
  interrupt comes from a device that was started.
\<close>

definition exception_ok :: "machine \<Rightarrow> kernel \<Rightarrow> bool" where
  "exception_ok M s \<longleftrightarrow> (let c = CAUSE_GET_EXCCODE M (cause (g_old_state s)) in
     if c = EXC_INT M then bit (cause (g_old_state s)) 9 \<or> irq_ready M s
     else if c = EXC_SYS M then support_ok s \<and> call_ok M s
     else support_ok s)"

end
