(* ===== verification/Boot.thy ===== *)
theory Boot
  imports Device_State
begin

text \<open>
  The start of the kernel: \<open>main\<close> turns the static storage into a state of the invariant,
  with one process, and dispatches it.
\<close>

section \<open>The static storage\<close>

definition static_storage :: "kernel \<Rightarrow> bool" where
  "static_storage s \<longleftrightarrow> lh s = static_lheap \<and> hh s = static_hheap \<and> pcbs s = (\<lambda>_. zero_pcb)"

definition start_rings' :: "lnode rmap" where
  "start_rings' = static_rings(Ready_queue \<mapsto> [])"

lemma initSysIOStates:
  "\<exists>g. for_upto DEVICE_NUMBER initSysIOState s = Some (s\<lparr>g_sysiostates := g\<rparr>) \<and>
     (\<forall>d < DEVICE_NUMBER. g d = free_device)"
proof -
  let ?P = "\<lambda>i t. i \<le> DEVICE_NUMBER \<longrightarrow> (\<exists>g. t = s\<lparr>g_sysiostates := g\<rparr> \<and> (\<forall>d < i. g d = free_device))"
  have "\<exists>t. for_upto DEVICE_NUMBER initSysIOState s = Some t \<and> ?P DEVICE_NUMBER t"
  proof (rule for_upto_invariant [where P = ?P])
    show "?P 0 s" by (intro impI exI [of _ "g_sysiostates s"]) simp
    fix i t assume i: "i < DEVICE_NUMBER" "?P i t"
    then obtain g where g: "t = s\<lparr>g_sysiostates := g\<rparr>" "\<forall>d < i. g d = free_device" by auto
    have "initSysIOState i t = Some (s\<lparr>g_sysiostates := g(i := free_device)\<rparr>)"
      using i(1) by (simp add: initSysIOState_def g(1) free_device_def, cases "g i", simp)
    then show "\<exists>t'. initSysIOState i t = Some t' \<and> ?P (Suc i) t'"
      using g(2) by (auto simp: less_Suc_eq)
  qed
  then show ?thesis by auto
qed

definition handlers :: "machine \<Rightarrow> passupvector_t" where
  "handlers M = \<lparr>tlb_refill_handler = uTLB_RefillHandler_addr M, tlb_refill_stackPtr = KERNELSTACK,
     exception_handler = exceptionHandler_addr M, exception_stackPtr = KERNELSTACK\<rparr>"

lemma initGlobalVariable_start:
  assumes "static_storage s"
  shows "\<exists>h g. initGlobalVariable M s = Some (s\<lparr>g_process_count := 0, g_soft_block_count := 0, lh := h,
       g_current_process := NULL, g_sysiostates := g, g_pseudo_clock := 1, g_tod := 0, passupvector := handlers M\<rparr>) \<and>
     rings h start_rings' \<and> (\<forall>d < DEVICE_NUMBER. g d = free_device)"
proof -
  have R: "rings (lh s) static_rings" using assms rings_static by (simp add: static_storage_def)
  have "Ready_queue \<notin> nodes static_rings" by (auto simp: static_rings_def not_in_nodes)
  then obtain h where h: "INIT_LIST_HEAD (Ref Ready_queue) (lh s) = Some h" "rings h start_rings'"
    using INIT_LIST_HEAD_rings [OF R] unfolding start_rings'_def by auto
  let ?s = "s\<lparr>g_process_count := 0, g_soft_block_count := 0, lh := h, g_current_process := NULL\<rparr>"
  obtain g where g: "for_upto DEVICE_NUMBER initSysIOState ?s = Some (?s\<lparr>g_sysiostates := g\<rparr>)"
      "\<forall>d < DEVICE_NUMBER. g d = free_device" using initSysIOStates by blast
  have "initGlobalVariable M s = do {
      s \<leftarrow> for_upto DEVICE_NUMBER initSysIOState ?s;
      Some (s\<lparr>g_pseudo_clock := 1, g_tod := 0, passupvector := handlers M\<rparr>)
    }"
    using h(1) by (simp add: initGlobalVariable_def mkEmptyProcQ_def on_lh_def handlers_def)
  then show ?thesis using h(2) g by auto
qed

section \<open>The first process\<close>

definition init_state :: "machine \<Rightarrow> kernel \<Rightarrow> state_t" where
  "init_state M s = zero_state\<lparr>status := STATUS_IEp M OR STATUS_TE M OR STATUS_IM_MASK M,
     pc_epc := test_addr M, reg_t9 := test_addr M, reg_sp := mem s RAMBASEADDR + mem s RAMBASESIZE\<rparr>"

lemma RAMTOP_mem:
  assumes "machine_ok M"
  shows "RAMTOP M s = Some (mem s RAMBASEADDR + mem s RAMBASESIZE)"
proof -
  have "load_int M a s = Some (mem s a)" if "a < RAMSTART" "word_pointer a" for a
  proof (rule load_int_other(1) [OF that(2)])
    show "a \<noteq> pseudo_clock_addr M" "\<not> in_sysiostates M a"
      using assms that(1) by (auto simp: machine_ok_def in_sysiostates_def)
  qed
  then show ?thesis by (simp add: RAMTOP_def RAMBASEADDR_def RAMBASESIZE_def RAMSTART_def word_pointer_def)
qed

lemma launchInit_kinv:
  assumes M: "machine_ok M" and a: "ash s R (\<lambda>_. [])"
    and R: "R PcbFree_h = Some (map P_list (p # fs))" "R Ready_queue = Some []"
      "\<And>q. vacant (P_child q) R" "\<And>q. vacant (P_sib q) R"
    and fs: "set (p # fs) = {..<MAX_PROC}"
    and s: "pcbs s = (\<lambda>_. zero_pcb)" "g_process_count s = 0" "g_current_process s = NULL"
  shows "\<exists>h R'. launchInit M s = Some (s\<lparr>lh := h, g_process_count := 1,
       pcbs := (pcbs s)(p := zero_pcb\<lparr>p_s := init_state M s\<rparr>)\<rparr>) \<and>
     kinv (s\<lparr>lh := h, g_process_count := 1, pcbs := (pcbs s)(p := zero_pcb\<lparr>p_s := init_state M s\<rparr>)\<rparr>)
       R' (\<lambda>_. []) [p] fs [PNode p []]"
proof -
  let ?s0 = "s\<lparr>g_process_count := 1\<rparr>" and ?pcb = "zero_pcb\<lparr>p_s := init_state M s\<rparr>"
  have a0: "ash ?s0 R (\<lambda>_. [])" by (rule ash_transfer [OF a]) (use ash_rings [OF a] in \<open>simp_all add: keeps_sems_def\<close>)
  obtain h1 where h1: "allocPcb ?s0 = Some (Ref p, ?s0\<lparr>lh := h1, pcbs := (pcbs ?s0)(p := zero_pcb)\<rparr>)"
    "ash (?s0\<lparr>lh := h1, pcbs := (pcbs ?s0)(p := zero_pcb)\<rparr>)
       (R(PcbFree_h \<mapsto> map P_list fs, P_list p \<mapsto> [], P_child p \<mapsto> [], P_sib p \<mapsto> [])) (\<lambda>_. [])" (is "ash ?s1 ?R1 _")
    using allocPcb_ash [OF a0 R(1) R(3) R(4)] by blast
  define s2 where "s2 = ?s0\<lparr>lh := h1, pcbs := (pcbs s)(p := ?pcb)\<rparr>"
  have r2: "rings (lh s2) ?R1" using ash_rings [OF h1(2)] by (simp add: s2_def)
  have pfs: "p \<notin> set fs" using ringsD(2) [OF ash_rings [OF a] R(1)] by auto
  have "queueable Ready_queue s2 p" using rings_alone [OF r2, of "P_list p"] by (simp add: queueable_def)
  then obtain h where h: "insertProcQ (Ref Ready_queue) (Ref p) s2 = Some (s2\<lparr>lh := h\<rparr>)"
      "rings h (?R1(P_list p := None, Ready_queue \<mapsto> map P_list ([] @ [p])))" (is "rings h ?R'")
    using insertProcQ_alone [OF r2, of Ready_queue "[]" p] R(2) by auto
  let ?s' = "s\<lparr>lh := h, g_process_count := 1, pcbs := (pcbs s)(p := ?pcb)\<rparr>"
  have s': "s2\<lparr>lh := h\<rparr> = ?s'" by (simp add: s2_def)
  have run: "launchInit M s = Some ?s'"
    unfolding s' [symmetric] h(1) [symmetric]
    by (simp add: launchInit_def s(2) h1(1) RAMTOP_mem [OF M] s2_def init_state_def zero_pcb_def zero_state_def)
  have "kinv ?s' ?R' (\<lambda>_. []) [p] fs [PNode p []]"
  proof (rule kinvI)
    have "ash ?s' ?R' (\<lambda>_. [])"
      by (rule ash_transfer [OF h1(2)])
        (use h(2) in \<open>auto simp: keeps_sems_def vacant_def not_in_nodes split: if_splits\<close>)
    then show "queues ?s' ?R' (\<lambda>_. []) [p]" using fs s(3) by (auto simp: queues_def)
    show "sem_ptrs ?s' (\<lambda>_. [])" by (simp add: sem_ptrs_def s(1) zero_pcb_def)
    show "forest_ok ?s' ?R' [PNode p []]" by (simp add: forest_ok_def zero_pcb_def)
    show "set fs \<inter> set (fmembers [PNode p []]) = {}" "set fs \<union> set (fmembers [PNode p []]) = {..<MAX_PROC}"
      using fs pfs by auto
    show "accounted ?s' (\<lambda>_. []) [p] q" if "q \<in> set (fmembers [PNode p []])" for q
      using that by (simp add: accounted_def)
    show "vacant (P_child q) ?R' \<and> vacant (P_sib q) ?R'" if "q \<in> set fs" for q
      using R(3,4) [of q] that pfs by (auto simp: vacant_def not_in_nodes split: if_splits)
  qed simp_all
  with run show ?thesis by blast
qed

section \<open>The start\<close>

lemma start_rings_start: "start_rings start_rings'"
  by (auto simp: start_rings_def start_rings'_def static_rings_def)

lemma init_rings_vacant: "vacant (P_child q) (init_rings start_rings')" "vacant (P_sib q) (init_rings start_rings')"
  by (auto simp: vacant_def not_in_nodes init_rings_def start_rings'_def static_rings_def split: if_splits)

lemma main_kinv:
  assumes M: "machine_ok M" and s: "static_storage s"
  shows "\<exists>s' R. main M s = Some (Exits (LDST (init_state M s)) s') \<and>
     kinv s' R (\<lambda>_. []) [] (rev [0..<MAX_PROC - 1]) [PNode (MAX_PROC - 1) []] \<and> g_current_process s' = Ref (MAX_PROC - 1) \<and>
     g_process_count s' = 1 \<and> g_soft_block_count s' = 0 \<and> g_pseudo_clock s' = 1 \<and>
     (\<forall>d < DEVICE_NUMBER. g_sysiostates s' d = free_device) \<and> passupvector s' = handlers M \<and>
     (\<forall>j < MAX_PROC. n_type s' (NS_PID, j) = NS_PID) \<and>
     interval_timer s' = PSECOND \<and> cpu_timer s' = TIMESLICE \<and> user_states s' = user_states s \<and> mem s' = mem s \<and>
     (\<forall>p. p \<noteq> MAX_PROC - 1 \<longrightarrow> pcbs s' p = zero_pcb) \<and>
     pcbs s' (MAX_PROC - 1) = zero_pcb\<lparr>p_s := init_state M s\<rparr>"
proof -
  let ?p = "MAX_PROC - 1"
  from initGlobalVariable_start [OF s, of M] obtain h g where
    g: "initGlobalVariable M s = Some (s\<lparr>g_process_count := 0, g_soft_block_count := 0, lh := h,
       g_current_process := NULL, g_sysiostates := g, g_pseudo_clock := 1, g_tod := 0, passupvector := handlers M\<rparr>)"
      (is "_ = Some ?s1") "rings h start_rings'" "\<forall>d < DEVICE_NUMBER. g d = free_device" by blast
  have B: "chains (hh ?s1) (\<lambda>_. [])" using s chains_static by (simp add: static_storage_def)
  obtain h2 f where i: "do { s \<leftarrow> initPcbs ?s1; s \<leftarrow> initASH s; initNamespaces s } = Some (?s1\<lparr>lh := h2, n_type := f\<rparr>)"
      "ash (?s1\<lparr>lh := h2, n_type := f\<rparr>) (init_rings start_rings') (\<lambda>_. [])" "\<forall>j < MAX_PROC. f (NS_PID, j) = NS_PID"
    using phase1_init [OF _ start_rings_start B] g(2) by auto
  define s2 where "s2 = ?s1\<lparr>lh := h2, n_type := f, interval_timer := PSECOND\<rparr>"
  have a: "ash s2 (init_rings start_rings') (\<lambda>_. [])"
    by (rule ash_transfer [OF i(2)]) (use ash_rings [OF i(2)] in \<open>simp_all add: keeps_sems_def s2_def\<close>)
  have "MAX_PROC = Suc ?p" by (simp add: MAX_PROC_def)
  then have order: "rev [0..<MAX_PROC] = ?p # rev [0..<?p]" "set (?p # rev [0..<?p]) = {..<MAX_PROC}"
    by (metis upt_Suc_append rev_append rev_singleton_conv append_Cons append_Nil zero_le, auto simp: less_Suc_eq)
  have "\<exists>h R'. launchInit M s2 = Some (s2\<lparr>lh := h, g_process_count := 1,
       pcbs := (pcbs s2)(?p := zero_pcb\<lparr>p_s := init_state M s2\<rparr>)\<rparr>) \<and>
     kinv (s2\<lparr>lh := h, g_process_count := 1, pcbs := (pcbs s2)(?p := zero_pcb\<lparr>p_s := init_state M s2\<rparr>)\<rparr>)
       R' (\<lambda>_. []) [?p] (rev [0..<?p]) [PNode ?p []]"
  proof (rule launchInit_kinv [OF M a _ _ init_rings_vacant order(2)])
    show "init_rings start_rings' PcbFree_h = Some (map P_list (?p # rev [0..<?p]))"
      using order(1) by (simp add: init_rings_def)
    show "init_rings start_rings' Ready_queue = Some []" by (simp add: init_rings_def start_rings'_def)
  qed (use s in \<open>simp_all add: s2_def static_storage_def\<close>)
  then obtain h3 R3 where l: "launchInit M s2 = Some (s2\<lparr>lh := h3, g_process_count := 1,
       pcbs := (pcbs s2)(?p := zero_pcb\<lparr>p_s := init_state M s2\<rparr>)\<rparr>)"
     "kinv (s2\<lparr>lh := h3, g_process_count := 1,
       pcbs := (pcbs s2)(?p := zero_pcb\<lparr>p_s := init_state M s2\<rparr>)\<rparr>) R3 (\<lambda>_. []) [?p] (rev [0..<?p]) [PNode ?p []]" (is "kinv ?s3 _ _ _ _ _") by blast
  have c: "?s3\<lparr>g_current_process := NULL\<rparr> = ?s3" by (simp add: s2_def)
  from scheduler_queues [of ?s3 R3 "\<lambda>_. []" ?p "[]" M, unfolded c, OF kinvD(1) [OF l(2)]] obtain h4 R4 where
    d: "scheduler M ?s3 = Some (Exits (LDST (p_s (pcbs ?s3 ?p))) (dispatched ?p h4 ?s3))"
      "queues (dispatched ?p h4 ?s3) R4 (\<lambda>_. []) []" "same_rest R3 R4" by blast
  have k: "kinv (dispatched ?p h4 ?s3) R4 (\<lambda>_. []) [] (rev [0..<?p]) [PNode ?p []]"
    using kinvD(3) [OF l(2)] by (intro kinv_queues [OF l(2) d(2,3)]) (auto simp: sem_ptrs_def accounted_def s2_def)
  have "main M s = do { s \<leftarrow> do { s \<leftarrow> initPcbs ?s1; s \<leftarrow> initASH s; initNamespaces s };
      s \<leftarrow> launchInit M (s\<lparr>interval_timer := PSECOND\<rparr>); scheduler M s }"
    by (simp add: main_def g(1))
  also have "\<dots> = scheduler M ?s3" unfolding i(1) using l(1) by (simp add: s2_def)
  finally have "main M s = Some (Exits (LDST (init_state M s)) (dispatched ?p h4 ?s3))"
    unfolding d(1) by (simp add: init_state_def s2_def)
  then show ?thesis using k g(3) i(3) s
    by (intro exI [of _ "dispatched ?p h4 ?s3"] exI [of _ R4])
      (simp add: s2_def dispatched_def static_storage_def init_state_def)
qed

end
