(* ===== verification/Reachability.thy ===== *)
theory Reachability
  imports Exception_Safety Boot
begin

text \<open>
  The life of the machine as a step relation: a process runs until an exception, the nucleus
  serves it, and it dispatches, waits or stops.  The relation \<open>kstep\<close> takes any exception; in the
  runs whose exceptions are \<open>allowed\<close>, the regular ones, every state is one of the invariant, and a
  state in which a process runs or the scheduler waits has a successor for each of them.
\<close>

section \<open>The nucleus does not return\<close>

fun no_return :: "'a outcome option \<Rightarrow> bool" where
  "no_return (Some (Returns x s)) \<longleftrightarrow> False"
| "no_return _ \<longleftrightarrow> True"

lemma no_return_bind: "(\<And>x. r = Some x \<Longrightarrow> no_return (f x)) \<Longrightarrow> no_return (r \<bind> f)"
  by (cases r) simp_all

lemma no_return_returning: "(\<And>x s. no_return (f x s)) \<Longrightarrow> no_return (returning r f)"
  by (cases r) simp_all

lemma scheduler_no_return: "no_return (scheduler M s)"
  unfolding scheduler_def scheduler_loop_def schedule_next_def STCK_def Let_def
  by (auto intro!: no_return_bind split: prod.splits)

lemma passUpOrDie_no_return: "no_return (passUpOrDie M n s)"
  unfolding passUpOrDie_def sysTerminateProcess_def Let_def
  by (auto intro!: no_return_bind scheduler_no_return split: prod.splits)

lemma syscallHandler_no_return: "no_return (syscallHandler M s)"
  unfolding syscallHandler_def Let_def by (intro no_return_bind no_return_returning) simp

lemma interruptHandler_no_return: "no_return (interruptHandler M n s)"
  by (cases n) (auto simp: Let_def STCK_def intro!: no_return_bind no_return_returning split: prod.splits)

lemma exceptionHandler_no_return: "no_return (exceptionHandler M s)"
  unfolding exceptionHandler_def Let_def
  by (auto intro!: no_return_bind passUpOrDie_no_return syscallHandler_no_return interruptHandler_no_return)

lemma safe_exits: "safe M r \<Longrightarrow> no_return r \<Longrightarrow> \<exists>e s. r = Some (Exits e s) \<and> settled M e s"
  by (cases "(M, r)" rule: safe.cases) auto

section \<open>Exceptions of a running process\<close>

lemma io_pending_time:
  assumes "io_pending M l a d w A s" "\<And>p. (f p)\<lparr>p_time := 0\<rparr> = (pcbs s p)\<lparr>p_time := 0\<rparr>"
  shows "io_pending M l a d w A (s\<lparr>pcbs := f, g_tod := t, tod_reads := n\<rparr>)"
proof (rule io_pending_cong [OF assms(1)])
  show "findDevRegAddr M l (s\<lparr>pcbs := f, g_tod := t, tod_reads := n\<rparr>) = findDevRegAddr M l s"
    by (simp add: findDevRegAddr_def load_int_def cong: if_cong)
  have "cmd_addr ((f w)\<lparr>p_time := 0\<rparr>) = cmd_addr ((pcbs s w)\<lparr>p_time := 0\<rparr>)"
    "cmd_values ((f w)\<lparr>p_time := 0\<rparr>) = cmd_values ((pcbs s w)\<lparr>p_time := 0\<rparr>)" unfolding assms(2) by (rule refl)+
  then show "cmd_addr (pcbs (s\<lparr>pcbs := f, g_tod := t, tod_reads := n\<rparr>) w) = cmd_addr (pcbs s w)"
    "cmd_values (pcbs (s\<lparr>pcbs := f, g_tod := t, tod_reads := n\<rparr>) w) = cmd_values (pcbs s w)" by simp_all
qed simp_all

lemma updateProcessTime_minv:
  assumes k: "minv M (s\<lparr>g_current_process := c\<rparr>) R A rq fs ts"
  obtains s' where "updateProcessTime s = Some s'" "minv M (s'\<lparr>g_current_process := c\<rparr>) R A rq fs ts"
    "g_old_state s' = g_old_state s" "irq_pending M A s \<longrightarrow> irq_pending M A s'"
    "g_current_process s' = g_current_process s" "g_process_count s' = g_process_count s"
proof -
  obtain f tod n where f: "updateProcessTime s = Some (s\<lparr>pcbs := f, g_tod := tod, tod_reads := n\<rparr>)"
    "\<And>p. (f p)\<lparr>p_time := 0\<rparr> = (pcbs s p)\<lparr>p_time := 0\<rparr>" using updateProcessTime_cases [of s] by metis
  have "p_semAdd ((f p)\<lparr>p_time := 0\<rparr>) = p_semAdd ((pcbs s p)\<lparr>p_time := 0\<rparr>)"
    "p_parent ((f p)\<lparr>p_time := 0\<rparr>) = p_parent ((pcbs s p)\<lparr>p_time := 0\<rparr>)"
    "cmd_addr ((f p)\<lparr>p_time := 0\<rparr>) = cmd_addr ((pcbs s p)\<lparr>p_time := 0\<rparr>)"
    "cmd_values ((f p)\<lparr>p_time := 0\<rparr>) = cmd_values ((pcbs s p)\<lparr>p_time := 0\<rparr>)" for p unfolding f(2) by (rule refl)+
  then have "minv M (s\<lparr>pcbs := f, g_tod := tod, tod_reads := n, g_current_process := c\<rparr>) R A rq fs ts"
    by (intro minv_cong [OF k]) simp_all
  moreover have "irq_pending M A (s\<lparr>pcbs := f, g_tod := tod, tod_reads := n\<rparr>)" if "irq_pending M A s"
    using that io_pending_time [OF _ f(2)] unfolding irq_pending_def by (auto, blast+)
  ultimately show thesis using f(1) by (intro that [of "s\<lparr>pcbs := f, g_tod := tod, tod_reads := n\<rparr>"]) simp_all
qed

lemma running_at:
  assumes "minv M (s\<lparr>g_current_process := Ref p\<rparr>) R A rq fs ts" "g_current_process s = Ref p"
  shows "running M s"
  using assms(1) unfolding current_same [OF assms(2)] by (rule runningI) (rule assms(2))

lemma in_tree_old_state [simp]: "in_tree (s\<lparr>g_old_state := st\<rparr>) p t = in_tree s p t"
  unfolding in_tree_def by (rule descends_cong) simp

text \<open>An interrupt of the interval timer or of devices, with the process \<open>c\<close> or none running.\<close>

definition interrupt_ok :: "machine \<Rightarrow> kernel \<Rightarrow> bool" where
  "interrupt_ok M s \<longleftrightarrow> CAUSE_GET_EXCCODE M (cause (g_old_state s)) = EXC_INT M \<and>
     \<not> bit (cause (g_old_state s)) 9 \<and> irq_ready M s"

lemma exceptionHandler_interrupts:
  assumes M: "machine_ok M" and k: "minv M (s\<lparr>g_current_process := c\<rparr>) R A rq fs ts" and i: "interrupt_ok M s"
  obtains s1 s2 where "updateProcessTime s = Some s1"
    "exceptionHandler M s = Some (Exits (LDST (g_old_state s2)) s2)" "all_served M c s1 fs ts s2"
    "g_current_process s1 = g_current_process s" "g_process_count s1 = g_process_count s"
proof -
  have c: "CAUSE_GET_EXCCODE M (cause (g_old_state s)) = EXC_INT M" "\<not> bit (cause (g_old_state s)) 9"
    and io: "irq_pending M A s"
    using i irq_ready_pending [OF M k] by (auto simp: interrupt_ok_def)
  obtain s1 where s1: "updateProcessTime s = Some s1" "minv M (s1\<lparr>g_current_process := c\<rparr>) R A rq fs ts"
    "g_old_state s1 = g_old_state s" "irq_pending M A s1" "g_process_count s1 = g_process_count s"
    "g_current_process s1 = g_current_process s"
    using io updateProcessTime_minv [OF k] by metis
  obtain s2 where s2: "interruptHandler M INTERRUPT_LINES s1 = Some (Exits (LDST (g_old_state s2)) s2)"
    "all_served M c s1 fs ts s2"
    using interruptHandler_all [OF M s1(2,4)] c(2) s1(3) by auto
  show thesis using c(1) s1 s2 by (intro that [of s1 s2]) (simp_all add: exceptionHandler_def)
qed

lemma exceptionHandler_running:
  assumes M: "machine_ok M" and r: "running M s" and x: "exception_ok M s"
  shows "\<exists>e s'. exceptionHandler M s = Some (Exits e s') \<and> settled M e s'"
proof (rule safe_exits [OF _ exceptionHandler_no_return])
  let ?c = "CAUSE_GET_EXCCODE M (cause (g_old_state s))"
  let ?s = "s\<lparr>g_old_state := (g_old_state s)\<lparr>pc_epc := pc_epc (g_old_state s) + WORDLEN\<rparr>\<rparr>"
  show "safe M (exceptionHandler M s)"
  proof (cases "?c = EXC_INT M")
    case True
    from r obtain R A rq fs ts p where m: "minv M s R A rq fs ts" and p: "g_current_process s = Ref p" by (rule runningE)
    have k: "minv M (s\<lparr>g_current_process := Ref p\<rparr>) R A rq fs ts" using m current_same [OF p] by simp
    show ?thesis
    proof (cases "bit (cause (g_old_state s)) 9")
      case local: True
      from k obtain s1 where s1: "updateProcessTime s = Some s1" "minv M (s1\<lparr>g_current_process := Ref p\<rparr>) R A rq fs ts"
        "g_old_state s1 = g_old_state s" "g_current_process s1 = g_current_process s"
        using updateProcessTime_minv by metis
      have "running M s1" by (rule running_at [OF s1(2)]) (simp add: s1(4) p)
      then have "safe M (interruptHandler M INTERRUPT_LINES s1)" using interruptHandler_local s1(3) local by simp
      then show ?thesis using True s1(1) by (simp add: exceptionHandler_def)
    next
      case False
      then have i: "interrupt_ok M s" using x True by (simp add: exception_ok_def interrupt_ok_def)
      from exceptionHandler_interrupts [OF M k i] obtain s1 s2 R2 A2 rq2 where s2: "updateProcessTime s = Some s1"
        "exceptionHandler M s = Some (Exits (LDST (g_old_state s2)) s2)" "all_served M (Ref p) s1 fs ts s2"
        "g_current_process s1 = g_current_process s"
        "minv M (s2\<lparr>g_current_process := Ref p\<rparr>) R2 A2 rq2 fs ts" unfolding all_served_def by metis
      have "running M s2" by (rule running_at [OF s2(5)]) (use s2(3,4) p in \<open>simp add: all_served_def\<close>)
      then show ?thesis using s2(2) by simp
    qed
  next
    case False
    have "support_ok s" using x False by (auto simp: exception_ok_def Let_def split: if_splits)
    then have sup: "safe M (passUpOrDie M n s)" for n by (rule passUpOrDie_safe [OF M r])
    have "safe M (syscallHandler M ?s)" if "?c = EXC_SYS M"
    proof (rule syscallHandler_safe [OF M])
      show "running M ?s" by (rule running_cong [OF r]) simp_all
      have "call_ok M s" using x False that by (simp add: exception_ok_def)
      then show "call_ok M ?s"
        by (simp add: call_ok_def terminate_arg_def support_ok_def Let_def cong: if_cong)
    qed
    then show ?thesis using False sup by (auto simp: exceptionHandler_def Let_def)
  qed
qed

section \<open>Interrupts while the scheduler waits\<close>

text \<open>The handler returns to the scheduler, behind its \<open>WAIT\<close>, and the scheduler goes on.\<close>

lemma exceptionHandler_waiting:
  assumes M: "machine_ok M" and w: "idle M s" and x: "interrupt_ok M s"
  shows "\<exists>s'. exceptionHandler M s = Some (Exits (LDST (g_old_state s')) s') \<and> idle M s' \<and>
     g_process_count s' = g_process_count s"
proof -
  from w obtain R A rq fs ts where k: "minv M (s\<lparr>g_current_process := NULL\<rparr>) R A rq fs ts"
    and c: "ptr_in (set fs) (g_current_process s)" by (auto simp: idle_def)
  from exceptionHandler_interrupts [OF M k x] obtain s1 s2 where
    s2: "exceptionHandler M s = Some (Exits (LDST (g_old_state s2)) s2)" "all_served M NULL s1 fs ts s2"
    "g_process_count s1 = g_process_count s" "g_current_process s1 = g_current_process s" by blast
  then have "ptr_in (set fs) (g_current_process s2)" using c by (simp add: all_served_def)
  then have "idle M s2" "g_process_count s2 = g_process_count s"
    using s2(2,3) unfolding all_served_def idle_def by (blast, simp)
  then show ?thesis using s2(1) by blast
qed

lemma scheduler_resume_scheduler:
  "scheduler_resume M s = scheduler M (s\<lparr>cpu_status := scheduler_old_status s\<rparr>)"
  by (simp add: scheduler_resume_def scheduler_def setSTATUS_def)

lemma scheduler_resume_settled:
  assumes "idle M s"
  shows "\<exists>e s'. scheduler_resume M s = Some (Exits e s') \<and> settled M e s'"
proof -
  from assms obtain R A rq fs ts where k: "minv M (s\<lparr>g_current_process := NULL\<rparr>) R A rq fs ts"
    and c: "ptr_in (set fs) (g_current_process s)" by (auto simp: idle_def)
  have "minv M (s\<lparr>cpu_status := scheduler_old_status s, g_current_process := NULL\<rparr>) R A rq fs ts"
    by (rule minv_cong [OF k]) simp_all
  then show ?thesis unfolding scheduler_resume_scheduler by (rule scheduler_settled) (simp add: c)
qed

section \<open>The life of the machine\<close>

text \<open>
  The scheduler waits when no process is ready.  An interrupt that comes after its last look at the
  ready queue and before its \<open>WAIT\<close> is missed: it waits for the next one, though a process may be ready.
\<close>

datatype mode = Running | Waiting | Missed | Stopped event

definition waits :: "mode \<Rightarrow> bool" where
  "waits m \<longleftrightarrow> m = Waiting \<or> m = Missed"

lemma waits_simps [simp]: "waits Waiting" "waits Missed" "\<not> waits Running" "\<not> waits (Stopped e)"
  by (simp_all add: waits_def)

fun mode_of :: "event \<Rightarrow> mode" where
  "mode_of (LDST st) = Running"
| "mode_of (LDCXT sp st pc) = Running"
| "mode_of WAIT = Waiting"
| "mode_of e = Stopped e"

text \<open>
  What a process, a device and the BIOS change before the next exception: the words of
  memory and the device registers, the states and support structures in memory, the saved
  processor state and the clocks.
\<close>

definition machine_runs :: "kernel \<Rightarrow> kernel \<Rightarrow> bool" where
  "machine_runs s s' \<longleftrightarrow> (\<exists>m u v st t i clock. s' = s\<lparr>mem := m, user_states := u, supports := v,
     g_old_state := st, cpu_timer := t, interval_timer := i, tod_clock := clock\<rparr>)"

text \<open>
  The state in which an exception arrives, and whether it is an interrupt that comes too early for
  the \<open>WAIT\<close> of the scheduler.  One between \<open>setSTATUS\<close> and the last look at the ready queue has the
  effect of the first kind when the look finds a process, and of the second when it finds none.
\<close>

datatype arrival = Arrives kernel | Arrives_early kernel

definition is_interrupt :: "machine \<Rightarrow> kernel \<Rightarrow> bool" where
  "is_interrupt M s \<longleftrightarrow> CAUSE_GET_EXCCODE M (cause (g_old_state s)) = EXC_INT M"

text \<open>
  A step is an exception of any kind, in any state that the machine can be in, that the handler
  serves.  While the scheduler waits, a handler that loads the saved state gives control back to it,
  behind its \<open>WAIT\<close> or, too early, in front of it; one that loads another state, or stops, does not.
\<close>

inductive kstep :: "machine \<Rightarrow> mode \<times> kernel \<Rightarrow> arrival \<Rightarrow> mode \<times> kernel \<Rightarrow> bool" for M where
  exception: "machine_runs s s1 \<Longrightarrow> exceptionHandler M s1 = Some (Exits e s2) \<Longrightarrow>
     kstep M (Running, s) (Arrives s1) (mode_of e, s2)"
| resumes: "waits m \<Longrightarrow> machine_runs s s1 \<Longrightarrow> is_interrupt M s1 \<Longrightarrow>
     exceptionHandler M s1 = Some (Exits (LDST (g_old_state s2)) s2) \<Longrightarrow>
     scheduler_resume M s2 = Some (Exits e s3) \<Longrightarrow> kstep M (m, s) (Arrives s1) (mode_of e, s3)"
| switches: "waits m \<Longrightarrow> machine_runs s s1 \<Longrightarrow> is_interrupt M s1 \<Longrightarrow>
     exceptionHandler M s1 = Some (Exits e s2) \<Longrightarrow> e \<noteq> LDST (g_old_state s2) \<Longrightarrow>
     kstep M (m, s) (Arrives s1) (mode_of e, s2)"
| early: "waits m \<Longrightarrow> machine_runs s s1 \<Longrightarrow> is_interrupt M s1 \<Longrightarrow>
     exceptionHandler M s1 = Some (Exits (LDST (g_old_state s2)) s2) \<Longrightarrow>
     kstep M (m, s) (Arrives_early s1) (Missed, s2)"

inductive_cases kstep_arrivesE: "kstep M (m, s) (Arrives s1) x"
inductive_cases kstep_earlyE: "kstep M (m, s) (Arrives_early s1) x"
inductive_simps kstep_stopped [simp]: "kstep M (Stopped e, s) a x"

text \<open>Reachable under a condition on the exceptions; \<open>\<lambda>m a. True\<close> allows them all.\<close>

inductive reachable :: "machine \<Rightarrow> (mode \<Rightarrow> arrival \<Rightarrow> bool) \<Rightarrow> mode \<times> kernel \<Rightarrow> bool" for M I where
  boot: "static_storage s \<Longrightarrow> main M s = Some (Exits e s') \<Longrightarrow> reachable M I (mode_of e, s')"
| step: "reachable M I (m, s) \<Longrightarrow> I m a \<Longrightarrow> kstep M (m, s) a y \<Longrightarrow> reachable M I y"

text \<open>
  The exceptions of regular runs: those for which \<open>exception_ok\<close> or \<open>interrupt_ok\<close> holds.  Beyond
  them the code leaves the invariant.
\<close>

fun allowed :: "machine \<Rightarrow> mode \<Rightarrow> arrival \<Rightarrow> bool" where
  "allowed M m (Arrives s) \<longleftrightarrow> (if m = Running then exception_ok M s else interrupt_ok M s)"
| "allowed M m (Arrives_early s) \<longleftrightarrow> interrupt_ok M s"

abbreviation regular :: "machine \<Rightarrow> mode \<times> kernel \<Rightarrow> bool" where
  "regular M \<equiv> reachable M (allowed M)"

lemma regular_reachable: "regular M x \<Longrightarrow> reachable M (\<lambda>m a. True) x"
  by (induction rule: reachable.induct) (auto intro: reachable.intros)

fun mode_ok :: "machine \<Rightarrow> mode \<times> kernel \<Rightarrow> bool" where
  "mode_ok M (Running, s) \<longleftrightarrow> running M s"
| "mode_ok M (Waiting, s) \<longleftrightarrow> waiting M s"
| "mode_ok M (Missed, s) \<longleftrightarrow> idle M s"
| "mode_ok M (Stopped e, s) \<longleftrightarrow> settled M e s"

lemma settled_mode: "settled M e s \<Longrightarrow> mode_ok M (mode_of e, s)"
  by (cases e) simp_all

lemma running_runs:
  assumes "running M s" "machine_runs s s1"
  shows "running M s1"
  using assms(2) unfolding machine_runs_def by (elim exE) (simp, rule running_cong [OF assms(1)], simp_all)

lemma waits_idle: "waits m \<Longrightarrow> mode_ok M (m, s) \<Longrightarrow> idle M s"
  unfolding waits_def idle_def by (auto simp: waiting_def idle_def) blast

lemma idle_runs:
  assumes "idle M s" "machine_runs s s1"
  shows "idle M s1"
proof -
  from assms(1) obtain R A rq fs ts where k: "minv M (s\<lparr>g_current_process := NULL\<rparr>) R A rq fs ts"
    and c: "ptr_in (set fs) (g_current_process s)" by (auto simp: idle_def)
  have "minv M (s1\<lparr>g_current_process := NULL\<rparr>) R A rq fs ts"
    using assms(2) unfolding machine_runs_def by (elim exE) (simp, rule minv_cong [OF k], simp_all)
  moreover have "g_current_process s1 = g_current_process s" using assms(2) by (auto simp: machine_runs_def)
  ultimately show ?thesis using c unfolding idle_def by metis
qed

lemma kstep_ok:
  assumes M: "machine_ok M" and s: "kstep M (m, s) a y" and a: "allowed M m a" and ok: "mode_ok M (m, s)"
  shows "mode_ok M y"
proof (cases a)
  case (Arrives s1)
  from s [unfolded Arrives] show ?thesis
  proof (cases rule: kstep_arrivesE [consumes 1])
    case (1 e s2)
    then have "running M s1" using running_runs ok by simp
    moreover have "exception_ok M s1" using 1 a Arrives by simp
    ultimately show ?thesis using exceptionHandler_running [OF M] 1 settled_mode by force
  next
    case (2 s2 e s3)
    then have "idle M s1" using idle_runs waits_idle ok by blast
    moreover have "interrupt_ok M s1" using a Arrives 2(2) by (auto simp: waits_def)
    ultimately have "idle M s2" using exceptionHandler_waiting [OF M] 2 by force
    then show ?thesis using scheduler_resume_settled 2 settled_mode by force
  next
    case (3 e s2)
    then have "idle M s1" using idle_runs waits_idle ok by blast
    moreover have "interrupt_ok M s1" using a Arrives 3(2) by (auto simp: waits_def)
    ultimately show ?thesis using exceptionHandler_waiting [OF M] 3 by force
  qed
next
  case (Arrives_early s1)
  from s [unfolded Arrives_early] show ?thesis
  proof (cases rule: kstep_earlyE [consumes 1])
    case (1 s2)
    then have "idle M s1" using idle_runs waits_idle ok by blast
    then show ?thesis using exceptionHandler_waiting [OF M] 1 a Arrives_early by force
  qed
qed

lemma booted_minv:
  assumes M: "machine_ok M" and s: "static_storage s" "main M s = Some (Exits e s')"
  shows "\<exists>R. minv M s' R (\<lambda>_. []) [] (rev [0..<MAX_PROC - 1]) [PNode (MAX_PROC - 1) []]"
    "g_current_process s' = Ref (MAX_PROC - 1)" "e = LDST (init_state M s)"
proof -
  from main_kinv [OF M s(1)] s(2) obtain R where
    k: "kinv s' R (\<lambda>_. []) [] (rev [0..<MAX_PROC - 1]) [PNode (MAX_PROC - 1) []]"
    "g_current_process s' = Ref (MAX_PROC - 1)" "e = LDST (init_state M s)"
    "\<forall>d < DEVICE_NUMBER. g_sysiostates s' d = free_device" "\<forall>j < MAX_PROC. n_type s' (NS_PID, j) = NS_PID" by auto
  then have "devices_ok M (\<lambda>_. []) s'" "namespaces_ok s'"
    by (auto simp: devices_ok_def device_ok_def device_idle_def namespaces_ok_def one_namespace NS_PID_def)
  then show "\<exists>R. minv M s' R (\<lambda>_. []) [] (rev [0..<MAX_PROC - 1]) [PNode (MAX_PROC - 1) []]"
    using k(1) by (auto simp: minv_def)
  show "g_current_process s' = Ref (MAX_PROC - 1)" "e = LDST (init_state M s)" by fact+
qed

lemma reachable_mode:
  assumes M: "machine_ok M" and r: "regular M x"
  shows "mode_ok M x"
  using r
proof (induction rule: reachable.induct)
  case (boot s e s')
  then show ?case using booted_minv [OF M boot] runningI by auto
next
  case (step m s a y)
  then show ?case using kstep_ok [OF M] by blast
qed

end
