(* ===== verification/Sem_Spec.thy ===== *)
theory Sem_Spec
  imports Reachability
begin

text \<open>
  What \<open>sysPasseren\<close> and \<open>sysVerhogen\<close> promise, on an abstract system of binary semaphores:
  values, queues of waiting processes, the ready queue and the running process.  The code
  refines it, for semaphores in the memory of processes, device semaphores and the pseudo
  clock alike.
\<close>

section \<open>The abstract system\<close>

record sem_sys =
  sval :: "u32 \<Rightarrow> u32"
  swaits :: "u32 \<Rightarrow> pcb list"
  sready :: "pcb list"
  srun :: pcb

text \<open>
  A step goes on with the running process, or switches to the first ready one, or finds no
  ready process.
\<close>

datatype sem_step = Continues sem_sys | Switches sem_sys | Idles sem_sys

text \<open>
  The operation that passes on the value \<open>v0\<close> and moves it by \<open>d\<close>: a waiting process takes
  the place of the change; on another value the running process waits.
\<close>

definition sem_step :: "u32 \<Rightarrow> u32 \<Rightarrow> u32 \<Rightarrow> sem_sys \<Rightarrow> sem_step" where
  "sem_step v0 d a \<sigma> =
     (if sval \<sigma> a = v0 then
        (case swaits \<sigma> a of
           [] \<Rightarrow> Continues (\<sigma>\<lparr>sval := (sval \<sigma>)(a := v0 + d)\<rparr>)
         | w # ws \<Rightarrow> Continues (\<sigma>\<lparr>swaits := (swaits \<sigma>)(a := ws), sready := sready \<sigma> @ [w]\<rparr>))
      else
        (case sready \<sigma> of
           [] \<Rightarrow> Idles (\<sigma>\<lparr>swaits := (swaits \<sigma>)(a := swaits \<sigma> a @ [srun \<sigma>])\<rparr>)
         | q # qs \<Rightarrow> Switches (\<sigma>\<lparr>swaits := (swaits \<sigma>)(a := swaits \<sigma> a @ [srun \<sigma>]), sready := qs, srun := q\<rparr>)))"

definition P_step :: "u32 \<Rightarrow> sem_sys \<Rightarrow> sem_step" where
  "P_step = sem_step 1 (- 1)"

definition V_step :: "u32 \<Rightarrow> sem_sys \<Rightarrow> sem_step" where
  "V_step = sem_step 0 1"

text \<open>The kernel state \<open>s\<close> implements the abstract state \<open>\<sigma>\<close>.\<close>

definition implements :: "machine \<Rightarrow> kernel \<Rightarrow> sem_sys \<Rightarrow> bool" where
  "implements M s \<sigma> \<longleftrightarrow> (\<exists>R fs ts. kinv s R (swaits \<sigma>) (sready \<sigma>) fs ts) \<and>
     g_current_process s = Ref (srun \<sigma>) \<and> (\<forall>b. sem_addr M b \<longrightarrow> load_int M b s = Some (sval \<sigma> b))"

text \<open>What the run \<open>r\<close> of the kernel must do for the abstract step \<open>x\<close> from \<open>s\<close>.\<close>

fun refines :: "machine \<Rightarrow> kernel \<Rightarrow> pcb \<Rightarrow> sem_step \<Rightarrow> unit outcome option \<Rightarrow> bool" where
  "refines M s p (Continues \<sigma>) r \<longleftrightarrow> (\<exists>s'. r = Some (Returns () s') \<and> implements M s' \<sigma>)"
| "refines M s p (Switches \<sigma>) r \<longleftrightarrow> (\<exists>s'. r = Some (Exits (LDST (p_s (pcbs s (srun \<sigma>)))) s') \<and>
     implements M s' \<sigma> \<and> p_s (pcbs s' p) = g_old_state s)"
| "refines M s p (Idles \<sigma>) r \<longleftrightarrow> (\<exists>e s'. r = Some (Exits e s') \<and> e \<in> {WAIT, PANIC, SPIN} \<and>
     (\<exists>R fs ts. kinv (s'\<lparr>g_current_process := NULL\<rparr>) R (swaits \<sigma>) [] fs ts) \<and>
     (\<forall>b. sem_addr M b \<longrightarrow> load_int M b s' = Some (sval \<sigma> b)) \<and> p_s (pcbs s' p) = g_old_state s)"

lemma scheduler_idle:
  assumes k: "kinv (s\<lparr>g_current_process := NULL\<rparr>) R A [] fs ts" and n: "g_process_count s \<noteq> 0"
  shows "\<exists>e s'. scheduler M s = Some (Exits e s') \<and> e \<in> {WAIT, PANIC, SPIN} \<and>
     kinv (s'\<lparr>g_current_process := NULL\<rparr>) R A [] fs ts \<and> pcbs s' = pcbs s \<and>
     (\<forall>b. load_int M b s' = load_int M b s)"
proof -
  note D = queuesD [OF kinvD(1) [OF k]]
  have r: "rings (lh s) R" "R Ready_queue = Some (map P_list [])" using D(2,5) by simp_all
  have keep: "kinv (s\<lparr>scheduler_old_status := c, cpu_status := d, g_current_process := NULL\<rparr>) R A [] fs ts"
    "kinv (s\<lparr>scheduler_old_status := c, g_current_process := NULL\<rparr>) R A [] fs ts" for c d
    by (rule kinv_cong [OF k]; simp)+
  have "load_int M b (s\<lparr>scheduler_old_status := c, cpu_status := d\<rparr>) = load_int M b s"
    "load_int M b (s\<lparr>scheduler_old_status := c\<rparr>) = load_int M b s" for b c d
    by (rule load_int_lists; simp)+
  then show ?thesis using n keep unfolding scheduler_cases [OF r] Let_def by auto
qed

section \<open>The refinement\<close>

lemma load_block:
  "load_int M b (dispatched q h s) = load_int M b s"
  by (rule load_int_lists) simp_all

lemma sem_op_refines:
  assumes M: "machine_ok M" "sem_addr M a" and i: "implements M s \<sigma>"
  shows "refines M s (srun \<sigma>) (sem_step v0 d a \<sigma>) (sem_op M v0 d a s)"
proof -
  let ?p = "srun \<sigma>" and ?A = "swaits \<sigma>" and ?rq = "sready \<sigma>"
  from i obtain R fs ts where k: "kinv s R ?A ?rq fs ts" and c: "g_current_process s = Ref ?p"
    and v: "\<And>b. sem_addr M b \<Longrightarrow> load_int M b s = Some (sval \<sigma> b)" by (auto simp: implements_def)
  note q = kinvD(1) [OF k]
  have va: "load_int M a s = Some (sval \<sigma> a)" by (rule v [OF M(2)])
  show ?thesis
  proof (cases "sval \<sigma> a = v0")
    case True
    then have v0: "load_int M a s = Some v0" using va by simp
    show ?thesis
    proof (cases "?A a")
      case Nil
      from sem_op_free [OF M q v0 Nil, of d] obtain g x m where
        e: "sem_op M v0 d a s = Some (Returns () (s\<lparr>g_sysiostates := g, g_pseudo_clock := x, mem := m\<rparr>))"
          "load_int M a (s\<lparr>g_sysiostates := g, g_pseudo_clock := x, mem := m\<rparr>) = Some (v0 + d)"
          "\<forall>b. sem_addr M b \<longrightarrow> b \<noteq> a \<longrightarrow>
             load_int M b (s\<lparr>g_sysiostates := g, g_pseudo_clock := x, mem := m\<rparr>) = load_int M b s" by blast
      have "kinv (s\<lparr>g_sysiostates := g, g_pseudo_clock := x, mem := m\<rparr>) R ?A ?rq fs ts"
        by (rule kinv_cong [OF k]) simp_all
      then show ?thesis using e c v True Nil unfolding sem_step_def by (auto simp: implements_def)
    next
      case (Cons w ws)
      from sem_op_wakes [OF q v0 Cons, of d] obtain h x R' where
        e: "sem_op M v0 d a s = Some (Returns () (s\<lparr>lh := h, hh := x, pcbs := (pcbs s)(w := (pcbs s w)\<lparr>p_semAdd := 0\<rparr>)\<rparr>))"
        and q': "queues (s\<lparr>lh := h, hh := x, pcbs := (pcbs s)(w := (pcbs s w)\<lparr>p_semAdd := 0\<rparr>)\<rparr>) R'
          (?A(a := ws)) (?rq @ [w])" "same_rest R R'" by blast
      let ?s = "s\<lparr>lh := h, hh := x, pcbs := (pcbs s)(w := (pcbs s w)\<lparr>p_semAdd := 0\<rparr>)\<rparr>"
      have "sem_ptrs ?s (?A(a := ws))" by (rule sem_ptrs_wake [OF kinvD(3) [OF k] Cons]) simp_all
      then have "kinv ?s R' (?A(a := ws)) (?rq @ [w]) fs ts"
        by (intro kinv_queues [OF k q'] accounted_wake [where A = ?A and a = a, OF _ Cons]) simp_all
      moreover have "load_int M b ?s = load_int M b s" for b by (rule load_int_lists) simp_all
      ultimately show ?thesis using e c v True Cons unfolding sem_step_def by (auto simp: implements_def)
    qed
  next
    case False
    have a0: "a \<noteq> 0" using M(2) by (auto simp: sem_addr_def word_pointer_def)
    note c' = queues_current [OF q c]
    from block_current_queues [OF q c] obtain s1 R1 where
      b: "block_current M a s = scheduler M s1" "queues s1 R1 (?A(a := ?A a @ [?p])) ?rq"
        "g_current_process s1 = NULL" "pcbs s1 = (pcbs s)(?p := (stopped ?p s)\<lparr>p_semAdd := a\<rparr>)"
        "g_process_count s1 = g_process_count s" "\<forall>b. load_int M b s1 = load_int M b s" "same_rest R R1" by blast
    have "sem_ptrs s1 (?A(a := ?A a @ [?p]))"
      using b(4) c'(1) by (intro sem_ptrs_block [OF kinvD(3) [OF k] a0]) simp_all
    then have "kinv s1 R1 (?A(a := ?A a @ [?p])) ?rq fs ts"
      by (intro kinv_queues [OF k b(2,7)] accounted_block [OF _ c]) (simp_all add: b stopped_def)
    then have k1: "kinv (s1\<lparr>g_current_process := NULL\<rparr>) R1 (?A(a := ?A a @ [?p])) ?rq fs ts"
      using current_same [OF b(3)] by simp
    have op: "sem_op M v0 d a s = scheduler M s1" unfolding sem_op_taken [OF va False] by (rule b(1))
    have p: "p_s (pcbs s1 ?p) = g_old_state s" by (simp add: b(4) stopped_def)
    show ?thesis
    proof (cases ?rq)
      case Nil
      have "?p \<in> set (fmembers ts)" by (rule kinv_live(3) [OF k c])
      then have "g_process_count s1 \<noteq> 0"
        using kinv_count [OF k] kinvD(10) [OF k] b(5) by (cases "fmembers ts") auto
      from scheduler_idle [OF k1 [unfolded Nil] this, of M] obtain e s2 where
        s2: "scheduler M s1 = Some (Exits e s2)" "e \<in> {WAIT, PANIC, SPIN}" "pcbs s2 = pcbs s1"
          "kinv (s2\<lparr>g_current_process := NULL\<rparr>) R1 (?A(a := ?A a @ [?p])) [] fs ts"
          "\<forall>b. load_int M b s2 = load_int M b s1" by blast
      then show ?thesis using False Nil p v b(6) unfolding op sem_step_def by auto
    next
      case (Cons q qs)
      from scheduler_kinv [OF k1 [unfolded Cons], of M] obtain h R' where
        h: "scheduler M s1 = Some (Exits (LDST (p_s (pcbs s1 q))) (dispatched q h s1))"
          "kinv (dispatched q h s1) R' (?A(a := ?A a @ [?p])) qs fs ts" by blast
      have "q \<noteq> ?p" using c'(2) Cons by auto
      then have pq: "p_s (pcbs s1 q) = p_s (pcbs s q)" by (simp add: b(4))
      have "implements M (dispatched q h s1) (\<sigma>\<lparr>swaits := ?A(a := ?A a @ [?p]), sready := qs, srun := q\<rparr>)"
        using h(2) v b(6) by (auto simp: implements_def load_block)
      then show ?thesis using False Cons h(1) p unfolding op sem_step_def pq by auto
    qed
  qed
qed

end
