(* ===== verification/Example.thy ===== *)
theory Example
  imports Sem_Spec
begin

text \<open>
  A concrete machine, with the constants of uMPS3 and a layout of the kernel's data, and
  states that its kernel reaches: after the start, with a second process, with a process
  that waits for the pseudo clock, with one that waits for a disk, and with another that waits
  for the same disk.
\<close>

section \<open>The machine\<close>

definition uMPS :: machine where
  "uMPS = \<lparr>EXC_INT = 0, EXC_MOD = 1, EXC_TLBL = 2, EXC_TLBS = 3, EXC_ADEL = 4, EXC_ADES = 5, EXC_IBE = 6,
     EXC_DBE = 7, EXC_SYS = 8, EXC_BP = 9, EXC_RI = 10, EXC_CPU = 11, EXC_OV = 12,
     CAUSE_GET_EXCCODE = (\<lambda>c. drop_bit 2 (c AND 0x7C)),
     STATUS_IEc = 1, STATUS_IEp = 4, STATUS_TE = 0x08000000, STATUS_IM_MASK = 0xFF00,
     DEVREGSIZE = 16, READY = 1, ACK = 1,
     sysiostates_addr = 0x20010000, pseudo_clock_addr = 0x20020000,
     pcb_table_addr = 0x20030000, pcb_size = 256, nsd_table_addr = 0x20040000, nsd_size = 64,
     test_addr = 0x20002000, uTLB_RefillHandler_addr = 0x20003000, exceptionHandler_addr = 0x20004000\<rparr>"

lemma uMPS_ok: "machine_ok uMPS"
  by (simp add: machine_ok_def uMPS_def table_ok_def in_sysiostates_def sysiostates_end_def word_pointer_def
      DEVICE_NUMBER_def SIZEOF_SYSIOSTATE_def RAMSTART_def MAX_PROC_def NS_TYPE_MAX_def NS_TYPE_LAST_def NS_PID_def)

definition power_on :: kernel where
  "power_on = \<lparr>lh = static_lheap, hh = static_hheap, pcbs = (\<lambda>_. zero_pcb), s_key = (\<lambda>_. 0), n_type = (\<lambda>_. 0),
     g_process_count = 0, g_soft_block_count = 0, g_current_process = NULL,
     g_sysiostates = (\<lambda>_. \<lparr>sem_mut = 0, sem_sync = 0, waiting_process = NULL\<rparr>),
     g_pseudo_clock = 0, g_tod = 0, g_old_state = zero_state, scheduler_old_status = 0,
     mem = (\<lambda>_. 0)(RAMBASEADDR := 0x20000000, RAMBASESIZE := 0x800000),
     user_states = (\<lambda>_. zero_state),
     supports = (\<lambda>_. \<lparr>sup_asid = 0, sup_exceptState = (\<lambda>_. zero_state),
       sup_exceptContext = (\<lambda>_. \<lparr>stackPtr = 0, ctx_status = 0, ctx_pc = 0\<rparr>)\<rparr>),
     passupvector = \<lparr>tlb_refill_handler = 0, tlb_refill_stackPtr = 0, exception_handler = 0, exception_stackPtr = 0\<rparr>,
     cpu_status = 0, cpu_timer = 0, interval_timer = 0, tod_clock = (\<lambda>n. of_nat n), tod_reads = 0\<rparr>"

lemma power_on_static: "static_storage power_on"
  by (simp add: static_storage_def power_on_def)

text \<open>The state that a run leaves.\<close>

fun left :: "'a outcome option \<Rightarrow> kernel" where
  "left (Some (Exits e s)) = s"
| "left (Some (Returns x s)) = s"
| "left None = power_on"

section \<open>After the start\<close>

definition booted :: kernel where
  "booted = left (main uMPS power_on)"

lemma booted:
  "main uMPS power_on = Some (Exits (LDST (init_state uMPS power_on)) booted)"
  "\<exists>R. kinv booted R (\<lambda>_. []) [] (18 # rev [0..<18]) [PNode 19 []]"
  "g_current_process booted = Ref 19" "g_process_count booted = 1" "g_soft_block_count booted = 0"
  "g_pseudo_clock booted = 1" "\<And>d. d < DEVICE_NUMBER \<Longrightarrow> g_sysiostates booted d = free_device"
  "mem booted = mem power_on" "user_states booted = user_states power_on"
  "\<And>p. p \<noteq> 19 \<Longrightarrow> pcbs booted p = zero_pcb" "pcbs booted 19 = zero_pcb\<lparr>p_s := init_state uMPS power_on\<rparr>"
  "\<And>j. j < MAX_PROC \<Longrightarrow> n_type booted (NS_PID, j) = NS_PID"
proof -
  have p: "MAX_PROC - 1 = 19" "[0..<19] = [0..<18] @ [18]" by (simp_all add: MAX_PROC_def upt_rec)
  from main_kinv [OF uMPS_ok power_on_static, unfolded p] obtain s' R where
    m: "main uMPS power_on = Some (Exits (LDST (init_state uMPS power_on)) s')"
    "kinv s' R (\<lambda>_. []) [] (rev ([0..<18] @ [18])) [PNode 19 []]"
    "g_current_process s' = Ref 19" "g_process_count s' = 1" "g_soft_block_count s' = 0" "g_pseudo_clock s' = 1"
    "\<forall>d < DEVICE_NUMBER. g_sysiostates s' d = free_device" "mem s' = mem power_on"
    "user_states s' = user_states power_on" "\<forall>p. p \<noteq> 19 \<longrightarrow> pcbs s' p = zero_pcb"
    "pcbs s' 19 = zero_pcb\<lparr>p_s := init_state uMPS power_on\<rparr>" "\<forall>j < MAX_PROC. n_type s' (NS_PID, j) = NS_PID"
    by blast
  have b: "booted = s'" by (simp add: booted_def m(1))
  show "main uMPS power_on = Some (Exits (LDST (init_state uMPS power_on)) booted)"
    "g_current_process booted = Ref 19" "g_process_count booted = 1" "g_soft_block_count booted = 0"
    "g_pseudo_clock booted = 1" "mem booted = mem power_on" "user_states booted = user_states power_on"
    "pcbs booted 19 = zero_pcb\<lparr>p_s := init_state uMPS power_on\<rparr>"
    unfolding b using m by simp_all
  show "\<exists>R. kinv booted R (\<lambda>_. []) [] (18 # rev [0..<18]) [PNode 19 []]" unfolding b using m(2) by auto
  show "g_sysiostates booted d = free_device" if "d < DEVICE_NUMBER" for d unfolding b using m(7) that by simp
  show "pcbs booted p = zero_pcb" if "p \<noteq> 19" for p unfolding b using m(10) that by simp
  show "n_type booted (NS_PID, j) = NS_PID" if "j < MAX_PROC" for j unfolding b using m(12) that by simp
qed

lemma booted_reachable: "regular uMPS (Running, booted)"
  using reachable.boot [OF power_on_static booted(1)] by simp

text \<open>The saved state of a system call with code \<open>n\<close> and two arguments.\<close>

definition call_state :: "u32 \<Rightarrow> u32 \<Rightarrow> u32 \<Rightarrow> state_t" where
  "call_state n a1 a2 = zero_state\<lparr>cause := 32, reg_a0 := n, reg_a1 := a1, reg_a2 := a2\<rparr>"

lemma call_exception: "CAUSE_GET_EXCCODE uMPS (cause (call_state n a1 a2)) = EXC_SYS uMPS"
proof -
  have "drop_bit 2 ((32 :: u32) AND 0x7C) = 8" by (simp add: drop_bit_eq_div)
  then show ?thesis by (simp add: call_state_def uMPS_def)
qed

lemma runs_call: "machine_runs s (s\<lparr>g_old_state := st\<rparr>)"
  unfolding machine_runs_def
  by (rule exI [of _ "mem s"], rule exI [of _ "user_states s"], rule exI [of _ "supports s"], rule exI [of _ st],
    rule exI [of _ "cpu_timer s"], rule exI [of _ "interval_timer s"], rule exI [of _ "tod_clock s"]) simp

lemma booted_support: "support_ok (booted\<lparr>g_old_state := st\<rparr>)"
  by (simp add: support_ok_def booted(3,11) zero_pcb_def)

section \<open>A second process\<close>

text \<open>The process 19 creates the process 18, in its own namespace.\<close>

definition family :: kernel where
  "family = (case sysCreateProcess uMPS 0x20005000 0 NULL booted of Some (_, s) \<Rightarrow> s | None \<Rightarrow> booted)"

lemma graft_19: "map (graft 19 18) [PNode 19 []] = [PNode 19 [PNode 18 []]]"
  by simp

lemma family:
  "sysCreateProcess uMPS 0x20005000 0 NULL booted = Some (pcb_addr uMPS (Ref 18), family)"
  "\<exists>R. kinv family R (\<lambda>_. []) [18] (rev [0..<18]) [PNode 19 [PNode 18 []]]"
  "g_current_process family = Ref 19" "g_soft_block_count family = 0" "g_pseudo_clock family = 1"
  "mem family = mem power_on" "g_sysiostates family = g_sysiostates booted"
  "namespaces (pcbs family 18) = (\<lambda>_. NULL)" "namespaces (pcbs family 19) = (\<lambda>_. NULL)"
  "p_supportStruct (pcbs family 19) = 0" "p_parent (pcbs family 18) = Ref 19" "g_process_count family = 2"
  "n_type family = n_type booted"
proof -
  let ?pcb = "child_pcb (user_states booted 0x20005000) 0 NULL 19 booted"
  obtain R where k: "kinv booted R (\<lambda>_. []) [] (18 # rev [0..<18]) [PNode 19 []]" using booted(2) by blast
  have w: "word_pointer 0x20005000" by (simp add: word_pointer_def)
  from kinv_create [OF k booted(3) w, of NULL uMPS 0, unfolded graft_19] obtain h R' where
    c: "sysCreateProcess uMPS 0x20005000 0 NULL booted = Some (pcb_addr uMPS (Ref 18),
         booted\<lparr>lh := h, g_process_count := g_process_count booted + 1, pcbs := (pcbs booted)(18 := ?pcb)\<rparr>)"
      "kinv (booted\<lparr>lh := h, g_process_count := g_process_count booted + 1, pcbs := (pcbs booted)(18 := ?pcb)\<rparr>)
         R' (\<lambda>_. []) ([] @ [18]) (rev [0..<18]) [PNode 19 [PNode 18 []]]" by blast
  have f: "family = booted\<lparr>lh := h, g_process_count := g_process_count booted + 1, pcbs := (pcbs booted)(18 := ?pcb)\<rparr>"
    unfolding family_def c(1) by simp
  show "sysCreateProcess uMPS 0x20005000 0 NULL booted = Some (pcb_addr uMPS (Ref 18), family)"
    unfolding f by (rule c(1))
  show "\<exists>R. kinv family R (\<lambda>_. []) [18] (rev [0..<18]) [PNode 19 [PNode 18 []]]" unfolding f using c(2) by auto
  have ns: "namespaces (pcbs booted 19) = (\<lambda>_. NULL)" by (simp add: booted zero_pcb_def)
  show "namespaces (pcbs family 18) = (\<lambda>_. NULL)"
    by (simp add: f child_pcb_def child_namespaces_def ns fun_eq_iff)
  show "g_current_process family = Ref 19" "g_soft_block_count family = 0" "g_pseudo_clock family = 1"
    "mem family = mem power_on" "g_sysiostates family = g_sysiostates booted"
    "namespaces (pcbs family 19) = (\<lambda>_. NULL)" "p_supportStruct (pcbs family 19) = 0"
    "p_parent (pcbs family 18) = Ref 19" "g_process_count family = 2" "n_type family = n_type booted"
    by (simp_all add: f booted zero_pcb_def child_pcb_def)
qed

text \<open>As a system of semaphores.\<close>

definition family_sems :: sem_sys where
  "family_sems = \<lparr>sval = (\<lambda>b. the (load_int uMPS b family)), swaits = (\<lambda>_. []), sready = [18], srun = 19\<rparr>"

abbreviation clock :: u32 where
  "clock \<equiv> pseudo_clock_addr uMPS"

lemma clock_sem: "sem_addr uMPS clock" "clock \<noteq> 0"
  using sem_addr_fields(3) [OF uMPS_ok, of 0] by (simp_all add: DEVICE_NUMBER_def uMPS_def)

lemma load_family: "sem_addr uMPS b \<Longrightarrow> load_int uMPS b s = Some (the (load_int uMPS b s))"
  using load_int_sem [OF _ uMPS_ok, of b s] by auto

lemma family_implements: "implements uMPS family family_sems"
  using family(2,3) load_family by (auto simp: implements_def family_sems_def)

section \<open>A process that waits for the clock\<close>

text \<open>The process 19 passes the pseudo clock once, waits the second time, and 18 runs.\<close>

definition passed :: kernel where
  "passed = left (sysPasseren uMPS clock family)"

definition passed_sems :: sem_sys where
  "passed_sems = family_sems\<lparr>sval := (sval family_sems)(clock := 0)\<rparr>"

lemma load_clock: "load_int uMPS clock s = Some (g_pseudo_clock s)"
  by (rule load_fields(3) [OF uMPS_ok, of 0]) (simp add: DEVICE_NUMBER_def)

lemma passed: "sysPasseren uMPS clock family = Some (Returns () passed)" "implements uMPS passed passed_sems"
proof -
  have "sval family_sems clock = 1" by (simp add: family_sems_def load_clock family(5))
  then have "sem_step 1 (- 1) clock family_sems = Continues passed_sems"
    by (simp add: sem_step_def passed_sems_def family_sems_def)
  then have "\<exists>s'. sysPasseren uMPS clock family = Some (Returns () s') \<and> implements uMPS s' passed_sems"
    using sem_op_refines [OF uMPS_ok clock_sem(1) family_implements, of 1 "- 1"] by (simp add: sysPasseren_op)
  then show "sysPasseren uMPS clock family = Some (Returns () passed)" "implements uMPS passed passed_sems"
    by (auto simp: passed_def)
qed

definition clocked :: kernel where
  "clocked = left (sysPasseren uMPS clock passed)"

definition clocked_sems :: sem_sys where
  "clocked_sems = passed_sems\<lparr>swaits := (\<lambda>_. [])(clock := [19]), sready := [], srun := 18\<rparr>"

lemma clocked: "implements uMPS clocked clocked_sems"
proof -
  have "sval passed_sems clock = 0" by (simp add: passed_sems_def)
  then have "sem_step 1 (- 1) clock passed_sems = Switches clocked_sems"
    by (simp add: sem_step_def passed_sems_def family_sems_def clocked_sems_def)
  then have "\<exists>e s'. sysPasseren uMPS clock passed = Some (Exits e s') \<and> implements uMPS s' clocked_sems"
    using sem_op_refines [OF uMPS_ok clock_sem(1) passed(2), of 1 "- 1"] by (auto simp: sysPasseren_op)
  then show ?thesis by (auto simp: clocked_def)
qed

lemma clocked_kinv:
  "\<exists>R fs ts. kinv clocked R ((\<lambda>_. [])(clock := [19])) [] fs ts" "g_current_process clocked = Ref 18"
  using clocked by (auto simp: implements_def clocked_sems_def)

section \<open>A process that waits for a device\<close>

text \<open>The process 19 starts the disk 0 and 18 runs; then the disk interrupts.\<close>

definition disk_wait :: kernel where
  "disk_wait = left (sysDoIO uMPS 0x10000054 0x20006000 family)"

definition disk_done :: kernel where
  "disk_done = disk_wait\<lparr>mem := (mem disk_wait)(line_bitmap 3 := 1, 0x10000054 := 1),
     g_old_state := zero_state\<lparr>cause := DISKINTERRUPT\<rparr>\<rparr>"

lemma disk_0: "resolveDeviceAddress uMPS 0x10000054 = int 0"
  by (simp add: resolveDeviceAddress_def uMPS_def device_regs)

lemma index_cases: "i < 4 \<Longrightarrow> i = 0 \<or> i = 1 \<or> i = 2 \<or> i = (3 :: nat)"
  by arith

lemma user_buffer: "user_words uMPS 0x20006000"
  unfolding user_words_def
proof (intro allI impI)
  fix i :: nat assume "i < 4"
  from index_cases [OF this]
  show "outside_kernel uMPS (0x20006000 + 4 * of_nat i) \<and> RAMSTART \<le> 0x20006000 + 4 * of_nat i"
    by (elim disjE) (simp_all add: outside_kernel_def in_sysiostates_def word_pointer_def uMPS_def RAMSTART_def)
qed

lemma disk_wait:
  "\<exists>R fs ts. kinv disk_wait R ((\<lambda>_. [])(sem_sync_addr uMPS 0 := [19])) [] fs ts"
  "g_current_process disk_wait = Ref 18"
  "g_sysiostates disk_wait 0 = \<lparr>sem_mut = 0, sem_sync = 0, waiting_process = Ref 19\<rparr>"
  "cmd_addr (pcbs disk_wait 19) = 0x10000054" "cmd_values (pcbs disk_wait 19) = 0x20006000"
  "\<exists>R. kinv disk_wait R ((\<lambda>_. [])(sem_sync_addr uMPS 0 := [19])) [] (rev [0..<18]) [PNode 19 [PNode 18 []]]"
  "n_type disk_wait = n_type booted" "d \<noteq> 0 \<Longrightarrow> g_sysiostates disk_wait d = g_sysiostates booted d"
proof -
  obtain R where k: "kinv family R (\<lambda>_. []) [18] (rev [0..<18]) [PNode 19 [PNode 18 []]]" using family(2) by blast
  have f: "device_free uMPS 0 (\<lambda>_. []) family"
    using booted(7) [of 0] by (simp add: device_free_def family(7) free_device_def DEVICE_NUMBER_def)
  from sysDoIO_starts [OF uMPS_ok k family(3) disk_0 _ user_buffer f] obtain s' R' where
    s': "sysDoIO uMPS 0x10000054 0x20006000 family = do { r \<leftarrow> scheduler uMPS s'; returning r (\<lambda>_ s. Some (Returns 0 s)) }"
      "kinv s' R' ((\<lambda>_. [])(sem_sync_addr uMPS 0 := [] @ [19])) [18] (rev [0..<18]) [PNode 19 [PNode 18 []]]"
      "g_current_process s' = NULL"
      "g_sysiostates s' = (g_sysiostates family)(0 := \<lparr>sem_mut = 0, sem_sync = 0, waiting_process = Ref 19\<rparr>)"
      "cmd_addr (pcbs s' 19) = 0x10000054" "cmd_values (pcbs s' 19) = 0x20006000" "n_type s' = n_type family" by auto
  have k': "kinv (s'\<lparr>g_current_process := NULL\<rparr>) R' ((\<lambda>_. [])(sem_sync_addr uMPS 0 := [] @ [19])) [18]
      (rev [0..<18]) [PNode 19 [PNode 18 []]]" using s'(2) current_same [OF s'(3)] by simp
  from scheduler_kinv [OF k', of uMPS] obtain h R2 where
    h: "scheduler uMPS s' = Some (Exits (LDST (p_s (pcbs s' 18))) (dispatched 18 h s'))"
      "kinv (dispatched 18 h s') R2 ((\<lambda>_. [])(sem_sync_addr uMPS 0 := [] @ [19])) [] (rev [0..<18])
        [PNode 19 [PNode 18 []]]" by blast
  have d: "disk_wait = dispatched 18 h s'" unfolding disk_wait_def s'(1) h(1) by simp
  show "n_type disk_wait = n_type booted" unfolding d using s'(7) by (simp add: dispatched_def family(13))
  show "g_sysiostates disk_wait d = g_sysiostates booted d" if "d \<noteq> 0" for d
    unfolding d using s'(4) that by (simp add: family(7))
  show "\<exists>R fs ts. kinv disk_wait R ((\<lambda>_. [])(sem_sync_addr uMPS 0 := [19])) [] fs ts"
    unfolding d using h(2) by auto
  show "g_current_process disk_wait = Ref 18"
    "g_sysiostates disk_wait 0 = \<lparr>sem_mut = 0, sem_sync = 0, waiting_process = Ref 19\<rparr>"
    "cmd_addr (pcbs disk_wait 19) = 0x10000054" "cmd_values (pcbs disk_wait 19) = 0x20006000"
    unfolding d using s' by simp_all
  show "\<exists>R. kinv disk_wait R ((\<lambda>_. [])(sem_sync_addr uMPS 0 := [19])) [] (rev [0..<18]) [PNode 19 [PNode 18 []]]"
    unfolding d using h(2) by auto
qed

lemma disk_done:
  "\<exists>R fs ts. kinv disk_done R ((\<lambda>_. [])(sem_sync_addr uMPS 0 := [19])) [] fs ts"
  "g_current_process disk_done = Ref 18"
  "io_pending uMPS 3 0x10000054 0 19 ((\<lambda>_. [])(sem_sync_addr uMPS 0 := [19])) disk_done"
  "devices_ok uMPS ((\<lambda>_. [])(sem_sync_addr uMPS 0 := [19])) disk_done" "namespaces_ok disk_done"
  "findDevRegAddr uMPS 3 disk_done = Some 0x10000054" "p_semAdd (pcbs disk_done p) \<noteq> sem_mut_addr uMPS 0"
proof -
  obtain R fs ts where "kinv disk_wait R ((\<lambda>_. [])(sem_sync_addr uMPS 0 := [19])) [] fs ts" using disk_wait(1) by blast
  then have "kinv disk_done R ((\<lambda>_. [])(sem_sync_addr uMPS 0 := [19])) [] fs ts"
    by (rule kinv_cong) (simp_all add: disk_done_def)
  then show "\<exists>R fs ts. kinv disk_done R ((\<lambda>_. [])(sem_sync_addr uMPS 0 := [19])) [] fs ts" by blast
  show "g_current_process disk_done = Ref 18" by (simp add: disk_done_def disk_wait)
  have "pending_device 1 = Some 0" by (simp add: pending_device_Some)
  then have "findDevRegAddr uMPS 3 disk_done = Some (DEVADDR 3 0)"
    using findDevRegAddr_line [OF uMPS_ok, of 3 disk_done]
    by (simp add: disk_done_def line_bitmap_def INTDEV_BITMAP_def)
  then show f: "findDevRegAddr uMPS 3 disk_done = Some 0x10000054" by (simp add: device_regs)
  have ne: "sem_mut_addr uMPS e \<noteq> sem_sync_addr uMPS 0" if "e < DEVICE_NUMBER" for e
    by (rule sem_addr_distinct(1) [OF uMPS_ok that]) (simp add: DEVICE_NUMBER_def)
  have z: "0 < DEVICE_NUMBER" by (simp add: DEVICE_NUMBER_def)
  obtain R fs ts where k: "kinv disk_wait R ((\<lambda>_. [])(sem_sync_addr uMPS 0 := [19])) [] fs ts" using disk_wait(1) by blast
  show "p_semAdd (pcbs disk_done p) \<noteq> sem_mut_addr uMPS 0"
  proof
    assume "p_semAdd (pcbs disk_done p) = sem_mut_addr uMPS 0"
    then have "p_semAdd (pcbs disk_wait p) = sem_mut_addr uMPS 0" by (simp add: disk_done_def)
    moreover have "sem_mut_addr uMPS 0 \<noteq> 0"
      using sem_addr_fields(1) [OF uMPS_ok z] by (auto simp: sem_addr_def word_pointer_def)
    ultimately have "p \<in> set (((\<lambda>_. [])(sem_sync_addr uMPS 0 := [19])) (sem_mut_addr uMPS 0))"
      using kinvD(3) [OF k] unfolding sem_ptrs_def by metis
    then show False using ne [OF z] by simp
  qed
  show "devices_ok uMPS ((\<lambda>_. [])(sem_sync_addr uMPS 0 := [19])) disk_done"
    unfolding devices_ok_def
  proof (intro allI impI)
    fix e assume e: "e < DEVICE_NUMBER"
    let ?A = "(\<lambda>_. [])(sem_sync_addr uMPS 0 := [19])"
    have "device_busy uMPS 0 19 ?A disk_done" if "e = 0"
      using disk_0 user_buffer by (simp add: device_busy_def disk_done_def disk_wait)
    moreover have "device_idle uMPS e ?A disk_done" if "e \<noteq> 0"
      using disk_wait(8) [OF that] booted(7) [OF e] ne [OF e] sem_addr_distinct(3) [OF uMPS_ok e z] that
      by (simp add: device_idle_def disk_done_def)
    ultimately show "device_ok uMPS e ?A disk_done" unfolding device_ok_def by metis
  qed
  show "namespaces_ok disk_done"
    using booted(12) by (simp add: namespaces_ok_def disk_done_def disk_wait(7) one_namespace NS_PID_def)
  show "io_pending uMPS 3 0x10000054 0 19 ((\<lambda>_. [])(sem_sync_addr uMPS 0 := [19])) disk_done"
    using f ne [OF z] disk_0 user_buffer by (simp add: io_pending_def io_waiting_def disk_done_def disk_wait)
qed

section \<open>The scheduler waits\<close>

text \<open>The process 19, alone, starts the disk 0; the scheduler waits for the interrupt.\<close>

definition disk_alone :: kernel where
  "disk_alone = left (exceptionHandler uMPS (booted\<lparr>g_old_state := call_state SYSCALL_DOIO 0x10000054 0x20006000\<rparr>))"

lemma disk_alone:
  "regular uMPS (Waiting, disk_alone)"
  "g_sysiostates disk_alone 0 = \<lparr>sem_mut = 0, sem_sync = 0, waiting_process = Ref 19\<rparr>"
proof -
  let ?s = "booted\<lparr>g_old_state := call_state SYSCALL_DOIO 0x10000054 0x20006000\<rparr>"
  let ?s1 = "?s\<lparr>g_old_state := (g_old_state ?s)\<lparr>pc_epc := pc_epc (g_old_state ?s) + WORDLEN\<rparr>\<rparr>"
  obtain R where "kinv booted R (\<lambda>_. []) [] (18 # rev [0..<18]) [PNode 19 []]" using booted(2) by blast
  then have k: "kinv ?s1 R (\<lambda>_. []) [] (18 # rev [0..<18]) [PNode 19 []]" by (rule kinv_cong) simp_all
  have f: "device_free uMPS 0 (\<lambda>_. []) ?s1"
    using booted(7) [of 0] by (simp add: device_free_def free_device_def DEVICE_NUMBER_def)
  have c: "g_current_process ?s1 = Ref 19" by (simp add: booted(3))
  from sysDoIO_starts [OF uMPS_ok k c disk_0 _ user_buffer f] obtain s' R' where
    s': "sysDoIO uMPS 0x10000054 0x20006000 ?s1 = do { r \<leftarrow> scheduler uMPS s'; returning r (\<lambda>_ s. Some (Returns 0 s)) }"
      "kinv s' R' ((\<lambda>_. [])(sem_sync_addr uMPS 0 := [] @ [19])) [] (18 # rev [0..<18]) [PNode 19 []]"
      "g_soft_block_count s' = g_soft_block_count ?s1 + 1" "g_process_count s' = g_process_count ?s1"
      "g_sysiostates s' = (g_sysiostates ?s1)(0 := \<lparr>sem_mut = 0, sem_sync = 0, waiting_process = Ref 19\<rparr>)" by auto
  note D = queuesD [OF kinvD(1) [OF s'(2)]]
  have r: "rings (lh s') R'" "R' Ready_queue = Some (map P_list [])" using D(2,5) by simp_all
  obtain t where w: "scheduler uMPS s' = Some (Exits WAIT t)" "g_sysiostates t = g_sysiostates s'"
    using s'(3,4) by (simp add: scheduler_cases [OF r] Let_def booted(4,5))
  have "syscallHandler uMPS ?s1 = Some (Exits WAIT t)"
    using s'(1) w(1) by (simp add: syscallHandler_def call_state_def call_codes)
  moreover have "EXC_SYS uMPS = 8" by (simp add: uMPS_def)
  ultimately have e: "exceptionHandler uMPS ?s = Some (Exits WAIT t)"
    using call_exception [of SYSCALL_DOIO "0x10000054" "0x20006000"] by (simp add: exceptionHandler_def uMPS_def)
  then have t: "disk_alone = t" by (simp add: disk_alone_def)
  have "allowed uMPS Running (Arrives ?s)"
    using booted_support call_exception [of SYSCALL_DOIO "0x10000054" "0x20006000"] user_buffer
    by (simp add: exception_ok_def uMPS_def call_ok_def call_state_def call_codes io_arg_def Let_def)
  from reachable.step [OF booted_reachable this kstep.exception [OF runs_call e]]
  show "regular uMPS (Waiting, disk_alone)" by (simp add: t)
  show "g_sysiostates disk_alone 0 = \<lparr>sem_mut = 0, sem_sync = 0, waiting_process = Ref 19\<rparr>"
    unfolding t w(2) s'(5) by simp
qed

section \<open>A second process waits for the disk\<close>

text \<open>The process 18 creates the process 17 and then asks for the disk that 19 uses; 17 runs.\<close>

definition three :: kernel where
  "three = (case sysCreateProcess uMPS 0x20005000 0 NULL disk_wait of Some (_, s) \<Rightarrow> s | None \<Rightarrow> disk_wait)"

definition busy :: kernel where
  "busy = left (sysDoIO uMPS 0x10000054 0x20006000 three)"

definition busy_done :: kernel where
  "busy_done = busy\<lparr>mem := (mem busy)(line_bitmap 3 := 1, 0x10000054 := 1),
     g_old_state := zero_state\<lparr>cause := DISKINTERRUPT\<rparr>\<rparr>"

definition busy_sems :: ash where
  "busy_sems = (\<lambda>_. [])(sem_sync_addr uMPS 0 := [19], sem_mut_addr uMPS 0 := [18])"

lemma three:
  "\<exists>R. kinv three R ((\<lambda>_. [])(sem_sync_addr uMPS 0 := [19])) [17] (rev [0..<17])
     [PNode 19 [PNode 18 [PNode 17 []]]]"
  "g_current_process three = Ref 18" "g_sysiostates three = g_sysiostates disk_wait"
  "pcbs three 19 = pcbs disk_wait 19"
proof -
  have f: "rev [0..<18] = 17 # rev [0..<17]" by (simp add: upt_rec)
  have w: "word_pointer 0x20005000" by (simp add: word_pointer_def)
  have g: "map (graft 18 17) [PNode 19 [PNode 18 []]] = [PNode 19 [PNode 18 [PNode 17 []]]]" by simp
  obtain R where "kinv disk_wait R ((\<lambda>_. [])(sem_sync_addr uMPS 0 := [19])) [] (rev [0..<18]) [PNode 19 [PNode 18 []]]"
    using disk_wait(6) by blast
  from kinv_create [OF this [unfolded f] disk_wait(2) w, of NULL uMPS 0, unfolded g] obtain h R' where
    c: "sysCreateProcess uMPS 0x20005000 0 NULL disk_wait = Some (pcb_addr uMPS (Ref 17),
         disk_wait\<lparr>lh := h, g_process_count := g_process_count disk_wait + 1,
           pcbs := (pcbs disk_wait)(17 := child_pcb (user_states disk_wait 0x20005000) 0 NULL 18 disk_wait)\<rparr>)"
      "kinv (disk_wait\<lparr>lh := h, g_process_count := g_process_count disk_wait + 1,
           pcbs := (pcbs disk_wait)(17 := child_pcb (user_states disk_wait 0x20005000) 0 NULL 18 disk_wait)\<rparr>)
         R' ((\<lambda>_. [])(sem_sync_addr uMPS 0 := [19])) ([] @ [17]) (rev [0..<17]) [PNode 19 [PNode 18 [PNode 17 []]]]"
    by blast
  have d: "three = disk_wait\<lparr>lh := h, g_process_count := g_process_count disk_wait + 1,
      pcbs := (pcbs disk_wait)(17 := child_pcb (user_states disk_wait 0x20005000) 0 NULL 18 disk_wait)\<rparr>"
    unfolding three_def c(1) by simp
  show "\<exists>R. kinv three R ((\<lambda>_. [])(sem_sync_addr uMPS 0 := [19])) [17] (rev [0..<17])
     [PNode 19 [PNode 18 [PNode 17 []]]]" unfolding d using c(2) by auto
  show "g_current_process three = Ref 18" "g_sysiostates three = g_sysiostates disk_wait"
    "pcbs three 19 = pcbs disk_wait 19" unfolding d using disk_wait(2) by simp_all
qed

lemma mut_sync: "sem_mut_addr uMPS 0 \<noteq> sem_sync_addr uMPS 0"
  by (rule sem_addr_distinct(1) [OF uMPS_ok]) (simp_all add: DEVICE_NUMBER_def)

lemma busy:
  "\<exists>R. kinv busy R busy_sems [] (rev [0..<17]) [PNode 19 [PNode 18 [PNode 17 []]]]"
  "g_current_process busy = Ref 17" "g_sysiostates busy = g_sysiostates disk_wait"
  "cmd_addr (pcbs busy 18) = 0x10000054" "cmd_values (pcbs busy 18) = 0x20006000"
  "cmd_addr (pcbs busy 19) = 0x10000054" "cmd_values (pcbs busy 19) = 0x20006000"
proof -
  obtain R where k: "kinv three R ((\<lambda>_. [])(sem_sync_addr uMPS 0 := [19])) [17] (rev [0..<17])
     [PNode 19 [PNode 18 [PNode 17 []]]]" using three(1) by blast
  have "sem_mut (g_sysiostates three 0) \<noteq> 1" by (simp add: three(3) disk_wait(3))
  from sysDoIO_busy [OF uMPS_ok k three(2) disk_0 this, of "0x20006000"] obtain s' R' e t where
    s': "sysDoIO uMPS 0x10000054 0x20006000 three = Some (Exits e t)" "scheduler uMPS s' = Some (Exits e t)"
      "kinv s' R' (((\<lambda>_. [])(sem_sync_addr uMPS 0 := [19])) (sem_mut_addr uMPS 0 :=
         ((\<lambda>_. [])(sem_sync_addr uMPS 0 := [19])) (sem_mut_addr uMPS 0) @ [18])) [17] (rev [0..<17])
         [PNode 19 [PNode 18 [PNode 17 []]]]"
      "g_current_process s' = NULL" "g_sysiostates s' = g_sysiostates three"
      "cmd_addr (pcbs s' 18) = 0x10000054" "cmd_values (pcbs s' 18) = 0x20006000"
      "\<forall>q. q \<noteq> 18 \<longrightarrow> pcbs s' q = pcbs three q" by blast
  have sems: "((\<lambda>_. [])(sem_sync_addr uMPS 0 := [19])) (sem_mut_addr uMPS 0 :=
      ((\<lambda>_. [])(sem_sync_addr uMPS 0 := [19])) (sem_mut_addr uMPS 0) @ [18]) = busy_sems"
    using mut_sync by (simp add: busy_sems_def)
  have "kinv (s'\<lparr>g_current_process := NULL\<rparr>) R' busy_sems [17] (rev [0..<17]) [PNode 19 [PNode 18 [PNode 17 []]]]"
    using s'(3) unfolding current_same [OF s'(4)] sems .
  from scheduler_kinv [OF this, of uMPS] obtain h R2 where
    h: "scheduler uMPS s' = Some (Exits (LDST (p_s (pcbs s' 17))) (dispatched 17 h s'))"
      "kinv (dispatched 17 h s') R2 busy_sems [] (rev [0..<17]) [PNode 19 [PNode 18 [PNode 17 []]]]" by blast
  have d: "busy = dispatched 17 h s'" using s'(1,2) h(1) by (simp add: busy_def)
  show "\<exists>R. kinv busy R busy_sems [] (rev [0..<17]) [PNode 19 [PNode 18 [PNode 17 []]]]" unfolding d using h(2) by blast
  show "g_current_process busy = Ref 17" "g_sysiostates busy = g_sysiostates disk_wait"
    "cmd_addr (pcbs busy 18) = 0x10000054" "cmd_values (pcbs busy 18) = 0x20006000"
    "cmd_addr (pcbs busy 19) = 0x10000054" "cmd_values (pcbs busy 19) = 0x20006000"
    unfolding d using s' three disk_wait by simp_all
qed

lemma busy_done:
  "\<exists>R. kinv busy_done R busy_sems [] (rev [0..<17]) [PNode 19 [PNode 18 [PNode 17 []]]]"
  "g_current_process busy_done = Ref 17"
  "io_waiting uMPS 3 0x10000054 0 19 busy_sems busy_done"
  "cmd_addr (pcbs busy_done 18) = 0x10000054" "cmd_values (pcbs busy_done 18) = 0x20006000"
proof -
  obtain R where "kinv busy R busy_sems [] (rev [0..<17]) [PNode 19 [PNode 18 [PNode 17 []]]]" using busy(1) by blast
  then have "kinv busy_done R busy_sems [] (rev [0..<17]) [PNode 19 [PNode 18 [PNode 17 []]]]"
    by (rule kinv_cong) (simp_all add: busy_done_def)
  then show "\<exists>R. kinv busy_done R busy_sems [] (rev [0..<17]) [PNode 19 [PNode 18 [PNode 17 []]]]" by blast
  show "g_current_process busy_done = Ref 17" "cmd_addr (pcbs busy_done 18) = 0x10000054"
    "cmd_values (pcbs busy_done 18) = 0x20006000" by (simp_all add: busy_done_def busy)
  have "pending_device 1 = Some 0" by (simp add: pending_device_Some)
  then have "findDevRegAddr uMPS 3 busy_done = Some (DEVADDR 3 0)"
    using findDevRegAddr_line [OF uMPS_ok, of 3 busy_done]
    by (simp add: busy_done_def line_bitmap_def INTDEV_BITMAP_def)
  moreover have "DEVADDR 3 0 = 0x10000054" by (simp add: device_regs)
  ultimately show "io_waiting uMPS 3 0x10000054 0 19 busy_sems busy_done"
    using disk_0 user_buffer mut_sync
    by (simp add: io_waiting_def busy_done_def busy_sems_def busy disk_wait)
qed

end
