(* ===== verification/Conformance.thy ===== *)
theory Conformance
  imports Reachability
begin

text \<open>
  The conformance of the data of the nucleus: every pointer of a descriptor is null or leads to
  a descriptor in use, but for \<open>waiting_process\<close> of a device whose process was terminated.  It is what
  the types of the fields promise, read off the fields and the free list only, without the
  abstract queues and trees of the invariant.
\<close>

section \<open>Conforming descriptors\<close>

definition free_pcbs :: "kernel \<Rightarrow> pcb list \<Rightarrow> bool" where
  "free_pcbs s fs \<longleftrightarrow> (\<exists>R. rings (lh s) R \<and> R PcbFree_h = Some (map P_list fs))"

text \<open>
  The parent of a process in use is in use.  A process with a semaphore is in use, and there is a
  queue of that semaphore.
\<close>

definition pcb_conf :: "kernel \<Rightarrow> pcb set \<Rightarrow> pcb \<Rightarrow> bool" where
  "pcb_conf s L p \<longleftrightarrow>
     (p \<in> L \<longrightarrow> ptr_in L (p_parent (pcbs s p))) \<and>
     (p_semAdd (pcbs s p) \<noteq> 0 \<longrightarrow> p \<in> L \<and> (\<exists>q. headBlocked (p_semAdd (pcbs s p)) s = Some (Ref q)))"

text \<open>
  A device is free, or it serves a process in use, or \<open>sem_sync\<close> is -1: then the process was
  terminated, and \<open>waiting_process\<close> points to its block, in use again or not.
\<close>

definition sysio_conf :: "kernel \<Rightarrow> pcb set \<Rightarrow> nat \<Rightarrow> bool" where
  "sysio_conf s L d \<longleftrightarrow> g_sysiostates s d = free_device \<or>
     (\<exists>w \<in> L. g_sysiostates s d = \<lparr>sem_mut = 0, sem_sync = 0, waiting_process = Ref w\<rparr>) \<or>
     (\<exists>w < MAX_PROC. g_sysiostates s d = \<lparr>sem_mut = 0, sem_sync = - 1, waiting_process = Ref w\<rparr>)"

definition queue_conf :: "kernel \<Rightarrow> pcb set \<Rightarrow> bool" where
  "queue_conf s L \<longleftrightarrow> (\<exists>p. headProcQ (Ref Ready_queue) s = Some p \<and> ptr_in L p) \<and>
     (\<forall>k. \<exists>p. headBlocked k s = Some p \<and> ptr_in L p)"

definition conforms :: "kernel \<Rightarrow> pcb set \<Rightarrow> bool" where
  "conforms s L \<longleftrightarrow> (\<forall>p. pcb_conf s L p) \<and> (\<forall>d < DEVICE_NUMBER. sysio_conf s L d) \<and> queue_conf s L \<and>
     namespaces_ok s"

section \<open>The invariant conforms\<close>

lemma kinv_parent:
  assumes k: "kinv s R A rq fs ts" and p: "p \<in> set (fmembers ts)"
  shows "ptr_in (set (fmembers ts)) (p_parent (pcbs s p))"
proof -
  note F = kinvD(4) [OF k]
  from p obtain u where u: "u \<in> set (fsubtrees ts)" "proot u = p" by (rule fsubtree_of_member)
  from u(1) show ?thesis
  proof (rule fsubtree_parent)
    assume "u \<in> set ts"
    from forest_okD(4) [OF F this] show ?thesis using u(2) by simp
  next
    fix q us assume q: "PNode q us \<in> set (fsubtrees ts)" "u \<in> set us"
    then have "q \<in> set (fmembers ts)" using subtree_members by fastforce
    then show ?thesis using forest_parent [OF F q] u(2) by simp
  qed
qed

lemma minv_conforms:
  assumes m: "minv M (s\<lparr>g_current_process := c\<rparr>) R A rq fs ts"
  shows "conforms s (set (fmembers ts))"
proof -
  let ?L = "set (fmembers ts)"
  note K = minvD [OF m] and Q = queuesD [OF kinvD(1) [OF minvD(1) [OF m]]]
  have a: "ash s R A" using Q(1) by simp
  have blocked: "\<exists>p. headBlocked k s = Some p \<and> ptr_in ?L p" for k
    using headBlocked_ash [OF a, of k] kinv_live(2) [OF K(1), of _ k] by (cases "A k") auto
  have "pcb_conf s ?L p" for p
    unfolding pcb_conf_def
  proof (intro conjI impI)
    show "ptr_in ?L (p_parent (pcbs s p))" if "p \<in> ?L" using kinv_parent [OF K(1) that] by simp
    assume "p_semAdd (pcbs s p) \<noteq> 0"
    then have p: "p \<in> set (A (p_semAdd (pcbs s p)))" using kinvD(3) [OF K(1)] by (simp add: sem_ptrs_def)
    then show "p \<in> ?L" by (rule kinv_live(2) [OF K(1)])
    show "\<exists>q. headBlocked (p_semAdd (pcbs s p)) s = Some (Ref q)"
      using headBlocked_ash [OF a, of "p_semAdd (pcbs s p)"] p by (cases "A (p_semAdd (pcbs s p))") auto
  qed
  moreover have "sysio_conf s ?L d" if "d < DEVICE_NUMBER" for d
    using K(2) that
  proof (cases rule: devices_okE)
    case (2 w)
    then show ?thesis using kinv_live(2) [OF K(1), of w "sem_sync_addr M d"]
      by (auto simp: device_busy_def sysio_conf_def)
  qed (auto simp: device_idle_def device_orphan_def sysio_conf_def)
  moreover have r: "rings (lh s) R" using Q(5) by simp
  have "queue_conf s ?L"
    unfolding queue_conf_def using blocked headProcQ_rings [OF r Q(2)] kinv_live(1) [OF K(1)] by (cases rq) auto
  ultimately show ?thesis using K(3) by (simp add: conforms_def namespaces_ok_def)
qed

lemma kinv_free:
  assumes k: "kinv (s\<lparr>g_current_process := c\<rparr>) R A rq fs ts"
  shows "free_pcbs s fs" "distinct fs" "set (fmembers ts) = {..<MAX_PROC} - set fs"
    "g_process_count s = of_nat (MAX_PROC - length fs)"
proof -
  note D = kinvD(1-6,10) [OF k] and r = queuesD(5) [OF kinvD(1) [OF k]]
  show "free_pcbs s fs" using r D(2) unfolding free_pcbs_def by auto
  have "distinct (map P_list fs)" using shape_distinct [OF rings_shape [OF r] D(2)] by simp
  then show dis: "distinct fs" by (simp add: distinct_map)
  show L: "set (fmembers ts) = {..<MAX_PROC} - set fs" using D(5,6) by blast
  have "length (fmembers ts) = card ({..<MAX_PROC} - set fs)"
    using distinct_card [OF forest_okD(1) [OF D(4)]] L by simp
  also have "\<dots> = MAX_PROC - length fs" using D(6) dis by (subst card_Diff_subset) (auto simp: distinct_card)
  finally show "g_process_count s = of_nat (MAX_PROC - length fs)" using D(7) by simp
qed

text \<open>A running machine, or one that waits, is in a state of the invariant.\<close>

lemma reachable_minv:
  assumes "machine_ok M" "regular M (m, s)" "m = Running \<or> waits m"
  obtains c R A rq fs ts where "minv M (s\<lparr>g_current_process := c\<rparr>) R A rq fs ts"
    "m = Running \<longrightarrow> c = g_current_process s \<and> c \<noteq> NULL"
    "waits m \<longrightarrow> ptr_in (set fs) (g_current_process s)"
proof (cases "m = Running")
  case True
  then have "running M s" using reachable_mode [OF assms(1,2)] by simp
  then show thesis using that current_same [OF refl, of s] True unfolding running_def
    by (metis waits_simps(3))
next
  case False
  then have "idle M s" using reachable_mode [OF assms(1,2)] assms(3) waits_idle by blast
  then show thesis using that False unfolding idle_def by blast
qed

end
