(* ===== verification/Kernel_Theorems.thy ===== *)
theory Kernel_Theorems
  imports Example Conformance
begin

text \<open>
  The properties of the nucleus: what the states of regular runs satisfy, the start, the
  semaphores and the scheduler.
\<close>

section \<open>The life of the machine\<close>

text \<open>C1: In every state of a regular run, one from the start of \<open>main\<close> in which each exception is one that
  \<open>exception_ok\<close> or \<open>interrupt_ok\<close> allows, the invariant holds, of the queues
  and the process tree and of the devices: a process runs; or the scheduler waits with
  processes that wait for a device or the clock and none ready, or after an interrupt that came too early
  for its \<open>WAIT\<close>; or the machine has stopped because no process is left, on a deadlock, or on a bad call.
  Other exceptions may leave the invariant: the termination of a process that is neither the caller
  nor an ancestor, an interrupt of a device with processes at its mutex, one of a device whose process
  was terminated, and one of a terminal but the first, each shown by a theorem of \<open>Process_Theorems\<close> or
  \<open>Device_Theorems\<close>, and bad pointers.\<close>

theorem reachable_invariant:
  assumes "machine_ok M" "regular M x"
  shows "mode_ok M x"
  using assms by (rule reachable_mode)

theorem reachable_invariant_witness: "mode_ok uMPS (Waiting, disk_alone)"
  using reachable_invariant [OF uMPS_ok disk_alone(1)] .

text \<open>C2: From a state of a regular run in which a process runs, every exception that is an interrupt
  of started devices, a system call with arguments as its interface asks for, or a trap, is
  served: the nucleus dereferences no wild pointer, does not run for ever, does not return
  to the BIOS, and its next state is again one of the invariant.\<close>

theorem exception_progress:
  assumes "machine_ok M" "regular M (Running, s)" "machine_runs s s1" "exception_ok M s1"
  shows "\<exists>e s2. exceptionHandler M s1 = Some (Exits e s2) \<and> mode_ok M (mode_of e, s2)"
proof -
  have "running M s" using reachable_mode [OF assms(1,2)] by simp
  from exceptionHandler_running [OF assms(1) running_runs [OF this assms(3)] assms(4)] show ?thesis
    using settled_mode by blast
qed

lemma booted_call: "exception_ok uMPS (booted\<lparr>g_old_state := call_state 9 0 0\<rparr>)"
  using booted_support call_exception [of 9 0 0]
  by (simp add: exception_ok_def uMPS_def call_ok_def call_state_def call_codes Let_def)

theorem exception_progress_witness:
  "\<exists>e s2. exceptionHandler uMPS (booted\<lparr>g_old_state := call_state 9 0 0\<rparr>) = Some (Exits e s2) \<and>
     mode_ok uMPS (mode_of e, s2)"
  using exception_progress [OF uMPS_ok booted_reachable runs_call booted_call] .

text \<open>C3: From a state of a regular run in which the scheduler waits, also after an interrupt that it missed,
  an interrupt of the interval timer or of started devices is served and control comes back to the
  scheduler, which behind its \<open>WAIT\<close> dispatches a process, waits again or stops; the number of processes
  does not change.\<close>

theorem wait_progress:
  assumes "machine_ok M" "regular M (m, s)" "waits m" "machine_runs s s1" "interrupt_ok M s1"
  shows "\<exists>s2 e s3. exceptionHandler M s1 = Some (Exits (LDST (g_old_state s2)) s2) \<and>
     g_process_count s2 = g_process_count s \<and> scheduler_resume M s2 = Some (Exits e s3) \<and> mode_ok M (mode_of e, s3)"
proof -
  have "idle M s" using reachable_mode [OF assms(1,2)] by (rule waits_idle [OF assms(3)])
  from exceptionHandler_waiting [OF assms(1) idle_runs [OF this assms(4)] assms(5)] obtain s2 where
    s2: "exceptionHandler M s1 = Some (Exits (LDST (g_old_state s2)) s2)" "idle M s2"
    "g_process_count s2 = g_process_count s1" by blast
  moreover have "g_process_count s1 = g_process_count s" using assms(4) by (auto simp: machine_runs_def)
  moreover obtain e s3 where "scheduler_resume M s2 = Some (Exits e s3)" "settled M e s3"
    using scheduler_resume_settled [OF s2(2)] by blast
  ultimately show ?thesis using settled_mode by metis
qed

lemma timer_interrupt: "interrupt_ok uMPS (s\<lparr>g_old_state := zero_state\<lparr>cause := TIMERINTERRUPT\<rparr>\<rparr>)"
proof -
  have "drop_bit 2 ((0x400 :: u32) AND 0x7C) = 0" by simp
  moreover have "\<not> bit (0x400 :: u32) b" if "b \<in> {9, 11, 12, 14, 15}" for b
    using and_power [of "0x400" b] that by auto
  ultimately show ?thesis by (force simp: interrupt_ok_def irq_ready_def uMPS_def TIMERINTERRUPT_def)
qed

theorem wait_progress_witness:
  "\<exists>s2 e s3. exceptionHandler uMPS (disk_alone\<lparr>g_old_state := zero_state\<lparr>cause := TIMERINTERRUPT\<rparr>\<rparr>) =
       Some (Exits (LDST (g_old_state s2)) s2) \<and>
     scheduler_resume uMPS s2 = Some (Exits e s3) \<and> mode_ok uMPS (mode_of e, s3)"
  using wait_progress [OF uMPS_ok disk_alone(1) waits_simps(1) runs_call timer_interrupt] by blast

text \<open>C4: In every state of a regular run in which a process runs or the scheduler waits, a device is in one
  of three states.  It is free, with its semaphores as at the start and no process on
  them; or it serves exactly one process: its mutex is taken, that process is recorded, and it
  alone is blocked on the semaphore of the device, with the command that it gave; or the process that
  it served was terminated: its mutex is still taken, \<open>sem_sync\<close> is -1, and no process is blocked on it.\<close>

theorem device_exclusive:
  assumes "machine_ok M" "regular M (m, s)" "m = Running \<or> waits m" "d < DEVICE_NUMBER"
  shows "g_sysiostates s d = free_device \<and>
       (\<forall>p. p_semAdd (pcbs s p) \<noteq> sem_mut_addr M d \<and> p_semAdd (pcbs s p) \<noteq> sem_sync_addr M d) \<or>
     (\<exists>w < MAX_PROC. g_sysiostates s d = \<lparr>sem_mut = 0, sem_sync = 0, waiting_process = Ref w\<rparr> \<and>
       (\<forall>p. p_semAdd (pcbs s p) = sem_sync_addr M d \<longleftrightarrow> p = w) \<and>
       resolveDeviceAddress M (cmd_addr (pcbs s w)) = int d) \<or>
     (\<exists>w < MAX_PROC. g_sysiostates s d = \<lparr>sem_mut = 0, sem_sync = - 1, waiting_process = Ref w\<rparr> \<and>
       (\<forall>p. p_semAdd (pcbs s p) \<noteq> sem_sync_addr M d))"
proof -
  obtain c R A rq fs ts where m: "minv M (s\<lparr>g_current_process := c\<rparr>) R A rq fs ts"
    by (rule reachable_minv [OF assms(1-3)])
  note K = minvD [OF m] and Q = queuesD [OF kinvD(1) [OF minvD(1) [OF m]]]
  have sem: "p_semAdd (pcbs s p) = k \<longleftrightarrow> p \<in> set (A k)" if "k \<noteq> 0" for p k
    using that kinvD(3) [OF K(1)] ash_semAdd [OF Q(1), of p k] by (auto simp: sem_ptrs_def)
  have nz: "sem_mut_addr M d \<noteq> 0" "sem_sync_addr M d \<noteq> 0"
    using sem_addr_fields(1,2) [OF assms(1,4)] by (auto simp: sem_addr_def word_pointer_def)
  from K(2) assms(4) show ?thesis
  proof (cases rule: devices_okE)
    case 1
    then show ?thesis using nz by (simp add: device_idle_def sem)
  next
    case (2 w)
    then have "w < MAX_PROC" using Q(3) [of "sem_sync_addr M d"] by (simp add: device_busy_def)
    then show ?thesis using 2 nz by (auto simp: device_busy_def sem)
  next
    case 3
    then show ?thesis using nz by (auto simp: device_orphan_def sem)
  qed
qed

theorem device_exclusive_witness:
  "waiting_process (g_sysiostates disk_alone 0) = Ref 19 \<and>
     (\<forall>p. p_semAdd (pcbs disk_alone p) = sem_sync_addr uMPS 0 \<longleftrightarrow> p = 19)"
  using device_exclusive [OF uMPS_ok disk_alone(1) disjI2 [OF waits_simps(1)], of 0]
  by (auto simp: DEVICE_NUMBER_def disk_alone free_device_def)

text \<open>C5: The data of the nucleus is well typed in every state of a regular run in which a process runs or the
  scheduler waits: outside the free list, the process that runs, the parents of processes, the process
  that a device serves and the heads of all queues are null or processes in use, no free block is
  blocked, the values of the device semaphores and the types of the namespaces are in their
  ranges, and \<open>g_process_count\<close> counts the blocks in use.  Two pointers may lead to a block that was
  freed: \<open>waiting_process\<close> of a device whose process was terminated, with \<open>sem_sync\<close> at -1, to any block,
  and \<open>g_current_process\<close>, while the scheduler waits, null or to a block of the free list.\<close>

theorem reachable_conforms:
  assumes "machine_ok M" "regular M (m, s)" "m = Running \<or> waits m"
  shows "\<exists>fs. free_pcbs s fs \<and> distinct fs \<and> conforms s ({..<MAX_PROC} - set fs) \<and>
     g_process_count s = of_nat (MAX_PROC - length fs) \<and>
     (m = Running \<longrightarrow> (\<exists>p. p \<in> {..<MAX_PROC} - set fs \<and> g_current_process s = Ref p)) \<and>
     (waits m \<longrightarrow> g_current_process s = NULL \<or> (\<exists>p \<in> set fs. g_current_process s = Ref p))"
proof -
  obtain c R A rq fs ts where m: "minv M (s\<lparr>g_current_process := c\<rparr>) R A rq fs ts"
    and run: "m = Running \<longrightarrow> c = g_current_process s \<and> c \<noteq> NULL"
    and wait: "waits m \<longrightarrow> ptr_in (set fs) (g_current_process s)"
    by (rule reachable_minv [OF assms])
  note k = minvD(1) [OF m] and F = kinv_free [OF minvD(1) [OF m]]
  have "conforms s ({..<MAX_PROC} - set fs)" using minv_conforms [OF m] unfolding F(3) .
  moreover have "\<exists>p. p \<in> {..<MAX_PROC} - set fs \<and> g_current_process s = Ref p" if "m = Running"
  proof -
    from that run obtain p where "c = Ref p" by (cases c) auto
    moreover from this that run have "g_current_process s = Ref p" by simp
    ultimately show ?thesis using kinv_live(3) [OF k, of p] F(3) by auto
  qed
  moreover have "waits m \<longrightarrow> g_current_process s = NULL \<or> (\<exists>p \<in> set fs. g_current_process s = Ref p)"
    using wait by (cases "g_current_process s") auto
  ultimately show ?thesis using F(1,2,4) by blast
qed

theorem reachable_conforms_witness:
  "\<exists>fs. free_pcbs disk_alone fs \<and> conforms disk_alone ({..<MAX_PROC} - set fs)"
  using reachable_conforms [OF uMPS_ok disk_alone(1) disjI2 [OF waits_simps(1)]] by blast

text \<open>C6: \<open>main\<close> turns the static storage into a state of the invariant with one process, the
  first to be taken from the table, which runs \<open>test\<close> with interrupts on and the stack at the
  top of the RAM; all devices are free, the timers and the passup vector are set.\<close>

theorem main_boots:
  assumes "machine_ok M" "static_storage s"
  shows "\<exists>s' R. main M s = Some (Exits (LDST (init_state M s)) s') \<and>
     kinv s' R (\<lambda>_. []) [] (rev [0..<MAX_PROC - 1]) [PNode (MAX_PROC - 1) []] \<and>
     g_current_process s' = Ref (MAX_PROC - 1) \<and> g_process_count s' = 1 \<and> g_soft_block_count s' = 0 \<and>
     (\<forall>d < DEVICE_NUMBER. g_sysiostates s' d = free_device) \<and> passupvector s' = handlers M \<and>
     interval_timer s' = PSECOND \<and> cpu_timer s' = TIMESLICE"
  using main_kinv [OF assms] by blast

theorem main_boots_witness:
  "\<exists>s' R. main uMPS power_on = Some (Exits (LDST (init_state uMPS power_on)) s') \<and>
     kinv s' R (\<lambda>_. []) [] (rev [0..<MAX_PROC - 1]) [PNode (MAX_PROC - 1) []]"
  using main_boots [OF uMPS_ok power_on_static] by blast

text \<open>C20: \<open>exceptionHandler\<close> never returns to its caller, from any state: every run of it that is
  defined ends in \<open>LDST\<close>, \<open>LDCXT\<close>, \<open>WAIT\<close>, \<open>HALT\<close>, \<open>PANIC\<close> or the endless loop of the scheduler.\<close>

theorem exceptionHandler_leaves: "exceptionHandler M s \<noteq> Some (Returns x s')"
  using exceptionHandler_no_return [of M s] by auto

section \<open>Semaphores\<close>

text \<open>C7: \<open>sysPasseren\<close> refines the P operation of the abstract system of binary semaphores, on a
  semaphore in user memory, of a device or of the clock: on 1 the value becomes 0 or the
  first waiting process becomes ready, otherwise the caller, its state saved, waits at the end
  of the queue and the first ready process runs; no other semaphore changes.\<close>

theorem sysPasseren_refines:
  assumes "machine_ok M" "sem_addr M a" "implements M s \<sigma>"
  shows "refines M s (srun \<sigma>) (P_step a \<sigma>) (sysPasseren M a s)"
  unfolding P_step_def sysPasseren_op by (rule sem_op_refines [OF assms])

theorem sysPasseren_refines_witness:
  "refines uMPS family 19 (P_step clock family_sems) (sysPasseren uMPS clock family)"
  using sysPasseren_refines [OF uMPS_ok clock_sem(1) family_implements] by (simp add: family_sems_def)

text \<open>C8: \<open>sysVerhogen\<close> refines the V operation: on 0 the value becomes 1 or the first waiting
  process becomes ready, otherwise the caller waits.\<close>

theorem sysVerhogen_refines:
  assumes "machine_ok M" "sem_addr M a" "implements M s \<sigma>"
  shows "refines M s (srun \<sigma>) (V_step a \<sigma>) (sysVerhogen M a s)"
  unfolding V_step_def sysVerhogen_op by (rule sem_op_refines [OF assms])

theorem sysVerhogen_refines_witness:
  "refines uMPS clocked 18 (V_step clock clocked_sems) (sysVerhogen uMPS clock clocked)"
  using sysVerhogen_refines [OF uMPS_ok clock_sem(1) clocked] by (simp add: clocked_sems_def)

section \<open>The scheduler\<close>

text \<open>C9: The scheduler runs the first ready process with a full time slice and keeps the
  invariant; with no ready process it halts when no process is left, waits when some process
  waits for a device or the clock, and panics when every process waits for another one.\<close>

theorem scheduler_decision:
  assumes "kinv (s\<lparr>g_current_process := NULL\<rparr>) R A rq fs ts"
  shows "case rq of
      q # qs \<Rightarrow> \<exists>s' R'. scheduler M s = Some (Exits (LDST (p_s (pcbs s q))) s') \<and> kinv s' R' A qs fs ts \<and>
        g_current_process s' = Ref q \<and> cpu_timer s' = TIMESLICE
    | [] \<Rightarrow> \<exists>s'. scheduler M s = Some (Exits (if fmembers ts = [] then HALT
          else if 0 < sint (g_soft_block_count s) then WAIT
          else if g_soft_block_count s = 0 then PANIC else SPIN) s')"
proof (cases rq)
  case (Cons q qs)
  from scheduler_kinv [OF assms [unfolded Cons], of M] obtain h R' where
    h: "scheduler M s = Some (Exits (LDST (p_s (pcbs s q))) (dispatched q h s))"
      "kinv (dispatched q h s) R' A qs fs ts" by blast
  moreover have "cpu_timer (dispatched q h s) = TIMESLICE" by (simp add: dispatched_def)
  ultimately show ?thesis using Cons by auto
next
  case Nil
  note D = queuesD [OF kinvD(1) [OF assms]]
  have r: "rings (lh s) R" "R Ready_queue = Some (map P_list [])" using D(2,5) Nil by simp_all
  have n: "sint (g_process_count s) = int (length (fmembers ts))" using kinv_count(2) [OF assms] by simp
  then have "g_process_count s = 0 \<longleftrightarrow> fmembers ts = []" by (metis length_0_conv of_nat_0 of_nat_eq_0_iff signed_eq_0_iff)
  then show ?thesis using Nil n unfolding scheduler_cases [OF r] Let_def by auto
qed

theorem scheduler_decision_witness:
  "\<exists>s R fs ts s' R'. kinv (s\<lparr>g_current_process := NULL\<rparr>) R (\<lambda>_. []) [18, 19] fs ts \<and>
     scheduler uMPS s = Some (Exits (LDST (p_s (pcbs s 18))) s') \<and> kinv s' R' (\<lambda>_. []) [19] fs ts"
proof -
  obtain R where k: "kinv family R (\<lambda>_. []) [18] (rev [0..<18]) [PNode 19 [PNode 18 []]]" using family(2) by blast
  from handleLocalTimer_kinv [OF k family(3)] obtain s1 R1 where
    s1: "kinv s1 R1 (\<lambda>_. []) [18, 19] (rev [0..<18]) [PNode 19 [PNode 18 []]]" "g_current_process s1 = NULL" by force
  note k1 = kinv_none [OF s1]
  obtain s' R' where "scheduler uMPS s1 = Some (Exits (LDST (p_s (pcbs s1 18))) s')"
    "kinv s' R' (\<lambda>_. []) [19] (rev [0..<18]) [PNode 19 [PNode 18 []]]"
    using scheduler_decision [OF k1, of uMPS] by auto
  with k1 show ?thesis by blast
qed

end
