(* ===== verification/Round_Robin.thy ===== *)
theory Round_Robin
  imports Reachability
begin

text \<open>
  The scheduling of the ready processes: the interrupts of the local timer turn the queue of
  the running process and the ready ones round.
\<close>

section \<open>One time slice\<close>

text \<open>The current process, its state saved, is the last ready one and the first one runs.\<close>

lemma handleLocalTimer_next:
  assumes "kinv s R A rq fs ts" "g_current_process s = Ref p" "rq @ [p] = q # qs"
  shows "\<exists>s' R'. handleLocalTimer M s = Some (Exits (LDST (if q = p then g_old_state s else p_s (pcbs s q))) s') \<and>
     kinv s' R' A qs fs ts \<and> g_current_process s' = Ref q \<and> cpu_timer s' = TIMESLICE \<and>
     pcbs s' = (pcbs s)(p := (pcbs s p)\<lparr>p_s := g_old_state s\<rparr>) \<and>
     mem s' = mem s \<and> g_sysiostates s' = g_sysiostates s \<and> n_type s' = n_type s"
proof -
  from handleLocalTimer_kinv [OF assms(1,2), of M] obtain h R1 where
    h: "handleLocalTimer M s = scheduler M (s\<lparr>lh := h, g_current_process := NULL,
       pcbs := (pcbs s)(p := (pcbs s p)\<lparr>p_s := g_old_state s\<rparr>)\<rparr>)" (is "_ = scheduler M ?s1")
     "kinv (s\<lparr>lh := h, g_current_process := NULL, pcbs := (pcbs s)(p := (pcbs s p)\<lparr>p_s := g_old_state s\<rparr>)\<rparr>)
       R1 A (rq @ [p]) fs ts" by blast
  have "kinv (?s1\<lparr>g_current_process := NULL\<rparr>) R1 A (q # qs) fs ts"
    using kinv_none [OF h(2)] unfolding assms(3) by simp
  from scheduler_kinv [OF this, of M] obtain h2 R2 where
    d: "scheduler M ?s1 = Some (Exits (LDST (p_s (pcbs ?s1 q))) (dispatched q h2 ?s1))"
      "kinv (dispatched q h2 ?s1) R2 A qs fs ts" by blast
  show ?thesis unfolding h(1) d(1) using d(2)
    by (intro exI [of _ "dispatched q h2 ?s1"] exI [of _ R2]) (simp add: dispatched_def)
qed

text \<open>The saved state of an interrupt of the local timer.\<close>

definition slice_over :: "machine \<Rightarrow> state_t \<Rightarrow> bool" where
  "slice_over M st \<longleftrightarrow> CAUSE_GET_EXCCODE M (cause st) = EXC_INT M \<and> bit (cause st) 9"

lemma kinv_clear: "kinv s R A rq fs ts \<Longrightarrow> kinv (clear_cause b s) R A rq fs ts"
  by (erule kinv_cong) (simp_all add: clear_cause_def)

lemma interruptHandler_timer:
  assumes "bit (cause (g_old_state s)) 9"
    and "handleLocalTimer M (clear_cause LOCALTIMERINT s) = Some (Exits e s')"
  shows "interruptHandler M INTERRUPT_LINES s = handleLocalTimer M (clear_cause LOCALTIMERINT s)"
proof -
  have six: "INTERRUPT_LINES = Suc 5" by (simp add: INTERRUPT_LINES_def)
  have "serve_first M s = handleLocalTimer M (clear_cause LOCALTIMERINT s)"
    using assms(1) by (simp add: serve_first_def)
  then show ?thesis unfolding six interruptHandler_step assms(2) by simp
qed

text \<open>The local timer is served alone: the other lines stay pending, in the saved state of the process.\<close>

lemma interruptHandler_slice:
  assumes m: "minv M s R A rq fs ts" and p: "g_current_process s = Ref p" and q: "rq @ [p] = q # qs"
    and b: "bit (cause (g_old_state s)) 9"
  shows "\<exists>s' R'. interruptHandler M INTERRUPT_LINES s =
       Some (Exits (LDST (if q = p then g_old_state (clear_cause LOCALTIMERINT s) else p_s (pcbs s q))) s') \<and>
     minv M s' R' A qs fs ts \<and> g_current_process s' = Ref q \<and> mem s' = mem s \<and> g_sysiostates s' = g_sysiostates s \<and>
     pending (cause (p_s (pcbs s' p))) = pending (cause (g_old_state s)) - {9} \<and>
     (p_s (pcbs s' p))\<lparr>cause := 0\<rparr> = (g_old_state s)\<lparr>cause := 0\<rparr>"
proof -
  let ?s = "clear_cause LOCALTIMERINT s"
  note K = minvD [OF m]
  have "g_current_process ?s = Ref p" using p by (simp add: clear_cause_def)
  from handleLocalTimer_next [OF kinv_clear [OF K(1)] this q, of M] obtain s' R' where
    s': "handleLocalTimer M ?s = Some (Exits (LDST (if q = p then g_old_state ?s else p_s (pcbs ?s q))) s')"
    "kinv s' R' A qs fs ts" "g_current_process s' = Ref q"
    "pcbs s' = (pcbs ?s)(p := (pcbs ?s p)\<lparr>p_s := g_old_state ?s\<rparr>)"
    "mem s' = mem ?s" "g_sysiostates s' = g_sysiostates ?s" "n_type s' = n_type ?s" by blast
  have "devices_ok M A s'"
    by (rule devices_ok_cong [OF K(2)]) (simp_all add: s'(4,6) clear_cause_def)
  moreover have "namespaces_ok s'" using K(3) by (simp add: namespaces_ok_def s'(7) clear_cause_def)
  ultimately have "minv M s' R' A qs fs ts" using s'(2) by (simp add: minv_def)
  moreover have "pending (cause (g_old_state s) AND NOT LOCALTIMERINT) = pending (cause (g_old_state s)) - {9}"
    unfolding line_masks by (rule pending_clear)
  ultimately show ?thesis using s' unfolding interruptHandler_timer [OF b s'(1)]
    by (intro exI [of _ s'] exI [of _ R']) (simp add: clear_cause_def)
qed

lemma time_slice:
  assumes k: "kinv s R A rq fs ts" and p: "g_current_process s = Ref p" and q: "rq @ [p] = q # qs"
    and st: "slice_over M st"
  shows "\<exists>s' R'. exceptionHandler M (s\<lparr>g_old_state := st\<rparr>) =
       Some (Exits (LDST (if q = p then st\<lparr>cause := cause st AND NOT LOCALTIMERINT\<rparr> else p_s (pcbs s q))) s') \<and>
     kinv s' R' A qs fs ts \<and> g_current_process s' = Ref q \<and>
     (\<forall>r. p_s (pcbs s' r) = (if r = p then st\<lparr>cause := cause st AND NOT LOCALTIMERINT\<rparr> else p_s (pcbs s r)))"
proof -
  let ?s = "s\<lparr>g_old_state := st\<rparr>"
  obtain f tod n where f: "updateProcessTime ?s = Some (?s\<lparr>pcbs := f, g_tod := tod, tod_reads := n\<rparr>)"
    "\<And>p. (f p)\<lparr>p_time := 0\<rparr> = (pcbs ?s p)\<lparr>p_time := 0\<rparr>" using updateProcessTime_cases [of ?s] by metis
  let ?s1 = "?s\<lparr>pcbs := f, g_tod := tod, tod_reads := n\<rparr>"
  have same: "p_s (f r) = p_s (pcbs s r)" "p_semAdd (f r) = p_semAdd (pcbs s r)" "p_parent (f r) = p_parent (pcbs s r)" for r
    using arg_cong [OF f(2) [of r], of p_s] arg_cong [OF f(2) [of r], of p_semAdd]
      arg_cong [OF f(2) [of r], of p_parent] by simp_all
  have "kinv ?s1 R A rq fs ts" by (rule kinv_cong [OF k]) (simp_all add: same)
  then have k1: "kinv (clear_cause LOCALTIMERINT ?s1) R A rq fs ts" by (rule kinv_clear)
  have "g_current_process (clear_cause LOCALTIMERINT ?s1) = Ref p" using p by (simp add: clear_cause_def)
  from handleLocalTimer_next [OF k1 this q, of M] obtain s' R' where
    s': "handleLocalTimer M (clear_cause LOCALTIMERINT ?s1) =
      Some (Exits (LDST (if q = p then g_old_state (clear_cause LOCALTIMERINT ?s1)
        else p_s (pcbs (clear_cause LOCALTIMERINT ?s1) q))) s')"
    "kinv s' R' A qs fs ts" "g_current_process s' = Ref q"
    "pcbs s' = (pcbs (clear_cause LOCALTIMERINT ?s1))(p :=
       (pcbs (clear_cause LOCALTIMERINT ?s1) p)\<lparr>p_s := g_old_state (clear_cause LOCALTIMERINT ?s1)\<rparr>)" by blast
  have "exceptionHandler M ?s = interruptHandler M INTERRUPT_LINES ?s1"
    using st f(1) by (simp add: exceptionHandler_def slice_over_def)
  also have "\<dots> = handleLocalTimer M (clear_cause LOCALTIMERINT ?s1)"
    using st by (intro interruptHandler_timer [OF _ s'(1)]) (simp add: slice_over_def)
  finally have "exceptionHandler M ?s = handleLocalTimer M (clear_cause LOCALTIMERINT ?s1)" .
  then show ?thesis using s' by (intro exI [of _ s'] exI [of _ R']) (auto simp: clear_cause_def same)
qed

section \<open>Many time slices\<close>

text \<open>The state after the exceptions with the saved states \<open>sts\<close>, each of which dispatches a process.\<close>

fun slices :: "machine \<Rightarrow> state_t list \<Rightarrow> kernel \<Rightarrow> kernel option" where
  "slices M [] s = Some s"
| "slices M (st # sts) s = (case exceptionHandler M (s\<lparr>g_old_state := st\<rparr>) of
      Some (Exits (LDST x) s') \<Rightarrow> slices M sts s'
    | _ \<Rightarrow> None)"

lemma slices_rotate:
  "kinv s R A rq fs ts \<Longrightarrow> g_current_process s = Ref p \<Longrightarrow> \<forall>st \<in> set sts. slice_over M st \<Longrightarrow>
   rotate (length sts) (p # rq) = q # qs \<Longrightarrow>
   \<exists>s' R'. slices M sts s = Some s' \<and> kinv s' R' A qs fs ts \<and> g_current_process s' = Ref q"
proof (induction sts arbitrary: s R rq p)
  case (Cons st sts)
  obtain r rs where r: "rq @ [p] = r # rs" by (cases "rq @ [p]") auto
  from time_slice [OF Cons.prems(1,2) r, of M st] Cons.prems(3) obtain x s1 R1 where
    s1: "exceptionHandler M (s\<lparr>g_old_state := st\<rparr>) = Some (Exits (LDST x) s1)" "kinv s1 R1 A rs fs ts"
      "g_current_process s1 = Ref r" by auto
  have "rotate (length sts) (r # rs) = q # qs"
    using Cons.prems(4) r by (simp add: rotate1_rotate_swap)
  from Cons.IH [OF s1(2,3) _ this] Cons.prems(3) show ?case by (simp add: s1(1))
qed auto

text \<open>Every process that is ready or running gets the processor within as many slices as there are such processes.\<close>

lemma slices_reach:
  assumes k: "kinv s R A rq fs ts" "g_current_process s = Ref p" and q: "q \<in> set (p # rq)"
    and st: "\<forall>st \<in> set sts. slice_over M st" "length sts = length rq"
  shows "\<exists>n \<le> length rq. \<exists>s' R' qs. slices M (take n sts) s = Some s' \<and> g_current_process s' = Ref q \<and>
    kinv s' R' A qs fs ts \<and> set (q # qs) = set (p # rq)"
proof -
  obtain n where n: "n < length (p # rq)" "(p # rq) ! n = q" using q unfolding in_set_conv_nth by blast
  have "rotate n (p # rq) = drop n (p # rq) @ take n (p # rq)"
    using n(1) by (simp add: rotate_drop_take)
  moreover have "drop n (p # rq) = q # drop (Suc n) (p # rq)" using Cons_nth_drop_Suc [OF n(1)] n(2) by simp
  moreover have "length (take n sts) = n" using n(1) st(2) by simp
  ultimately have r: "rotate (length (take n sts)) (p # rq) = q # (drop (Suc n) (p # rq) @ take n (p # rq))" by simp
  moreover have "\<forall>st \<in> set (take n sts). slice_over M st" using st(1) set_take_subset by fast
  ultimately obtain s' R' where "slices M (take n sts) s = Some s'"
    "kinv s' R' A (drop (Suc n) (p # rq) @ take n (p # rq)) fs ts" "g_current_process s' = Ref q"
    using slices_rotate [OF k] by blast
  moreover have "n \<le> length rq" using n(1) by simp
  moreover have "set (q # (drop (Suc n) (p # rq) @ take n (p # rq))) = set (p # rq)"
    using arg_cong [OF r, of set] by simp
  ultimately show ?thesis by blast
qed

end
