(* ===== verification/Process_Theorems.thy ===== *)
theory Process_Theorems
  imports Kernel_Theorems Round_Robin
begin

text \<open>
  The properties of the system calls on processes, and of the timers.
\<close>

section \<open>Creation\<close>

text \<open>C10: \<open>sysCreateProcess\<close> takes the first free block, gives it the state, the support structure and
  the namespaces of the caller or the given one, makes it the last child of the caller and the
  last ready process, counts it, returns its address, and keeps the invariant.\<close>

theorem sysCreateProcess_spec:
  assumes "kinv s R A rq (p # fs) ts" "g_current_process s = Ref q" "word_pointer statep"
    and "ns = NULL \<or> (\<exists>n. ns = Ref n \<and> n_type s n < NS_TYPE_MAX)"
  shows "\<exists>s' R'. sysCreateProcess M statep supportp ns s = Some (pcb_addr M (Ref p), s') \<and>
     kinv s' R' A (rq @ [p]) fs (map (graft q p) ts) \<and>
     pcbs s' = (pcbs s)(p := child_pcb (user_states s statep) supportp ns q s) \<and>
     g_process_count s' = g_process_count s + 1 \<and> g_current_process s' = Ref q"
proof -
  from kinv_create [OF assms, of M supportp] obtain h R' where
    h: "sysCreateProcess M statep supportp ns s = Some (pcb_addr M (Ref p),
       s\<lparr>lh := h, g_process_count := g_process_count s + 1,
          pcbs := (pcbs s)(p := child_pcb (user_states s statep) supportp ns q s)\<rparr>)"
      "kinv (s\<lparr>lh := h, g_process_count := g_process_count s + 1,
          pcbs := (pcbs s)(p := child_pcb (user_states s statep) supportp ns q s)\<rparr>)
       R' A (rq @ [p]) fs (map (graft q p) ts)" by blast
  show ?thesis by (intro exI conjI, rule h(1), rule h(2)) (simp_all add: assms(2))
qed

theorem sysCreateProcess_spec_witness:
  "\<exists>s' R'. sysCreateProcess uMPS 0x20005000 0 NULL booted = Some (pcb_addr uMPS (Ref 18), s') \<and>
     kinv s' R' (\<lambda>_. []) [18] (rev [0..<18]) [PNode 19 [PNode 18 []]]"
proof -
  obtain R where k: "kinv booted R (\<lambda>_. []) [] (18 # rev [0..<18]) [PNode 19 []]" using booted(2) by blast
  have w: "word_pointer 0x20005000" by (simp add: word_pointer_def)
  from sysCreateProcess_spec [OF k booted(3) w, of NULL uMPS 0] show ?thesis unfolding graft_19 by auto
qed

text \<open>Without a free block \<open>sysCreateProcess\<close> returns -1 and changes nothing.\<close>

theorem sysCreateProcess_full:
  assumes "kinv s R A rq [] ts"
  shows "sysCreateProcess M statep supportp ns s = Some (- 1, s)"
proof -
  note k = kinvD [OF assms]
  have "allocPcb s = Some (NULL, s)" using allocPcb_exhausted [OF queuesD(5) [OF k(1)]] k(2) by simp
  then show ?thesis by (simp add: sysCreateProcess_def)
qed

text \<open>Creation repeated until the table is full.\<close>

lemma kinv_fill:
  assumes "kinv s R A rq fs ts" "g_current_process s = Ref q"
  shows "\<exists>s' R' rq' ts'. kinv s' R' A rq' [] ts'"
  using assms
proof (induction fs arbitrary: s R rq ts)
  case Nil
  then show ?case by blast
next
  case (Cons p fs)
  have w: "word_pointer 0x20005000" by (simp add: word_pointer_def)
  from sysCreateProcess_spec [OF Cons.prems w, of NULL uMPS 0] obtain s' R' where
    "kinv s' R' A (rq @ [p]) fs (map (graft q p) ts)" "g_current_process s' = Ref q" by blast
  then show ?case by (rule Cons.IH)
qed

theorem sysCreateProcess_full_witness:
  "\<exists>s R rq ts. kinv s R (\<lambda>_. []) rq [] ts \<and> sysCreateProcess uMPS 0x20005000 0 NULL s = Some (- 1, s)"
proof -
  obtain R where "kinv booted R (\<lambda>_. []) [] (18 # rev [0..<18]) [PNode 19 []]" using booted(2) by blast
  then obtain s R' rq ts where k: "kinv s R' (\<lambda>_. []) rq [] ts" using kinv_fill booted(3) by blast
  then show ?thesis using sysCreateProcess_full [OF k] by blast
qed

section \<open>Termination\<close>

text \<open>C11: \<open>sysTerminateProcess\<close> of the caller or of an ancestor cuts the tree of that process out: all
  its members leave the ready queue and the semaphores, keeping the order of the others, their
  blocks are freed, children before parents, and they are no longer counted; the invariant
  holds and the scheduler takes over.\<close>

theorem sysTerminateProcess_tree:
  assumes "machine_ok M" "kinv s R A rq fs ts" "u \<in> set (fsubtrees ts)"
    and "g_current_process s = Ref p" "p \<in> set (members u)"
    and "pid = 0 \<and> proot u = p \<or> pid = pcb_addr M (Ref (proot u))"
  shows "\<exists>s' R'. sysTerminateProcess M pid s = scheduler M s' \<and>
     kinv (s'\<lparr>g_current_process := NULL\<rparr>) R' (\<lambda>k. keep (members u) (A k)) (keep (members u) rq)
       (rev (postorder u) @ fs) (prune_all (proot u) ts) \<and>
     g_process_count s' = g_process_count s - of_nat (length (members u))"
proof -
  from sysTerminateProcess_kinv [OF assms] obtain h x R' where
    k: "sysTerminateProcess M pid s = scheduler M (killed M s (members u) (length (members u)) h x)"
     "kinv ((killed M s (members u) (length (members u)) h x)\<lparr>g_current_process := NULL\<rparr>) R'
       (\<lambda>k. keep (members u) (A k)) (keep (members u) rq) (rev (postorder u) @ fs) (prune_all (proot u) ts)" by blast
  show ?thesis unfolding k(1) by (intro exI conjI, rule refl, rule k(2)) (simp add: killed_def)
qed

theorem sysTerminateProcess_tree_witness:
  "\<exists>s' R'. sysTerminateProcess uMPS 0 family = scheduler uMPS s' \<and>
     kinv (s'\<lparr>g_current_process := NULL\<rparr>) R' (\<lambda>_. []) [] (19 # 18 # rev [0..<18]) [] \<and> g_process_count s' = 0"
proof -
  obtain R where k: "kinv family R (\<lambda>_. []) [18] (rev [0..<18]) [PNode 19 [PNode 18 []]]" using family(2) by blast
  have u: "PNode 19 [PNode 18 []] \<in> set (fsubtrees [PNode 19 [PNode 18 []]])" by simp
  from sysTerminateProcess_tree [OF uMPS_ok k u family(3), of 0] show ?thesis
    by (simp add: keep_def family(12))
qed

text \<open>When the scheduler waits after such a termination, \<open>g_current_process\<close> still points to the block of
  the process, which is free.\<close>

theorem terminated_stays_current:
  assumes "machine_ok M" "kinv s R A rq fs ts" "u \<in> set (fsubtrees ts)"
    and "g_current_process s = Ref p" "p \<in> set (members u)"
    and "pid = 0 \<and> proot u = p \<or> pid = pcb_addr M (Ref (proot u))"
    and "sysTerminateProcess M pid s = Some (Exits WAIT s')"
  shows "g_current_process s' = Ref p \<and> free_pcbs s' (rev (postorder u) @ fs) \<and> p \<in> set (rev (postorder u) @ fs)"
proof -
  let ?fs = "rev (postorder u) @ fs" and ?rq = "keep (members u) rq"
  from sysTerminateProcess_kinv [OF assms(1-6)] obtain h x R' where
    k: "sysTerminateProcess M pid s = scheduler M (killed M s (members u) (length (members u)) h x)"
     "kinv ((killed M s (members u) (length (members u)) h x)\<lparr>g_current_process := NULL\<rparr>) R'
       (\<lambda>k. keep (members u) (A k)) ?rq ?fs (prune_all (proot u) ts)" by blast
  let ?s = "killed M s (members u) (length (members u)) h x"
  have w: "scheduler M ?s = Some (Exits WAIT s')" using assms(7) k(1) by simp
  have "?rq = []" using scheduler_kinv [of ?s R' _ _ _ ?fs _ M] k(2) w by (cases ?rq) fastforce+
  then have r: "rings (lh ?s) R'" "R' Ready_queue = Some (map P_list [])"
    using queuesD(2,5) [OF kinvD(1) [OF k(2)]] by simp_all
  have "g_current_process s' = g_current_process ?s \<and> lh s' = lh ?s"
    using w unfolding scheduler_cases [OF r] Let_def by (auto split: if_splits)
  moreover have "free_pcbs ?s ?fs" using kinv_free(1) [OF k(2)] .
  moreover have "g_current_process ?s = Ref p" using assms(4) by (simp add: killed_def)
  ultimately show ?thesis using assms(5) by (simp add: free_pcbs_def)
qed

text \<open>C30: a process may terminate any process, but when it is not itself of the tree that it
  cuts off, for example when it terminates its own child, it is lost: its state is not saved,
  the scheduler replaces it, and although it stays in the process tree it is in no queue.  The
  invariant holds but for this process.\<close>

theorem sysTerminateProcess_loses_caller:
  assumes "machine_ok M" "kinv s R A rq fs ts" "u \<in> set (fsubtrees ts)"
    and "g_current_process s = Ref p" "p \<notin> set (members u)" "pid = pcb_addr M (Ref (proot u))"
  shows "\<exists>s' R'. sysTerminateProcess M pid s = scheduler M s' \<and>
     kinv_but {p} (s'\<lparr>g_current_process := NULL\<rparr>) R' (\<lambda>k. keep (members u) (A k)) (keep (members u) rq)
       (rev (postorder u) @ fs) (prune_all (proot u) ts) \<and>
     p \<in> set (fmembers (prune_all (proot u) ts)) \<and> p \<notin> set (keep (members u) rq) \<and>
     (\<forall>k. p \<notin> set (keep (members u) (A k))) \<and> p_s (pcbs s' p) = p_s (pcbs s p)"
proof -
  have "{q. g_current_process s = Ref q \<and> q \<notin> set (members u)} = {p}" using assms(4,5) by auto
  with sysTerminateProcess_but [OF assms(1-3), of pid] assms(6) obtain h x R' where
    k: "sysTerminateProcess M pid s = scheduler M (killed M s (members u) (length (members u)) h x)"
     "kinv_but {p} ((killed M s (members u) (length (members u)) h x)\<lparr>g_current_process := NULL\<rparr>) R'
       (\<lambda>k. keep (members u) (A k)) (keep (members u) rq) (rev (postorder u) @ fs) (prune_all (proot u) ts)" by auto
  have "p \<in> set (fmembers (prune_all (proot u) ts))"
    using kinv_live(3) [OF assms(2,4)] assms(5) fmembers_prune [OF forest_okD(1) [OF kinvD(4) [OF assms(2)]] assms(3)]
    by simp
  moreover have "p \<notin> set (keep (members u) rq)" "p \<notin> set (keep (members u) (A j))" for j
    using queues_current [OF kinvD(1) [OF assms(2)] assms(4)] by (simp_all add: keep_def)
  ultimately show ?thesis unfolding k(1) using k(2) assms(5)
    by (intro exI [of _ "killed M s (members u) (length (members u)) h x"] exI [of _ R'])
      (simp add: killed_def)
qed

theorem sysTerminateProcess_loses_caller_witness:
  "\<exists>s' R'. sysTerminateProcess uMPS (pcb_addr uMPS (Ref 18)) family = scheduler uMPS s' \<and>
     kinv_but {19} (s'\<lparr>g_current_process := NULL\<rparr>) R' (\<lambda>_. []) [] (18 # rev [0..<18]) [PNode 19 []]"
proof -
  obtain R where k: "kinv family R (\<lambda>_. []) [18] (rev [0..<18]) [PNode 19 [PNode 18 []]]" using family(2) by blast
  have u: "PNode 18 [] \<in> set (fsubtrees [PNode 19 [PNode 18 []]])" by simp
  from sysTerminateProcess_loses_caller [OF uMPS_ok k u family(3)] show ?thesis by (simp add: keep_def) blast
qed

text \<open>C19: \<open>passUpOrDie\<close> with a support structure saves the state of the exception there, in the entry of
  the kind of the exception and nowhere else, and loads the context of that kind; a process
  without one is terminated with its whole tree, which leaves all queues.  The invariant holds.\<close>

theorem passUpOrDie_spec:
  assumes "machine_ok M" "kinv s R A rq fs ts" "u \<in> set (fsubtrees ts)" "g_current_process s = Ref (proot u)"
    and "p_supportStruct (pcbs s (proot u)) = a" "a = 0 \<or> word_pointer a"
  shows "if a = 0
     then \<exists>s' R'. passUpOrDie M n s = scheduler M s' \<and>
       kinv (s'\<lparr>g_current_process := NULL\<rparr>) R' (\<lambda>k. keep (members u) (A k)) (keep (members u) rq)
         (rev (postorder u) @ fs) (prune_all (proot u) ts)
     else \<exists>s'. passUpOrDie M n s = Some (Exits (LDCXT (stackPtr (sup_exceptContext (supports s a) n))
         (ctx_status (sup_exceptContext (supports s a) n)) (ctx_pc (sup_exceptContext (supports s a) n))) s') \<and>
       kinv s' R A rq fs ts \<and> g_current_process s' = Ref (proot u) \<and>
       sup_exceptState (supports s' a) n = g_old_state s \<and> (\<forall>b. b \<noteq> a \<longrightarrow> supports s' b = supports s b) \<and>
       (\<forall>m. m \<noteq> n \<longrightarrow> sup_exceptState (supports s' a) m = sup_exceptState (supports s a) m)"
proof (cases "a = 0")
  case True
  have "passUpOrDie M n s = sysTerminateProcess M (pcb_addr M (Ref (proot u))) s"
    using assms(5) True by (simp add: passUpOrDie_def assms(4))
  moreover from sysTerminateProcess_kinv [OF assms(1-4) proot_member disjI2 [OF refl]] obtain h x R' where
    "sysTerminateProcess M (pcb_addr M (Ref (proot u))) s = scheduler M (killed M s (members u) (length (members u)) h x)"
    "kinv ((killed M s (members u) (length (members u)) h x)\<lparr>g_current_process := NULL\<rparr>) R'
       (\<lambda>k. keep (members u) (A k)) (keep (members u) rq) (rev (postorder u) @ fs) (prune_all (proot u) ts)" by blast
  ultimately show ?thesis using True by auto
next
  case False
  let ?s' = "s\<lparr>supports := (supports s)(a := (supports s a)\<lparr>sup_exceptState :=
    (sup_exceptState (supports s a))(n := g_old_state s)\<rparr>)\<rparr>"
  have "kinv ?s' R A rq fs ts" by (rule kinv_cong [OF assms(2)]) simp_all
  moreover have "passUpOrDie M n s = Some (Exits (LDCXT (stackPtr (sup_exceptContext (supports s a) n))
         (ctx_status (sup_exceptContext (supports s a) n)) (ctx_pc (sup_exceptContext (supports s a) n))) ?s')"
    using False assms(4-6) by (simp add: passUpOrDie_def Let_def)
  ultimately show ?thesis using False assms(4) by auto
qed

theorem passUpOrDie_spec_witness:
  "\<exists>s' R'. passUpOrDie uMPS GENERALEXCEPT family = scheduler uMPS s' \<and>
     kinv (s'\<lparr>g_current_process := NULL\<rparr>) R' (\<lambda>_. []) [] (19 # 18 # rev [0..<18]) []"
proof -
  obtain R where k: "kinv family R (\<lambda>_. []) [18] (rev [0..<18]) [PNode 19 [PNode 18 []]]" using family(2) by blast
  have u: "PNode 19 [PNode 18 []] \<in> set (fsubtrees [PNode 19 [PNode 18 []]])" by simp
  have c: "g_current_process family = Ref (proot (PNode 19 [PNode 18 []]))" by (simp add: family(3))
  show ?thesis using passUpOrDie_spec [OF uMPS_ok k u c refl, of GENERALEXCEPT]
    by (simp add: family(10) keep_def)
qed

section \<open>Processes and namespaces\<close>

text \<open>C18: \<open>sysGetChildren\<close> returns the number of the processes below the caller that are reached through
  processes of its own namespace, and stores the addresses of the first \<open>size\<close> of them, in the
  order of a depth-first walk of the process tree.\<close>

theorem sysGetChildren_spec:
  assumes "machine_ok M" "kinv s R A rq fs ts" "g_current_process s = Ref p" "PNode p us \<in> set (fsubtrees ts)"
    and "\<And>i. 0 \<le> i \<Longrightarrow> i < sint size' \<Longrightarrow> outside_kernel M (children + 4 * of_int i)"
    and "vs = concat (map (visible (\<lambda>q. namespaces (pcbs s q) NS_PID) (namespaces (pcbs s p) NS_PID)) us)"
  shows "\<exists>m. sysGetChildren M children size' s = Some (of_nat (length vs), s\<lparr>mem := m\<rparr>) \<and>
     (\<forall>i < min (nat (sint size')) (length vs). m (children + 4 * of_nat i) = pcb_addr M (Ref (vs ! i)))"
proof -
  let ?ws = "take (nat (sint size')) vs"
  let ?m = "put_children M children 0 ?ws (mem s)"
  have d: "distinct (members (PNode p us))" "set (members (PNode p us)) \<subseteq> {..<MAX_PROC}"
    using distinct_fsubtree [OF forest_okD(1) [OF kinvD(4) [OF assms(2)]] assms(4)] kinvD(6) [OF assms(2)]
    by simp_all blast
  have "p # vs = visible (\<lambda>q. namespaces (pcbs s q) NS_PID) (namespaces (pcbs s p) NS_PID) (PNode p us)"
    by (simp add: assms(6))
  then have v: "distinct (p # vs)" "set (p # vs) \<subseteq> {..<MAX_PROC}"
    using visible_distinct [OF d(1)] subset_trans [OF visible_members d(2)] by metis+
  have "length (p # vs) \<le> MAX_PROC" using distinct_card [OF v(1)] card_mono [OF _ v(2)] by simp
  then have "length ?ws < 2 ^ 29" by (simp add: MAX_PROC_def)
  then have "?m (children + 4 * of_nat i) = pcb_addr M (Ref (vs ! i))" if "i < min (nat (sint size')) (length vs)" for i
    using put_children_nth [of ?ws i M children "mem s"] that by simp
  then show ?thesis using sysGetChildren_tree [OF assms] by blast
qed

theorem sysGetChildren_spec_witness:
  "\<exists>m. sysGetChildren uMPS 0x20006000 4 family = Some (1, family\<lparr>mem := m\<rparr>) \<and>
     m 0x20006000 = pcb_addr uMPS (Ref 18)"
proof -
  obtain R where k: "kinv family R (\<lambda>_. []) [18] (rev [0..<18]) [PNode 19 [PNode 18 []]]" using family(2) by blast
  have buf: "outside_kernel uMPS (0x20006000 + 4 * of_int i)" if "0 \<le> i" "i < sint (4 :: u32)" for i
  proof -
    have "nat i < 4" using that by simp
    then have "outside_kernel uMPS (0x20006000 + 4 * of_nat (nat i))" using user_buffer unfolding user_words_def by blast
    then show ?thesis using that(1) by simp
  qed
  have u: "PNode 19 [PNode 18 []] \<in> set (fsubtrees [PNode 19 [PNode 18 []]])" by simp
  from sysGetChildren_spec [OF uMPS_ok k family(3) u buf refl] show ?thesis
    by (fastforce simp: family(8,9))
qed

text \<open>\<open>sysGetProcessID\<close> returns the address of the caller, or on request that of its parent, or zero
  when the caller has no parent in its own namespace.\<close>

theorem sysGetProcessID_spec:
  assumes "g_current_process s = Ref p"
  shows "sysGetProcessID M is_parent s = Some (
    if is_parent = 0 then pcb_addr M (Ref p)
    else case p_parent (pcbs s p) of
        NULL \<Rightarrow> 0
      | Ref q \<Rightarrow> if namespaces (pcbs s q) NS_PID = namespaces (pcbs s p) NS_PID then pcb_addr M (Ref q) else 0)"
  by (rule sysGetProcessID_value [OF assms])

theorem sysGetProcessID_spec_witness: "sysGetProcessID uMPS 0 family = Some (pcb_addr uMPS (Ref 19))"
  using sysGetProcessID_spec [OF family(3), of uMPS 0] by simp

section \<open>Timers\<close>

text \<open>At the end of its time slice a process, its state saved, becomes the last ready one and the
  first ready process, which is the same process when no other is ready, gets a full slice.\<close>

theorem time_slice_end:
  assumes "kinv s R A rq fs ts" "g_current_process s = Ref p" "rq @ [p] = q # qs"
  shows "\<exists>s' R'. handleLocalTimer M s = Some (Exits (LDST (if q = p then g_old_state s else p_s (pcbs s q))) s') \<and>
     kinv s' R' A qs fs ts \<and> g_current_process s' = Ref q \<and> p_s (pcbs s' p) = g_old_state s \<and>
     cpu_timer s' = TIMESLICE"
  using handleLocalTimer_next [OF assms, of M] by fastforce

theorem time_slice_end_witness:
  "\<exists>s' R'. handleLocalTimer uMPS family = Some (Exits (LDST (p_s (pcbs family 18))) s') \<and>
     kinv s' R' (\<lambda>_. []) [19] (rev [0..<18]) [PNode 19 [PNode 18 []]] \<and> g_current_process s' = Ref 18"
proof -
  obtain R where k: "kinv family R (\<lambda>_. []) [18] (rev [0..<18]) [PNode 19 [PNode 18 []]]" using family(2) by blast
  have "[18] @ [19] = 18 # [19 :: nat]" by simp
  from time_slice_end [OF k family(3) this, of uMPS] show ?thesis by auto
qed



text \<open>C15: No ready process starves: when only time slices end, every process of the ready queue has run after
  at most as many slices as there are ready processes, and the set of the ready and running
  processes stays the same.\<close>

theorem ready_process_runs:
  assumes "kinv s R A rq fs ts" "g_current_process s = Ref p" "q \<in> set rq"
    and "\<forall>st \<in> set sts. slice_over M st" "length sts = length rq"
  shows "\<exists>n \<le> length rq. \<exists>s' R' qs. slices M (take n sts) s = Some s' \<and> g_current_process s' = Ref q \<and>
    kinv s' R' A qs fs ts \<and> set (q # qs) = set (p # rq)"
  using slices_reach [OF assms(1,2) _ assms(4,5)] assms(3) by simp

theorem ready_process_runs_witness:
  "\<exists>n \<le> 1. \<exists>s'. slices uMPS (take n [zero_state\<lparr>cause := LOCALTIMERINT\<rparr>]) family = Some s' \<and> g_current_process s' = Ref 18"
proof -
  obtain R where k: "kinv family R (\<lambda>_. []) [18] (rev [0..<18]) [PNode 19 [PNode 18 []]]" using family(2) by blast
  have "bit (0x200 :: u32) 9" using and_power [of "0x200" 9] by simp
  then have "slice_over uMPS (zero_state\<lparr>cause := LOCALTIMERINT\<rparr>)"
    by (simp add: slice_over_def uMPS_def LOCALTIMERINT_def)
  then show ?thesis using ready_process_runs [OF k family(3), of 18 "[zero_state\<lparr>cause := LOCALTIMERINT\<rparr>]" uMPS] by auto
qed

text \<open>C17: A tick of the interval timer, with a process running or none, makes every process that waits for
  the pseudo clock ready, in the order in which they waited, takes them off the soft count,
  resets the clock to 0 and the timer to 100 ms, and keeps the invariant.\<close>

theorem interval_timer_tick:
  assumes "kinv (s\<lparr>g_current_process := c\<rparr>) R A rq fs ts"
  shows "\<exists>s' R'. handleSysTimer M s = Some s' \<and>
     kinv (s'\<lparr>g_current_process := c\<rparr>) R' (A(pseudo_clock_addr M := [])) (rq @ A (pseudo_clock_addr M)) fs ts \<and>
     g_soft_block_count s' = g_soft_block_count s - of_nat (length (A (pseudo_clock_addr M))) \<and>
     g_pseudo_clock s' = 0 \<and> interval_timer s' = PSECOND \<and> g_current_process s' = g_current_process s \<and>
     g_process_count s' = g_process_count s"
  using handleSysTimer_kinv [OF assms, of M] by blast

theorem interval_timer_tick_witness:
  "\<exists>s' R' fs ts. handleSysTimer uMPS clocked = Some s' \<and>
     kinv (s'\<lparr>g_current_process := Ref 18\<rparr>) R' (\<lambda>_. []) [19] fs ts \<and> g_pseudo_clock s' = 0"
proof -
  obtain R fs ts where k: "kinv clocked R ((\<lambda>_. [])(clock := [19])) [] fs ts" using clocked_kinv(1) by blast
  have "kinv (clocked\<lparr>g_current_process := Ref 18\<rparr>) R ((\<lambda>_. [])(clock := [19])) [] fs ts"
    unfolding current_same [OF clocked_kinv(2)] by (rule k)
  from interval_timer_tick [OF this, of uMPS] show ?thesis by (auto simp: fun_upd_idem)
qed

end
