(* ===== verification/Baton.thy ===== *)
theory Baton
  imports Device_IO
begin

text \<open>
  The interrupt of a device for whose mutex another process waits.  \<open>handleDeviceInt\<close> takes
  that process out of the queue of the mutex and calls \<open>beginIO\<close> for it.  \<open>beginIO\<close> writes
  the registers of the device for the process that it is given, but ends in
  \<open>sysPasseren\<close>, which blocks the current process.
\<close>

lemma beginIO_blocks_current:
  assumes M: "machine_ok M" and d: "d < DEVICE_NUMBER" and q: "queues s R A rq" "g_current_process s = Ref p"
    and v: "sem_sync (g_sysiostates s d) \<noteq> 1"
    and a: "resolveDeviceAddress M (cmd_addr (pcbs s w)) \<noteq> - 1" "unat (cmd_addr (pcbs s w)) mod 4 = 0"
      "user_words M (cmd_values (pcbs s w))"
  shows "\<exists>s' R'. beginIO M (int d) (Ref w) s = scheduler M s' \<and>
     queues s' R' (A(sem_sync_addr M d := A (sem_sync_addr M d) @ [p])) rq \<and> g_current_process s' = NULL \<and>
     g_sysiostates s' = (g_sysiostates s)(d := (g_sysiostates s d)\<lparr>waiting_process := Ref w\<rparr>) \<and>
     g_process_count s' = g_process_count s \<and> same_rest R R' \<and>
     p_time (pcbs s' p) = p_time (pcbs s p) + (tod_clock s (tod_reads s) - g_tod s) \<and>
     (\<forall>r. p_parent (pcbs s' r) = p_parent (pcbs s r) \<and>
        p_semAdd (pcbs s' r) = (if r = p then sem_sync_addr M d else p_semAdd (pcbs s r)))"
proof -
  let ?s1 = "s\<lparr>g_sysiostates := (g_sysiostates s)(d := (g_sysiostates s d)\<lparr>waiting_process := Ref w\<rparr>)\<rparr>"
  obtain m where m: "copy_registers M (getNumRegister (cmd_addr (pcbs s w))) (cmd_addr (pcbs s w))
      (cmd_values (pcbs s w)) ?s1 = Some (?s1\<lparr>mem := m\<rparr>)"
    using copy_to_device [OF M a getNumRegister_le] by blast
  let ?s2 = "?s1\<lparr>mem := m, g_soft_block_count := g_soft_block_count s + 1\<rparr>"
  have "beginIO M (int d) (Ref w) s = sysPasseren M (sem_sync_addr M d) ?s2"
    using d m by (simp add: beginIO_def Let_def)
  also have "\<dots> = block_current M (sem_sync_addr M d) ?s2"
    by (rule passeren_blocks [OF M d]) (use v in simp)
  finally have b: "beginIO M (int d) (Ref w) s = block_current M (sem_sync_addr M d) ?s2" .
  have "queues ?s2 R A rq" by (rule queues_cong [OF q(1)]) simp_all
  from block_current_queues [OF this, of p M "sem_sync_addr M d"] q(2) obtain s' R' where
    "block_current M (sem_sync_addr M d) ?s2 = scheduler M s'"
    "queues s' R' (A(sem_sync_addr M d := A (sem_sync_addr M d) @ [p])) rq" "g_current_process s' = NULL"
    "pcbs s' = (pcbs ?s2)(p := (stopped p ?s2)\<lparr>p_semAdd := sem_sync_addr M d\<rparr>)"
    "g_process_count s' = g_process_count ?s2" "same_rest R R'" "g_sysiostates s' = g_sysiostates ?s2"
    by auto
  then show ?thesis unfolding b by (intro exI [of _ s'] exI [of _ R']) (simp add: stopped_def)
qed

lemma queues_out:
  assumes "queues s R A rq" "R (P_list q) = Some []" "q < MAX_PROC"
  shows "q \<notin> set (A k)" "q \<notin> set rq"
proof -
  have "queues (s\<lparr>g_current_process := Ref q\<rparr>) R A rq"
    using assms by (auto simp: queues_def)
  from queues_current [OF this, of q] show "q \<notin> set (A k)" "q \<notin> set rq" by simp_all
qed

lemma handleDeviceInt_baton:
  assumes M: "machine_ok M" and io: "io_waiting M line a d w A s" and k: "kinv s R A rq fs ts"
    and p: "g_current_process s = Ref p" and mut: "A (sem_mut_addr M d) = q # qs"
    and cmd: "resolveDeviceAddress M (cmd_addr (pcbs s q)) \<noteq> - 1" "unat (cmd_addr (pcbs s q)) mod 4 = 0"
      "user_words M (cmd_values (pcbs s q))"
  shows "\<exists>s1 R1. handleDeviceInt M line s = scheduler M s1 \<and>
     kinv_but {q} s1 R1 (A(sem_sync_addr M d := [p], sem_mut_addr M d := qs)) (rq @ [w]) fs ts \<and>
     g_current_process s1 = NULL \<and> waiting_process (g_sysiostates s1 d) = Ref q \<and>
     p_time (pcbs s1 p) = p_time (pcbs s p) + (tod_clock s (tod_reads s) - g_tod s) \<and>
     q \<notin> set (rq @ [w]) \<and> (\<forall>k. q \<notin> set ((A(sem_sync_addr M d := [p], sem_mut_addr M d := qs)) k))"
proof -
  let ?sync = "sem_sync_addr M d" and ?mut = "sem_mut_addr M d"
  let ?A = "A(?sync := [], ?mut := qs)" and ?A1 = "A(?sync := [p], ?mut := qs)"
  from io have sync: "sem_sync (g_sysiostates s d) = 0" "resolveDeviceAddress M a = int d" by (simp_all add: io_waiting_def)
  have d: "d < DEVICE_NUMBER" using resolveDeviceAddress_bound(1) [OF M, of a] sync(2) by auto
  have neq: "?mut \<noteq> ?sync" by (rule sem_addr_distinct(1) [OF M d d])
  have kp: "kinv (s\<lparr>g_current_process := Ref p\<rparr>) R A rq fs ts" using k unfolding current_same [OF p] .
  obtain s5 R5 where h: "handleDeviceInt M line s = device_next M d s5"
    and k5: "kinv (s5\<lparr>g_current_process := Ref p\<rparr>) R5 (A(?sync := [])) (rq @ [w]) fs ts"
    and f: "g_current_process s5 = g_current_process s" "g_sysiostates s5 = g_sysiostates s"
      "\<forall>p. cmd_addr (pcbs s5 p) = cmd_addr (pcbs s p) \<and> cmd_values (pcbs s5 p) = cmd_values (pcbs s p)"
    and time: "same_times s s5" "tod_reads s5 = tod_reads s" "g_tod s5 = g_tod s"
    using handleDeviceInt_wakes [OF M io kp] by blast
  have c5: "g_current_process s5 = Ref p" using f(1) p by simp
  have k5: "kinv s5 R5 (A(?sync := [])) (rq @ [w]) fs ts" using k5 unfolding current_same [OF c5] .
  have mut5: "(A(?sync := [])) ?mut = q # qs" using mut neq by simp
  have "queues (s5\<lparr>g_current_process := Ref p\<rparr>) R5 (A(?sync := [])) (rq @ [w])"
    using kinvD(1) [OF k5] unfolding current_same [OF c5] .
  from queues_take [OF this mut5] obtain hl hk R6 where
    t: "removeBlocked ?mut s5 =
        Some (Ref q, s5\<lparr>lh := hl, hh := hk, pcbs := (pcbs s5)(q := (pcbs s5 q)\<lparr>p_semAdd := 0\<rparr>)\<rparr>)"
      "queues (s5\<lparr>lh := hl, hh := hk, pcbs := (pcbs s5)(q := (pcbs s5 q)\<lparr>p_semAdd := 0\<rparr>), g_current_process := Ref p\<rparr>)
         R6 ?A (rq @ [w])" "same_rest R5 R6" "R6 (P_list q) = Some []" by blast
  let ?s6 = "s5\<lparr>lh := hl, hh := hk, pcbs := (pcbs s5)(q := (pcbs s5 q)\<lparr>p_semAdd := 0\<rparr>)\<rparr>"
  have c6: "g_current_process ?s6 = Ref p" using c5 by simp
  have q6: "queues ?s6 R6 ?A (rq @ [w])" using t(2) current_same [OF c6] by simp
  have p6: "sem_ptrs ?s6 ?A" by (rule sem_ptrs_wake [OF kinvD(3) [OF k5] mut5]) simp_all
  have qM: "q < MAX_PROC" using queuesD(3) [OF kinvD(1) [OF k], of ?mut] mut by auto
  have "q \<noteq> p" using queues_current(1) [OF kinvD(1) [OF k] p, of ?mut] mut by auto
  then have "q \<notin> set (?A1 j)" for j using queues_out(1) [OF q6 t(4) qM, of j] neq by (simp split: if_splits)
  then have out: "q \<notin> set (rq @ [w])" "\<forall>j. q \<notin> set (?A1 j)" using queues_out(2) [OF q6 t(4) qM] by blast+
  have A1: "?A(?sync := ?A ?sync @ [p]) = ?A1" using neq by (auto simp: fun_eq_iff)
  have "resolveDeviceAddress M (cmd_addr (pcbs ?s6 q)) \<noteq> - 1" "unat (cmd_addr (pcbs ?s6 q)) mod 4 = 0"
    "user_words M (cmd_values (pcbs ?s6 q))" "sem_sync (g_sysiostates ?s6 d) \<noteq> 1" using cmd f(2,3) sync(1) by simp_all
  from beginIO_blocks_current [OF M d q6 c6 this(4,1,2,3), unfolded A1] obtain s1 R1 where
    s1: "beginIO M (int d) (Ref q) ?s6 = scheduler M s1" "queues s1 R1 ?A1 (rq @ [w])" "g_current_process s1 = NULL"
      "g_sysiostates s1 = (g_sysiostates ?s6)(d := (g_sysiostates ?s6 d)\<lparr>waiting_process := Ref q\<rparr>)"
      "g_process_count s1 = g_process_count ?s6" "same_rest R6 R1"
      "p_time (pcbs s1 p) = p_time (pcbs ?s6 p) + (tod_clock ?s6 (tod_reads ?s6) - g_tod ?s6)"
      "\<forall>r. p_parent (pcbs s1 r) = p_parent (pcbs ?s6 r) \<and>
        p_semAdd (pcbs s1 r) = (if r = p then ?sync else p_semAdd (pcbs ?s6 r))" by blast
  have "?sync \<noteq> 0" using sem_addr_fields(2) [OF M d] by (auto simp: sem_addr_def word_pointer_def)
  then have "sem_ptrs s1 (?A(?sync := ?A ?sync @ [p]))"
    by (rule sem_ptrs_block [OF p6]) (use s1(8) queues_current(1) [OF q6 c6] in simp_all)
  moreover have "same_rest R5 R1"
    using t(3) s1(6) no_tree_entries_trans by (auto simp: same_rest_def)
  ultimately have "kinv_but {q} s1 R1 ?A1 (rq @ [w]) fs ts"
    unfolding A1
  proof (intro kinv_but_queues [OF k5 s1(2)])
    show "accounted s1 ?A1 (rq @ [w]) r" if r: "r \<notin> {q}" and acc: "accounted s5 (A(?sync := [])) (rq @ [w]) r" for r
    proof -
      consider "r \<in> set (rq @ [w])" | j where "r \<in> set ((A(?sync := [])) j)" | "r = p"
        using acc c5 by (auto simp: accounted_def)
      then show ?thesis
      proof cases
        case 2
        with r mut have "r \<in> set (?A1 j)" using neq by (cases "j = ?mut") (auto split: if_splits)
        then show ?thesis unfolding accounted_def by blast
      next
        case 3
        then have "r \<in> set (?A1 ?sync)" using neq by simp
        then show ?thesis unfolding accounted_def by blast
      qed (simp add: accounted_def)
    qed
  qed (use s1(5,8) in simp_all)
  moreover have "handleDeviceInt M line s = scheduler M s1" unfolding h device_next_def using t(1) s1(1) by simp
  moreover have "p_time (pcbs s1 p) = p_time (pcbs s p) + (tod_clock s (tod_reads s) - g_tod s)"
    using s1(7) time by (simp add: same_times_def)
  ultimately show ?thesis using out s1(3,4) by (intro exI [of _ s1] exI [of _ R1]) simp
qed

end
