(* ===== verification/Device_Theorems.thy ===== *)
theory Device_Theorems
  imports Process_Theorems Baton
begin

text \<open>
  The properties of the devices and of the interrupts, and what the code does in the cases
  that its documentation describes otherwise.
\<close>

section \<open>Input and output\<close>

text \<open>C14: \<open>sysDoIO\<close> on a free device takes its mutex, writes the registers of the device from the memory
  of the caller, records the caller as the process that the device serves, and the caller,
  its state saved, waits for the device while the scheduler takes over.\<close>

theorem sysDoIO_spec:
  assumes "machine_ok M" "kinv s R A rq fs ts" "g_current_process s = Ref p"
    and "resolveDeviceAddress M a = int d" "unat a mod 4 = 0" "user_words M v" "device_free M d A s"
  shows "\<exists>s' R'. sysDoIO M a v s = (do { r \<leftarrow> scheduler M s'; returning r (\<lambda>_ s. Some (Returns 0 s)) }) \<and>
     kinv s' R' (A(sem_sync_addr M d := A (sem_sync_addr M d) @ [p])) rq fs ts \<and> g_current_process s' = NULL \<and>
     g_sysiostates s' = (g_sysiostates s)(d := \<lparr>sem_mut = 0, sem_sync = 0, waiting_process = Ref p\<rparr>) \<and>
     g_soft_block_count s' = g_soft_block_count s + 1 \<and> p_s (pcbs s' p) = g_old_state s \<and>
     (\<forall>i < nat (getNumRegister a). mem s' (a + 4 * of_nat i) = mem s (v + 4 * of_nat i))"
  using sysDoIO_starts [OF assms] by blast

theorem sysDoIO_spec_witness:
  "\<exists>s' R'. sysDoIO uMPS 0x10000054 0x20006000 family =
       (do { r \<leftarrow> scheduler uMPS s'; returning r (\<lambda>_ s. Some (Returns 0 s)) }) \<and>
     kinv s' R' ((\<lambda>_. [])(sem_sync_addr uMPS 0 := [19])) [18] (rev [0..<18]) [PNode 19 [PNode 18 []]]"
proof -
  obtain R where k: "kinv family R (\<lambda>_. []) [18] (rev [0..<18]) [PNode 19 [PNode 18 []]]" using family(2) by blast
  have f: "device_free uMPS 0 (\<lambda>_. []) family"
    using booted(7) [of 0] by (simp add: device_free_def family(7) free_device_def DEVICE_NUMBER_def)
  from sysDoIO_spec [OF uMPS_ok k family(3) disk_0 _ user_buffer f] show ?thesis by auto
qed

text \<open>C13: When a device that was started interrupts and no other process waits for it, the process that
  started it becomes ready, with the registers of the device in its memory and 0 or -1 as its
  result, the device gets the acknowledgement and becomes free, and the invariant holds.\<close>

theorem device_completion:
  assumes "machine_ok M" "io_pending M line a d w A s" "kinv (s\<lparr>g_current_process := c\<rparr>) R A rq fs ts"
  shows "\<exists>s' R'. handleDeviceInt M line s = Some (Returns () s') \<and>
     kinv (s'\<lparr>g_current_process := c\<rparr>) R' (A(sem_sync_addr M d := [])) (rq @ [w]) fs ts \<and>
     g_current_process s' = g_current_process s \<and> g_soft_block_count s' = g_soft_block_count s - 1 \<and>
     g_sysiostates s' = (g_sysiostates s)(d := \<lparr>sem_mut = sem_mut (g_sysiostates s d) + 1, sem_sync = 0,
        waiting_process = NULL\<rparr>) \<and>
     reg_v0 (p_s (pcbs s' w)) = io_result M a (mem s a) \<and> mem s' (a + 4) = ACK M \<and>
     (\<forall>i < nat (getNumRegister (cmd_addr (pcbs s w))).
        mem s' (cmd_values (pcbs s w) + 4 * of_nat i) = mem s (cmd_addr (pcbs s w) + 4 * of_nat i))"
  using handleDeviceInt_done [OF assms] by blast

theorem device_completion_witness:
  "\<exists>s' R' fs ts. handleDeviceInt uMPS 3 disk_done = Some (Returns () s') \<and>
     kinv (s'\<lparr>g_current_process := Ref 18\<rparr>) R' (\<lambda>_. []) [19] fs ts \<and> reg_v0 (p_s (pcbs s' 19)) = 0"
proof -
  obtain R fs ts where k: "kinv disk_done R ((\<lambda>_. [])(sem_sync_addr uMPS 0 := [19])) [] fs ts" using disk_done(1) by blast
  have k': "kinv (disk_done\<lparr>g_current_process := Ref 18\<rparr>) R ((\<lambda>_. [])(sem_sync_addr uMPS 0 := [19])) [] fs ts"
    unfolding current_same [OF disk_done(2)] by (rule k)
  have "io_result uMPS 0x10000054 (mem disk_done 0x10000054) = 0"
    by (simp add: io_result_def isTermReg_def TERMREG_START_ADDR_def disk_done_def DEVICESTATUSMASK_def uMPS_def)
  then show ?thesis using device_completion [OF uMPS_ok disk_done(3) k'] by (auto simp: fun_upd_idem)
qed

text \<open>\<open>findDevRegAddr\<close> finds the device with the lowest number whose bit is set in the bitmap of the
  line; of the terminal it takes the transmitter when a character has been transmitted and
  the receiver otherwise.\<close>

theorem findDevRegAddr_spec:
  assumes "machine_ok M" "l \<in> {3..7}"
  shows "findDevRegAddr M l s = Some (case pending_device (mem s (line_bitmap l)) of
     None \<Rightarrow> 0
   | Some i \<Rightarrow> if l = 7 \<and> i = 0 \<and> mem s transmitter_status AND DEVICESTATUSMASK = TRANSMITTED
              then transmitter_status else DEVADDR l i)"
  by (rule findDevRegAddr_line [OF assms])

theorem findDevRegAddr_spec_witness: "findDevRegAddr uMPS 3 disk_done = Some 0x10000054"
proof -
  have "pending_device 1 = Some 0" by (simp add: pending_device_Some)
  then show ?thesis using findDevRegAddr_spec [OF uMPS_ok, of 3 disk_done]
    by (simp add: disk_done_def line_bitmap_def device_regs)
qed

text \<open>C31: An address that \<open>resolveDeviceAddress\<close> accepts is that of a device register, and the number is
  an index of \<open>g_sysiostates\<close>.\<close>

theorem resolveDeviceAddress_range:
  assumes "machine_ok M" "resolveDeviceAddress M a \<noteq> - 1"
  shows "0 \<le> resolveDeviceAddress M a \<and> resolveDeviceAddress M a < int DEVICE_NUMBER \<and>
     DEVREG_START_ADDR \<le> a \<and> a < TERMREG_END_ADDR"
  using resolveDeviceAddress_bound [OF assms] by auto

theorem resolveDeviceAddress_range_witness:
  "0 \<le> resolveDeviceAddress uMPS 0x10000060 \<and> resolveDeviceAddress uMPS 0x10000060 < 48"
proof -
  have "resolveDeviceAddress uMPS 0x10000060 \<noteq> - 1"
    by (simp add: resolveDeviceAddress_def uMPS_def device_regs)
  from resolveDeviceAddress_range [OF uMPS_ok this] show ?thesis by (simp add: DEVICE_NUMBER_def)
qed

section \<open>Interrupts\<close>




section \<open>What differs from the documentation\<close>

text \<open>The entry with index -1 of \<open>g_sysiostates\<close>.\<close>

lemma before_sysiostates:
  assumes "machine_ok M"
  shows "\<not> in_sysiostates M (sysiostates_addr M - SIZEOF_SYSIOSTATE)"
proof -
  have "RAMSTART \<le> sysiostates_addr M" using assms by (simp add: machine_ok_def)
  then have "SIZEOF_SYSIOSTATE \<le> sysiostates_addr M" by (auto simp: RAMSTART_def SIZEOF_SYSIOSTATE_def elim: order_trans [rotated])
  then have "sysiostates_addr M - SIZEOF_SYSIOSTATE < sysiostates_addr M"
    by (simp add: word_less_nat_alt unat_sub SIZEOF_SYSIOSTATE_def word_le_nat_alt)
  then show ?thesis unfolding in_sysiostates_def using leD by blast
qed

text \<open>The first three show the behaviour of the code where the comments describe another one.\<close>

text \<open>C32: An interrupt of any terminal but the first one resolves to no device.  \<open>findDevRegAddr\<close> finds the
  register, \<open>resolveDeviceAddress\<close> gives -1 for it, and this number is the index with which
  \<open>handleDeviceInt\<close> reads \<open>g_sysiostates\<close>: the entry would lie before the array, so
  the model has no value for it, and the run of \<open>handleDeviceInt\<close> is undefined there.\<close>

theorem other_terminals_undefined:
  assumes "machine_ok M" "pending_device (mem s (line_bitmap 7)) = Some i" "0 < i"
  shows "findDevRegAddr M TERM_INTLINE s = Some (DEVADDR 7 i) \<and> DEVADDR 7 i \<noteq> 0 \<and>
     resolveDeviceAddress M (DEVADDR 7 i) = - 1 \<and>
     \<not> in_sysiostates M (sysiostates_addr M - SIZEOF_SYSIOSTATE) \<and> get_sysio (- 1) s = None \<and>
     handleDeviceInt M TERM_INTLINE s = None"
proof -
  have i: "i < 8" using assms(2) by (simp add: pending_device_Some)
  have f: "findDevRegAddr M TERM_INTLINE s = Some (DEVADDR 7 i)"
    using findDevRegAddr_line [OF assms(1), of 7 s] assms(2,3) by (simp add: TERM_INTLINE_def)
  have r: "resolveDeviceAddress M (DEVADDR 7 i) = - 1 \<and> DEVADDR 7 i \<noteq> 0"
    using devices_finite [OF i] assms(3)
    by (elim disjE) (simp_all add: resolveDeviceAddress_def device_regs)
  have g: "get_sysio (- 1) s = None" by (simp add: get_sysio_def)
  have "handleDeviceInt M TERM_INTLINE s = None" using f r g by (simp add: handleDeviceInt_def Let_def)
  then show ?thesis using f r g before_sysiostates [OF assms(1)] by simp
qed

theorem other_terminals_undefined_witness:
  "resolveDeviceAddress uMPS (DEVADDR 7 1) = - 1 \<and>
     handleDeviceInt uMPS TERM_INTLINE (booted\<lparr>mem := (mem booted)(line_bitmap 7 := 2)\<rparr>) = None"
proof -
  have "bit (2 :: u32) 1" "\<not> bit (2 :: u32) 0" by simp_all
  then have "pending_device 2 = Some 1" by (simp add: pending_device_Some)
  then show ?thesis
    using other_terminals_undefined [OF uMPS_ok, of "booted\<lparr>mem := (mem booted)(line_bitmap 7 := 2)\<rparr>" 1] by simp
qed

text \<open>C33: The device of a process that was terminated during its operation: \<open>sem_sync\<close> is -1, and the
  interrupt blocks the process that happens to run on that semaphore, instead of resetting it, and
  charges it the time since the clock was last read, which is that of the interrupt.\<close>

theorem terminated_operation_blocks:
  assumes "machine_ok M" "kinv s R A rq fs ts" "g_current_process s = Ref p"
    and "findDevRegAddr M line s = Some a" "resolveDeviceAddress M a = int d" "unat a mod 4 = 0"
    and "sem_sync (g_sysiostates s d) = - 1"
  shows "\<exists>e s' s1 R'. handleDeviceInt M line s = Some (Exits e s') \<and> scheduler M s1 = Some (Exits e s') \<and>
     kinv s1 R' (A(sem_sync_addr M d := A (sem_sync_addr M d) @ [p])) rq fs ts \<and>
     sem_sync (g_sysiostates s1 d) = - 1 \<and>
     p_time (pcbs s1 p) = p_time (pcbs s p) + (tod_clock s (tod_reads s) - g_tod s)"
proof -
  have d: "d < DEVICE_NUMBER" using resolveDeviceAddress_bound(1) [OF assms(1), of a] assms(5) by auto
  have a0: "a \<noteq> 0" by (rule device_address_nonzero [OF assms(1)]) (simp add: assms(5))
  let ?s = "s\<lparr>mem := (mem s)(a + 4 := ACK M)\<rparr>" and ?k = "sem_sync_addr M d"
  have k: "kinv ?s R A rq fs ts" by (rule kinv_cong [OF assms(2)]) simp_all
  have c: "g_current_process ?s = Ref p" using assms(3) by simp
  have "?k \<noteq> 0" using sem_addr_fields(2) [OF assms(1) d] by (auto simp: sem_addr_def word_pointer_def)
  from block_current_state [OF k c this, of M] obtain s1 R1 where
    b: "block_current M ?k ?s = scheduler M s1" "kinv s1 R1 (A(?k := A ?k @ [p])) rq fs ts"
      "g_current_process s1 = NULL" "g_sysiostates s1 = g_sysiostates ?s"
      "pcbs s1 = (pcbs ?s)(p := (stopped p ?s)\<lparr>p_semAdd := ?k\<rparr>)" by blast
  from scheduler_exits [OF kinv_none [OF b(2,3)]] obtain e s' where e: "scheduler M s1 = Some (Exits e s')" by blast
  have "load_int M ?k ?s = Some (- 1)" using load_fields(2) [OF assms(1) d, of ?s] assms(7) by simp
  then have "sysVerhogen M ?k ?s = block_current M ?k ?s" unfolding sysVerhogen_op by (rule sem_op_taken) simp
  then have "handleDeviceInt M line s = Some (Exits e s')"
    using a0 d assms(7) ackDevice_pending [OF assms(1,5,6), of s] b(1) e
    by (simp add: handleDeviceInt_def assms(4,5) Let_def)
  then show ?thesis using e b(2,4) assms(7) by (auto simp: b(5) stopped_def)
qed

theorem terminated_operation_blocks_witness:
  "\<exists>e s' s1 R' fs ts.
     handleDeviceInt uMPS 3 (disk_done\<lparr>g_sysiostates := \<lambda>_. \<lparr>sem_mut = 0, sem_sync = - 1, waiting_process = Ref 19\<rparr>\<rparr>) =
       Some (Exits e s') \<and>
     kinv s1 R' ((\<lambda>_. [])(sem_sync_addr uMPS 0 := [19, 18])) [] fs ts \<and> scheduler uMPS s1 = Some (Exits e s')"
proof -
  let ?s = "disk_done\<lparr>g_sysiostates := \<lambda>_. \<lparr>sem_mut = 0, sem_sync = - 1, waiting_process = Ref 19\<rparr>\<rparr>"
  obtain R fs ts where "kinv disk_done R ((\<lambda>_. [])(sem_sync_addr uMPS 0 := [19])) [] fs ts" using disk_done(1) by blast
  then have k: "kinv ?s R ((\<lambda>_. [])(sem_sync_addr uMPS 0 := [19])) [] fs ts" by (rule kinv_cong) simp_all
  have c: "g_current_process ?s = Ref 18" using disk_done(2) by simp
  have "findDevRegAddr uMPS 3 ?s = findDevRegAddr uMPS 3 disk_done" by (rule findDevRegAddr_cong [OF uMPS_ok]) simp_all
  then have f: "findDevRegAddr uMPS 3 ?s = Some 0x10000054" using disk_done(3) by (simp add: io_pending_def io_waiting_def)
  from terminated_operation_blocks [OF uMPS_ok k c f disk_0] show ?thesis by fastforce
qed

text \<open>C29: when a device with a waiting queue completes, the first process \<open>q\<close> that waits for its
  mutex is lost.  The completed operation wakes its own process \<open>w\<close>, the registers are
  written for \<open>q\<close>, which becomes the waiting process of the device; but the process that
  is blocked on the device is \<open>p\<close>, the one that the interrupt found running, which is charged
  the time since the clock was last read, that of the interrupt, and the scheduler replaces it.  The invariant holds but for \<open>q\<close>, which is in no queue.\<close>

theorem next_waiter_is_lost:
  assumes "machine_ok M" "io_waiting M line a d w A s" "kinv s R A rq fs ts"
    and "g_current_process s = Ref p" "A (sem_mut_addr M d) = q # qs"
    and "resolveDeviceAddress M (cmd_addr (pcbs s q)) \<noteq> - 1" "unat (cmd_addr (pcbs s q)) mod 4 = 0"
    and "user_words M (cmd_values (pcbs s q))"
  shows "\<exists>s1 R1. handleDeviceInt M line s = scheduler M s1 \<and> g_current_process s1 = NULL \<and>
     waiting_process (g_sysiostates s1 d) = Ref q \<and>
     p_time (pcbs s1 p) = p_time (pcbs s p) + (tod_clock s (tod_reads s) - g_tod s) \<and>
     kinv_but {q} s1 R1 (A(sem_sync_addr M d := [p], sem_mut_addr M d := qs)) (rq @ [w]) fs ts \<and>
     q \<in> set (fmembers ts) \<and> q \<notin> set (rq @ [w]) \<and>
     (\<forall>k. q \<notin> set ((A(sem_sync_addr M d := [p], sem_mut_addr M d := qs)) k))"
proof -
  have "q \<in> set (fmembers ts)" using kinv_live(2) [OF assms(3), of q "sem_mut_addr M d"] assms(5) by simp
  with handleDeviceInt_baton [OF assms] show ?thesis by blast
qed

theorem next_waiter_is_lost_witness:
  "\<exists>s1 R1. handleDeviceInt uMPS 3 busy_done = scheduler uMPS s1 \<and>
     kinv_but {18} s1 R1 ((\<lambda>_. [])(sem_sync_addr uMPS 0 := [17])) [19] (rev [0..<17])
       [PNode 19 [PNode 18 [PNode 17 []]]]"
proof -
  obtain R where k: "kinv busy_done R busy_sems [] (rev [0..<17]) [PNode 19 [PNode 18 [PNode 17 []]]]"
    using busy_done(1) by blast
  have q: "busy_sems (sem_mut_addr uMPS 0) = [18]" by (simp add: busy_sems_def)
  have A: "busy_sems(sem_sync_addr uMPS 0 := [17], sem_mut_addr uMPS 0 := []) =
      (\<lambda>_. [])(sem_sync_addr uMPS 0 := [17])" using mut_sync by (auto simp: busy_sems_def fun_eq_iff)
  show ?thesis
    using next_waiter_is_lost [OF uMPS_ok busy_done(3) k busy_done(2) q] disk_0 user_buffer
    by (auto simp: busy_done(4,5) A)
qed

text \<open>The first \<open>sysClockWait\<close> after the start does not wait: the clock is 1, so the caller passes it,
  and it is nevertheless counted as waiting.\<close>

theorem first_clock_wait_passes:
  assumes "machine_ok M" "kinv s R A rq fs ts" "g_current_process s = Ref p"
    and "g_pseudo_clock s = 1" "A (pseudo_clock_addr M) = []"
  shows "\<exists>s'. sysClockWait M s = Some (Returns () s') \<and> kinv s' R A rq fs ts \<and> g_current_process s' = Ref p \<and>
     g_pseudo_clock s' = 0 \<and> g_soft_block_count s' = g_soft_block_count s + 1"
proof -
  let ?s = "s\<lparr>g_soft_block_count := g_soft_block_count s + 1\<rparr>" and ?k = "pseudo_clock_addr M"
  have k: "kinv ?s R A rq fs ts" by (rule kinv_cong [OF assms(2)]) simp_all
  have z: "0 < DEVICE_NUMBER" by (simp add: DEVICE_NUMBER_def)
  have "sysClockWait M s = Some (Returns () (?s\<lparr>g_pseudo_clock := 0\<rparr>))"
    using load_fields(3) [OF assms(1) z, of ?s] store_fields(3) [OF assms(1) z] assms(4)
      queues_no_waiter [OF kinvD(1) [OF k] assms(5)]
    by (simp add: sysClockWait_def sysPasseren_def)
  moreover have "kinv (?s\<lparr>g_pseudo_clock := 0\<rparr>) R A rq fs ts" by (rule kinv_cong [OF k]) simp_all
  ultimately show ?thesis using assms(3) by (intro exI [of _ "?s\<lparr>g_pseudo_clock := 0\<rparr>"]) simp
qed

theorem first_clock_wait_passes_witness:
  "\<exists>s'. sysClockWait uMPS booted = Some (Returns () s') \<and> g_current_process s' = Ref 19 \<and> g_soft_block_count s' = 1"
proof -
  obtain R where k: "kinv booted R (\<lambda>_. []) [] (18 # rev [0..<18]) [PNode 19 []]" using booted(2) by blast
  from first_clock_wait_passes [OF uMPS_ok k booted(3,6) refl] show ?thesis by (auto simp: booted(5))
qed

end
