(* ===== verification/Phase1_Theorems.thy ===== *)
theory Phase1_Theorems
  imports Phase1
begin

text \<open>
  The properties of phase 1.  Each hypothesis is met by the state
  \<open>phase1_boot\<close>, which the initialisation of phase 1 reaches from the static storage, or by
  a state one or two operations away from it.
\<close>

section \<open>A start for the witnesses\<close>

lemma boot_simps:
  "boot_rings PcbFree_h = Some (map P_list (rev [0..<MAX_PROC]))"
  "boot_rings SemdFree_h = Some (map S_freelink (rev [0..<MAX_PROC]))"
  "boot_rings (NsList_h NS_PID) = Some []"
  "boot_rings (NsFree_h NS_PID) = Some (map N_link (map (Pair NS_PID) (rev [0..<MAX_PROC])))"
  by (simp_all add: boot_rings_def init_rings_def)

lemma boot_vacant:
  "vacant (P_child p) boot_rings" "vacant (P_sib p) boot_rings"
  by (auto simp: vacant_def not_in_nodes boot_rings_def init_rings_def static_rings_def split: if_splits)

lemma table_order: "rev [0..<MAX_PROC] = 19 # 18 # rev [0..<18]"
proof -
  have "MAX_PROC = Suc (Suc 18)" by (simp add: MAX_PROC_def)
  then show ?thesis unfolding \<open>MAX_PROC = _\<close> upt_Suc by simp
qed

text \<open>Two processes allocated, then one of them blocked on the semaphore at \<open>0x20001000\<close>.\<close>

definition two_procs :: kmem where
  "two_procs = the (do { (_, s) \<leftarrow> allocPcb phase1_boot; (_, s) \<leftarrow> allocPcb s; Some s })"

definition two_rings :: "lnode rmap" where
  "two_rings = boot_rings(PcbFree_h \<mapsto> map P_list (rev [0..<18]),
     P_list 19 \<mapsto> [], P_child 19 \<mapsto> [], P_sib 19 \<mapsto> [], P_list 18 \<mapsto> [], P_child 18 \<mapsto> [], P_sib 18 \<mapsto> [])"

lemma two_procs:
  "ash two_procs two_rings (\<lambda>_. [])" "rings (lh two_procs) two_rings" "pcbs two_procs 18 = zero_pcb"
  "n_type two_procs = n_type phase1_boot"
proof -
  have R: "boot_rings PcbFree_h = Some (map P_list (19 # 18 # rev [0..<18]))"
    unfolding boot_simps table_order ..
  from allocPcb_ash [OF phase1_boot(1) R boot_vacant] obtain h1 where
    a1: "allocPcb phase1_boot = Some (Ref 19, phase1_boot\<lparr>lh := h1, pcbs := (pcbs phase1_boot)(19 := zero_pcb)\<rparr>)"
    "ash (phase1_boot\<lparr>lh := h1, pcbs := (pcbs phase1_boot)(19 := zero_pcb)\<rparr>)
       (boot_rings(PcbFree_h \<mapsto> map P_list (18 # rev [0..<18]), P_list 19 \<mapsto> [], P_child 19 \<mapsto> [], P_sib 19 \<mapsto> []))
       (\<lambda>_. [])" (is "ash ?s1 ?R1 _") by blast
  have "vacant (P_child 18) ?R1" "vacant (P_sib 18) ?R1"
    by (auto simp: vacant_def not_in_nodes boot_rings_def init_rings_def static_rings_def split: if_splits)
  from allocPcb_ash [OF a1(2) _ this, of "rev [0..<18]"] obtain h2 where
    a2: "allocPcb ?s1 = Some (Ref 18, ?s1\<lparr>lh := h2, pcbs := (pcbs ?s1)(18 := zero_pcb)\<rparr>)"
    "ash (?s1\<lparr>lh := h2, pcbs := (pcbs ?s1)(18 := zero_pcb)\<rparr>)
       (?R1(PcbFree_h \<mapsto> map P_list (rev [0..<18]), P_list 18 \<mapsto> [], P_child 18 \<mapsto> [], P_sib 18 \<mapsto> [])) (\<lambda>_. [])"
    by auto
  have t: "two_procs = ?s1\<lparr>lh := h2, pcbs := (pcbs ?s1)(18 := zero_pcb)\<rparr>"
    unfolding two_procs_def a1(1) by (simp add: a2(1))
  have "?R1(PcbFree_h \<mapsto> map P_list (rev [0..<18]), P_list 18 \<mapsto> [], P_child 18 \<mapsto> [], P_sib 18 \<mapsto> []) = two_rings"
    by (auto simp: two_rings_def)
  with a2(2) show a: "ash two_procs two_rings (\<lambda>_. [])" unfolding t by simp
  show "rings (lh two_procs) two_rings" by (rule ash_rings [OF a])
  show "pcbs two_procs 18 = zero_pcb" "n_type two_procs = n_type phase1_boot" unfolding t by simp_all
qed

definition one_blocked :: kmem where
  "one_blocked = snd (the (insertBlocked 0x20001000 (Ref 19) two_procs))"

lemma two_simps: "two_rings (P_list 19) = Some []" "two_rings (P_list 18) = Some []"
  "two_rings (P_child 18) = Some []" "two_rings (P_sib 18) = Some []" "two_rings (P_sib 19) = Some []"
  "two_rings (P_child 19) = Some []" "two_rings PcbFree_h = Some (map P_list (rev [0..<18]))"
  by (simp_all add: two_rings_def)

lemma one_blocked: "\<exists>R. ash one_blocked R ((\<lambda>_. [])(0x20001000 := [19]))"
proof -
  have "loose (P_list 19) two_rings" by (simp add: loose_def two_simps)
  from insertBlocked_ash [OF two_procs(1) this, where k = "0x20001000"] show ?thesis
    by (auto simp: one_blocked_def MAX_PROC_def)
qed

text \<open>The second process as a child of the first.\<close>

definition tree_family :: kmem where
  "tree_family = the (insertChild (Ref 19) (Ref 18) two_procs)"

section \<open>Process control blocks\<close>

text \<open>C24: a process control block taken from the free list (\<open>allocPcb\<close>) is the first one of
  the list, was not in use, has all its fields reset, and its three list nodes are empty lists
  of their own; no other block changes.  With an empty free list the result is NULL and nothing
  changes.\<close>

theorem allocPcb_fresh:
  assumes "pcb_pool s ps U"
  shows "case ps of
      [] \<Rightarrow> allocPcb s = Some (NULL, s)
    | p # qs \<Rightarrow> \<exists>h. allocPcb s = Some (Ref p, s\<lparr>lh := h, pcbs := (pcbs s)(p := zero_pcb)\<rparr>) \<and>
        alone h (P_list p) \<and> alone h (P_child p) \<and> alone h (P_sib p) \<and> p \<notin> U \<and>
        pcb_pool (s\<lparr>lh := h, pcbs := (pcbs s)(p := zero_pcb)\<rparr>) qs (insert p U)"
proof (cases ps)
  case Nil
  then show ?thesis using pcbs_pool.alloc_empty assms by simp
next
  case (Cons p qs)
  from assms Cons obtain R where R: "rings (lh s) R" "R PcbFree_h = Some (map P_list (p # qs))"
      "vacant (P_child p) R" "vacant (P_sib p) R" and u: "p \<notin> U"
    unfolding pcb_pool_def by fastforce
  from allocPcb_rings [OF R] obtain h where h:
      "allocPcb s = Some (Ref p, s\<lparr>lh := h, pcbs := (pcbs s)(p := zero_pcb)\<rparr>)"
      "rings h (R(PcbFree_h \<mapsto> map P_list qs, P_list p \<mapsto> [], P_child p \<mapsto> [], P_sib p \<mapsto> []))" by blast
  have "alone h (P_list p)" "alone h (P_child p)" "alone h (P_sib p)"
    by (rule rings_alone [OF h(2)], simp)+
  moreover from pcbs_pool.alloc_first [OF assms [unfolded Cons]] h(1)
  have "pcb_pool (s\<lparr>lh := h, pcbs := (pcbs s)(p := zero_pcb)\<rparr>) qs (insert p U)" by auto
  ultimately show ?thesis using h(1) u Cons by auto
qed

lemma boot_pool: "pcb_pool phase1_boot (rev [0..<MAX_PROC]) {}"
  unfolding pcb_pool_def using phase1_boot(2) boot_simps(1) boot_vacant by auto

theorem allocPcb_fresh_witness:
  "\<exists>h. allocPcb phase1_boot = Some (Ref 19, phase1_boot\<lparr>lh := h, pcbs := (pcbs phase1_boot)(19 := zero_pcb)\<rparr>) \<and>
     alone h (P_list 19)"
  using allocPcb_fresh [OF boot_pool] unfolding table_order by auto

text \<open>the pool of process control blocks hands out each free block exactly once, in the
  order of the free list, and NULL when it is exhausted.\<close>

theorem pcbs_each_once:
  assumes "pcb_pool s ps U"
  shows "\<exists>s'. allocator.alloc_many allocPcb n s =
       Some (map Ref (take n ps) @ replicate (n - length ps) NULL, s') \<and>
     distinct (take n ps) \<and> set ps \<inter> U = {} \<and> pcb_pool s' (drop n ps) (set (take n ps) \<union> U)"
  using pcbs_pool.alloc_many_pool [OF assms, of n] pcbs_pool.pool_disjoint [OF assms]
  by (auto simp: distinct_take)

theorem pcbs_each_once_witness:
  "\<exists>s'. allocator.alloc_many allocPcb 21 phase1_boot = Some (map Ref (rev [0..<20]) @ [NULL], s')"
  using pcbs_each_once [OF boot_pool, of 21] by (auto simp: MAX_PROC_def)

text \<open>a block in use that is freed (\<open>freePcb\<close>) is the next one to be allocated, and the
  pool is then as before.\<close>

theorem freePcb_allocPcb:
  assumes "pcb_pool s ps U" "p \<in> U"
  shows "\<exists>s1 s2. freePcb (Ref p) s = Some s1 \<and> pcb_pool s1 (p # ps) (U - {p}) \<and>
     allocPcb s1 = Some (Ref p, s2) \<and> pcb_pool s2 ps U"
  using pcbs_pool.release_alloc [OF assms] pcbs_pool.release_used [OF assms] by fastforce

lemma two_pool: "pcb_pool two_procs (rev [0..<18]) {18, 19}"
proof -
  have "vacant (P_child p) two_rings" "vacant (P_sib p) two_rings" for p
    by (auto simp: vacant_def not_in_nodes two_rings_def boot_rings_def init_rings_def
      static_rings_def split: if_splits)
  then show ?thesis unfolding pcb_pool_def using two_procs(2) two_simps
    by (intro exI [of _ two_rings]) (auto simp: loose_def)
qed

theorem freePcb_allocPcb_witness:
  "\<exists>s1 s2. freePcb (Ref 18) two_procs = Some s1 \<and> allocPcb s1 = Some (Ref 18, s2)"
  using freePcb_allocPcb [OF two_pool, of 18] by auto

section \<open>Process queues\<close>

text \<open>C25: a process queue is first in, first out: distinct processes that are in no queue,
  inserted into an empty queue with \<open>insertProcQ\<close>, are removed by \<open>removeProcQ\<close> in the
  order of insertion, and the queue is empty again.\<close>

theorem procq_fifo:
  assumes "procq q s []" "\<And>p. p \<in> set ps \<Longrightarrow> queueable q s p" "distinct ps"
  shows "\<exists>s1 s2. fifo.enq_all (insertProcQ (Ref q)) ps s = Some s1 \<and> procq q s1 ps \<and>
     headProcQ (Ref q) s1 = Some (case ps of [] \<Rightarrow> NULL | p # _ \<Rightarrow> Ref p) \<and>
     fifo.deq_many (removeProcQ (Ref q)) (length ps) s1 = Some (map Ref ps, s2) \<and> procq q s2 []"
proof -
  from proc_queue.enq_all_queue [OF assms(1) assms(2,3)] obtain s1
    where s1: "proc_queue.enq_all q ps s = Some s1" "procq q s1 ps" by auto
  then have "headProcQ (Ref q) s1 = Some (case ps of [] \<Rightarrow> NULL | p # _ \<Rightarrow> Ref p)"
    using headProcQ_rings unfolding procq_def by blast
  with s1 proc_queue.deq_many_queue [OF s1(2), of "length ps"] show ?thesis by auto
qed

lemma two_queueable:
  assumes "q \<in> {Ready_queue, NsList_h 0}" "p \<in> {18, 19}"
  shows "queueable q two_procs p"
  using assms rings_alone [OF two_procs(2) two_simps(1)] rings_alone [OF two_procs(2) two_simps(2)]
  by (auto simp: queueable_def)

lemma two_empty_queue: "procq (NsList_h 0) two_procs []"
  unfolding procq_def using two_procs(2) boot_simps(3)
  by (intro exI [of _ two_rings]) (simp add: two_rings_def NS_PID_def)

theorem procq_fifo_witness:
  "\<exists>s1 s2. fifo.enq_all (insertProcQ (Ref (NsList_h 0))) [18, 19] two_procs = Some s1 \<and>
     fifo.deq_many (removeProcQ (Ref (NsList_h 0))) (length [18, 19::nat]) s1 = Some (map Ref [18, 19], s2)"
proof -
  have "queueable (NsList_h 0) two_procs p" if "p \<in> set [18, 19]" for p
    using two_queueable that by simp
  moreover have "distinct [18, 19::nat]" by simp
  ultimately show ?thesis using procq_fifo [OF two_empty_queue, of "[18, 19]"] by blast
qed

text \<open>\<open>outProcQ\<close> takes a process out of the middle of a queue, keeps the order of the
  others and leaves the process alone; for a process that is not in the queue the result is
  NULL and nothing changes.\<close>

theorem outProcQ_spec:
  assumes R: "rings (lh s) R" "R q = Some (map P_list ps)"
  shows "\<exists>s'. outProcQ (Ref q) (Ref p) s = Some (if p \<in> set ps then Ref p else NULL, s') \<and>
     procq q s' (removeAll p ps) \<and> (p \<notin> set ps \<longrightarrow> s' = s) \<and> (p \<in> set ps \<longrightarrow> alone (lh s') (P_list p))"
proof (cases "p \<in> set ps")
  case True
  then have "P_list p \<noteq> q" using ringsD(3) [OF R] by auto
  moreover from True outProcQ_rings [OF R, of p] obtain h where h:
      "outProcQ (Ref q) (Ref p) s = Some (Ref p, s\<lparr>lh := h\<rparr>)"
      "rings h (R(q \<mapsto> map P_list (removeAll p ps), P_list p \<mapsto> []))" by auto
  moreover have "alone h (P_list p)" by (rule rings_alone [OF h(2)]) simp
  ultimately show ?thesis using True unfolding procq_def by force
next
  case False
  with outProcQ_rings [OF R, of p] R show ?thesis unfolding procq_def by auto
qed

theorem outProcQ_spec_witness:
  "\<exists>s'. outProcQ (Ref PcbFree_h) (Ref 7) phase1_boot = Some (Ref 7, s') \<and>
     procq PcbFree_h s' (removeAll 7 (rev [0..<MAX_PROC]))"
  using outProcQ_spec [OF phase1_boot(2) boot_simps(1), of 7] by (auto simp: MAX_PROC_def)

section \<open>The process tree\<close>

text \<open>C26: \<open>insertChild\<close> makes a process without siblings the last child of a parent and
  records the parent in it; \<open>outChild\<close> takes it out of the list again and restores the tree,
  and leaves the \<open>p_parent\<close> field as it is.\<close>

theorem insertChild_outChild:
  assumes R: "rings (lh s) R" "R (P_child p) = Some (map P_sib cs)" "R (P_sib c) = Some []"
  shows "\<exists>s1 s2. insertChild (Ref p) (Ref c) s = Some s1 \<and> p_parent (pcbs s1 c) = Ref p \<and>
     rings (lh s1) (R(P_sib c := None, P_child p \<mapsto> map P_sib (cs @ [c]))) \<and>
     outChild (Ref c) s1 = Some (Ref c, s2) \<and> rings (lh s2) R \<and> pcbs s2 = pcbs s1"
proof -
  have c: "c \<notin> set cs"
    using alone_not_entry [OF R(1) rings_alone [OF R(1,3)] R(2)] by auto
  have l: "loose (P_sib c) R" using R(3) by (simp add: loose_def)
  from insertChild_rings [OF R(1,2) l] obtain h where h:
      "insertChild (Ref p) (Ref c) s = Some (s\<lparr>lh := h, pcbs := (pcbs s)(c := (pcbs s c)\<lparr>p_parent := Ref p\<rparr>)\<rparr>)"
      "rings h (R(P_sib c := None, P_child p \<mapsto> map P_sib (cs @ [c])))"
    using c unlink_self [OF rings_shape [OF R(1)] R(3)] by (auto simp: removeAll_id)
  let ?s1 = "s\<lparr>lh := h, pcbs := (pcbs s)(c := (pcbs s c)\<lparr>p_parent := Ref p\<rparr>)\<rparr>"
  from outChild_rings [of ?s1 "R(P_sib c := None, P_child p \<mapsto> map P_sib (cs @ [c]))" p "cs @ [c]" c] h(2)
  obtain h2 where h2: "outChild (Ref c) ?s1 = Some (Ref c, ?s1\<lparr>lh := h2\<rparr>)"
      "rings h2 (R(P_sib c := None, P_child p \<mapsto> map P_sib (cs @ [c]), P_child p \<mapsto> map P_sib cs, P_sib c \<mapsto> []))"
    using c by (auto simp: removeAll_id)
  have "R(P_sib c := None, P_child p \<mapsto> map P_sib (cs @ [c]), P_child p \<mapsto> map P_sib cs, P_sib c \<mapsto> []) = R"
    using R(2,3) by (auto simp: fun_eq_iff)
  with h h2 show ?thesis by auto
qed

theorem insertChild_outChild_witness:
  "\<exists>s1 s2. insertChild (Ref 19) (Ref 18) two_procs = Some s1 \<and> outChild (Ref 18) s1 = Some (Ref 18, s2) \<and>
     rings (lh s2) two_rings"
  using insertChild_outChild [OF two_procs(2), of 19 "[]" 18] two_simps by auto

lemma tree_family: "rings (lh tree_family) (two_rings(P_sib 18 := None, P_child 19 \<mapsto> [P_sib 18]))"
  "n_type tree_family = n_type phase1_boot"
  using insertChild_rings [OF two_procs(2), of 19 "[]" 18] two_simps
    unlink_self [OF rings_shape [OF two_procs(2)] two_simps(4)]
  two_procs(4)
  by (auto simp: tree_family_def loose_def)

text \<open>\<open>removeChild\<close> returns the children of a process in the order in which they were
  inserted, one at a time, and NULL when there is none; \<open>emptyChild\<close> says which it will be.\<close>

theorem removeChild_spec:
  assumes R: "rings (lh s) R" "R (P_child p) = Some (map P_sib cs)"
  shows "emptyChild (Ref p) s = Some (cs = []) \<and>
     (\<exists>s'. removeChild (Ref p) s = Some (case cs of [] \<Rightarrow> NULL | c # _ \<Rightarrow> Ref c, s') \<and>
        rings (lh s') (case cs of [] \<Rightarrow> R | c # cs' \<Rightarrow> R(P_child p \<mapsto> map P_sib cs', P_sib c \<mapsto> [])))"
proof (cases cs)
  case Nil
  with R removeChild_empty [OF R(1), of p] list_empty_rings [OF R] show ?thesis by (simp add: emptyChild_def)
next
  case (Cons c cs')
  with removeChild_rings [OF R(1), of p c cs'] R list_empty_rings [OF R] show ?thesis
    by (auto simp: emptyChild_def)
qed

theorem removeChild_spec_witness: "\<exists>s'. removeChild (Ref 19) tree_family = Some (Ref 18, s')"
  using removeChild_spec [OF tree_family(1), of 19 "[18]"] by auto

section \<open>Namespaces\<close>

text \<open>C27: \<open>addNamespace\<close> on a process returns, puts the process and all its descendants, and
  no other process, in the namespace, and changes only the entry of the type of the namespace.
  A tree of distinct processes never needs more recursion depth than the process table has
  entries.\<close>

theorem addNamespace_descendants:
  assumes R: "rings (lh s) R" "tree_at R t" and n: "n_type s n < NS_TYPE_MAX"
    and t: "distinct (members t)" "set (members t) \<subseteq> {..<MAX_PROC}"
  shows "addNamespace MAX_PROC (Ref (proot t)) (Ref n) s = Some (True, s\<lparr>pcbs := (\<lambda>p.
     if p \<in> set (members t)
     then (pcbs s p)\<lparr>namespaces := (namespaces (pcbs s p))(n_type s n := Ref n)\<rparr>
     else pcbs s p)\<rparr>)"
  using addNamespace_tree [OF R height_MAX_PROC [OF t] n] by (simp add: in_namespace_def)

theorem addNamespace_descendants_witness:
  "\<exists>s'. addNamespace MAX_PROC (Ref 19) (Ref (0, 0)) tree_family = Some (True, s') \<and>
     namespaces (pcbs s' 18) (n_type tree_family (0, 0)) = Ref (0, 0)"
proof -
  let ?t = "PNode 19 [PNode 18 []]"
  have "tree_at (two_rings(P_sib 18 := None, P_child 19 \<mapsto> [P_sib 18])) ?t" by (simp add: two_simps)
  moreover have "n_type tree_family (0, 0) < NS_TYPE_MAX"
    using phase1_boot(3) [of 0] tree_family(2) by (simp add: MAX_PROC_def NS_PID_def NS_TYPE_MAX_def)
  ultimately show ?thesis using addNamespace_descendants [OF tree_family(1), of ?t "(0, 0)"] by (simp add: MAX_PROC_def)
qed

text \<open>C28: an allocated namespace descriptor leaves the free list of its type for the list in
  use; freed, it is the next to be allocated; a type that does not exist gives NULL.\<close>

theorem namespace_pool:
  shows "(type' < 0 \<or> int NS_TYPE_MAX \<le> type' \<longrightarrow> allocNamespace type' s = Some (NULL, s)) \<and>
     (nsd_pool t s [] U \<longrightarrow> allocNamespace (int t) s = Some (NULL, s)) \<and>
     (nsd_pool t s (n # ns) U \<longrightarrow> (\<exists>s1 s2. allocNamespace (int t) s = Some (Ref n, s1) \<and>
        nsd_pool t s1 ns (insert n U) \<and> freeNamespace (Ref n) s1 = Some s2 \<and> nsd_pool t s2 (n # ns) U))"
proof (intro conjI impI)
  show "allocNamespace type' s = Some (NULL, s)" if "type' < 0 \<or> int NS_TYPE_MAX \<le> type'"
    by (rule allocNamespace_bad_type [OF that])
  show "allocNamespace (int t) s = Some (NULL, s)" if "nsd_pool t s [] U"
    by (rule nsds_pool.alloc_empty [OF that])
  assume p: "nsd_pool t s (n # ns) U"
  from nsds_pool.alloc_first [OF p] obtain s1 where
    s1: "allocNamespace (int t) s = Some (Ref n, s1)" "nsd_pool t s1 ns (insert n U)" by blast
  have "n \<notin> U" using nsds_pool.pool_disjoint [OF p] by auto
  with nsds_pool.release_used [OF s1(2), of n] s1
  show "\<exists>s1 s2. allocNamespace (int t) s = Some (Ref n, s1) \<and> nsd_pool t s1 ns (insert n U) \<and>
      freeNamespace (Ref n) s1 = Some s2 \<and> nsd_pool t s2 (n # ns) U" by auto
qed

lemma boot_nsd_pool: "nsd_pool 0 phase1_boot (map (Pair 0) (rev [0..<MAX_PROC])) {}"
  unfolding nsd_pool_def using phase1_boot(2,3) boot_simps(3,4)
  by (intro conjI exI [of _ boot_rings] exI [of _ "[]"]) (auto simp: NS_PID_def NS_TYPE_MAX_def)

theorem namespace_pool_witness:
  "\<exists>s1 s2. allocNamespace 0 phase1_boot = Some (Ref (0, 19), s1) \<and> freeNamespace (Ref (0, 19)) s1 = Some s2"
  using namespace_pool [where t = 0 and s = phase1_boot and n = "(0, 19)"] boot_nsd_pool unfolding table_order by fastforce

section \<open>The active semaphore hash\<close>

text \<open>The abstract hash: the queue of every key, and what its processes must satisfy.\<close>

definition sem_state :: "'z kmem_scheme \<Rightarrow> ash \<Rightarrow> bool" where
  "sem_state s A \<longleftrightarrow> (\<exists>R. ash s R A) \<and> (\<forall>k. set (A k) \<subseteq> {..<MAX_PROC})"

text \<open>C21: \<open>insertBlocked\<close> appends a process that is in no queue to the queue of the key,
  with a new descriptor when the key has none, and records the key in the process.  It never
  reports a shortage of descriptors: there are as many as processes, and none is kept without
  a blocked process.\<close>

theorem insertBlocked_appends:
  assumes "sem_state s A" "p < MAX_PROC" "alone (lh s) (P_list p)"
  shows "\<exists>s'. insertBlocked k (Ref p) s = Some (False, s') \<and> sem_state s' (A(k := A k @ [p])) \<and>
     pcbs s' = (pcbs s)(p := (pcbs s p)\<lparr>p_semAdd := k\<rparr>)"
proof -
  from assms(1) obtain R where A: "ash s R A" "\<And>j. set (A j) \<subseteq> {..<MAX_PROC}" by (auto simp: sem_state_def)
  have r: "ash s (R(P_list p \<mapsto> [])) A" by (rule ash_add_alone [OF A(1) assms(3)])
  have out: "p \<notin> set (A j)" for j by (rule alone_not_blocked [OF A(1) assms(3)])
  have "card {j. A j \<noteq> []} < MAX_PROC" by (rule semd_suffice [OF A assms(2) out])
  then show ?thesis
    using insertBlocked_ash [OF r _ out, of k] A(2) assms(2) by (fastforce simp: loose_def sem_state_def)
qed

lemma two_sem_state: "sem_state two_procs (\<lambda>_. [])" "sem_state one_blocked ((\<lambda>_. [])(0x20001000 := [19]))"
  using two_procs(1) one_blocked by (auto simp: sem_state_def MAX_PROC_def)

theorem insertBlocked_appends_witness:
  "\<exists>s'. insertBlocked 0x20001000 (Ref 19) two_procs = Some (False, s') \<and>
     sem_state s' ((\<lambda>_. [])(0x20001000 := [19]))"
  using insertBlocked_appends [OF two_sem_state(1), of 19 "0x20001000"]
    rings_alone [OF two_procs(2) two_simps(1)] by (auto simp: MAX_PROC_def)

text \<open>C22: \<open>removeBlocked\<close> takes the first process from the queue of a key, the one that
  \<open>headBlocked\<close> returns, and clears its \<open>p_semAdd\<close>; on a key without blocked processes the
  result is NULL and nothing changes.\<close>

theorem removeBlocked_first:
  assumes "sem_state s A"
  shows "headBlocked k s = Some (case A k of [] \<Rightarrow> NULL | p # _ \<Rightarrow> Ref p) \<and>
    (case A k of
       [] \<Rightarrow> removeBlocked k s = Some (NULL, s)
     | p # ps \<Rightarrow> \<exists>s'. removeBlocked k s = Some (Ref p, s') \<and> sem_state s' (A(k := ps)) \<and>
         pcbs s' = (pcbs s)(p := (pcbs s p)\<lparr>p_semAdd := 0\<rparr>))"
proof -
  from assms obtain R where A: "ash s R A" "\<And>j. set (A j) \<subseteq> {..<MAX_PROC}" by (auto simp: sem_state_def)
  show ?thesis
  proof (cases "A k")
    case Nil
    with headBlocked_ash [OF A(1), of k] removeBlocked_none [OF A(1) Nil] show ?thesis by simp
  next
    case (Cons p ps)
    then have "set ps \<subseteq> {..<MAX_PROC}" using A(2) [of k] by simp
    with removeBlocked_ash [OF A(1) Cons] A(2) headBlocked_ash [OF A(1), of k] Cons show ?thesis
      by (fastforce simp: sem_state_def)
  qed
qed

theorem removeBlocked_first_witness:
  "\<exists>s'. removeBlocked 0x20001000 one_blocked = Some (Ref 19, s') \<and> p_semAdd (pcbs s' 19) = 0"
  using removeBlocked_first [OF two_sem_state(2), of "0x20001000"] by auto

text \<open>C23: \<open>outBlocked\<close> takes a blocked process out of the queue of its semaphore, wherever
  it is in the queue, and clears its \<open>p_semAdd\<close>; the other queues and the order of the others
  do not change.  For a process that is not in the queue of its \<open>p_semAdd\<close> the result is NULL
  and nothing changes.\<close>

theorem outBlocked_spec:
  assumes "sem_state s A"
  shows "(p \<in> set (A k) \<longrightarrow> (\<exists>s'. outBlocked (Ref p) s = Some (Ref p, s') \<and>
       sem_state s' (A(k := removeAll p (A k))) \<and> pcbs s' = (pcbs s)(p := (pcbs s p)\<lparr>p_semAdd := 0\<rparr>))) \<and>
     (p \<notin> set (A (p_semAdd (pcbs s p))) \<longrightarrow> outBlocked (Ref p) s = Some (NULL, s))"
proof (intro conjI impI)
  from assms obtain R where A: "ash s R A" "\<And>j. set (A j) \<subseteq> {..<MAX_PROC}" by (auto simp: sem_state_def)
  show "outBlocked (Ref p) s = Some (NULL, s)" if "p \<notin> set (A (p_semAdd (pcbs s p)))"
    by (rule outBlocked_none [OF A(1) that])
  assume p: "p \<in> set (A k)"
  have "set (removeAll p (A k)) \<subseteq> {..<MAX_PROC}" using A(2) [of k] by auto
  with outBlocked_ash [OF A(1) p] A(2)
  show "\<exists>s'. outBlocked (Ref p) s = Some (Ref p, s') \<and>
       sem_state s' (A(k := removeAll p (A k))) \<and> pcbs s' = (pcbs s)(p := (pcbs s p)\<lparr>p_semAdd := 0\<rparr>)"
    by (fastforce simp: sem_state_def)
qed

theorem outBlocked_spec_witness:
  "\<exists>s'. outBlocked (Ref 19) one_blocked = Some (Ref 19, s') \<and> sem_state s' (\<lambda>_. [])"
  using outBlocked_spec [OF two_sem_state(2), of 19 "0x20001000"] by (auto simp: fun_upd_idem)

text \<open>a semaphore is fair: distinct processes that are in no queue, blocked one after
  the other on a key that nobody waits for, are woken in the order in which they were
  blocked.\<close>

theorem semaphore_fifo:
  assumes "blocked_on k s []" "\<And>p. p \<in> set ps \<Longrightarrow> blockable s p" "distinct ps"
  shows "\<exists>s1 s2. fifo.enq_all (block_on k) ps s = Some s1 \<and> blocked_on k s1 ps \<and>
     fifo.deq_many (removeBlocked k) (length ps) s1 = Some (map Ref ps, s2) \<and> blocked_on k s2 []"
proof -
  from sem_queue.enq_all_queue [OF assms(1) assms(2,3)] obtain s1
    where s1: "fifo.enq_all (block_on k) ps s = Some s1" "blocked_on k s1 ps" by auto
  with sem_queue.deq_many_queue [OF s1(2), of "length ps"] show ?thesis by auto
qed

theorem semaphore_fifo_witness:
  "\<exists>s1 s2. fifo.enq_all (block_on 0x20001000) [18, 19] two_procs = Some s1 \<and>
     fifo.deq_many (removeBlocked 0x20001000) (length [18, 19::nat]) s1 = Some (map Ref [18, 19], s2)"
proof -
  have "blocked_on 0x20001000 two_procs []"
    unfolding blocked_on_def using two_procs(1) by (intro exI [of _ two_rings] exI [of _ "\<lambda>_. []"]) simp
  moreover have "blockable two_procs p" if "p \<in> set [18, 19]" for p
    using that rings_alone [OF two_procs(2) two_simps(1)] rings_alone [OF two_procs(2) two_simps(2)]
    by (auto simp: blockable_def MAX_PROC_def)
  moreover have "distinct [18, 19::nat]" by simp
  ultimately show ?thesis using semaphore_fifo [of "0x20001000" two_procs "[18, 19]"] by blast
qed

section \<open>Initialisation\<close>

text \<open>\<open>initPcbs\<close>, \<open>initASH\<close> and \<open>initNamespaces\<close>, run on the static storage (or after the
  ready queue has been emptied, as \<open>main\<close> does), return with every process control block and
  every namespace descriptor free, no process blocked, and every namespace descriptor of its
  row's type.\<close>

theorem phase1_init_spec:
  assumes R: "rings (lh s) R" "start_rings R" and B: "chains (hh s) (\<lambda>_. [])"
  shows "\<exists>s'. do { s \<leftarrow> initPcbs s; s \<leftarrow> initASH s; initNamespaces s } = Some s' \<and>
     pcb_pool s' (rev [0..<MAX_PROC]) {} \<and> sem_state s' (\<lambda>_. []) \<and>
     nsd_pool NS_PID s' (map (Pair NS_PID) (rev [0..<MAX_PROC])) {}"
proof -
  from phase1_init [OF assms] obtain h f where
    e: "do { s \<leftarrow> initPcbs s; s \<leftarrow> initASH s; initNamespaces s } = Some (s\<lparr>lh := h, n_type := f\<rparr>)"
    and A: "ash (s\<lparr>lh := h, n_type := f\<rparr>) (init_rings R) (\<lambda>_. [])" and f: "\<forall>j < MAX_PROC. f (NS_PID, j) = NS_PID"
    by blast
  have r: "rings h (init_rings R)" using ash_rings [OF A] by simp
  have "P_child p \<notin> nodes R" "P_sib p \<notin> nodes R" for p using start_rings_nodes [OF R(2)] by auto
  then have "P_child p \<notin> nodes (init_rings R)" "P_sib p \<notin> nodes (init_rings R)" for p
    unfolding not_in_nodes init_rings_def by (auto split: if_splits)
  then have "vacant (P_child p) (init_rings R)" "vacant (P_sib p) (init_rings R)" for p
    by (simp_all add: vacant_def)
  then have "pcb_pool (s\<lparr>lh := h, n_type := f\<rparr>) (rev [0..<MAX_PROC]) {}"
    using r unfolding pcb_pool_def by (intro exI [of _ "init_rings R"]) (auto simp: init_rings_def)
  moreover have "nsd_pool NS_PID (s\<lparr>lh := h, n_type := f\<rparr>) (map (Pair NS_PID) (rev [0..<MAX_PROC])) {}"
    using r f unfolding nsd_pool_def
    by (intro conjI exI [of _ "init_rings R"] exI [of _ "[]"]) (auto simp: init_rings_def NS_PID_def NS_TYPE_MAX_def NS_TYPE_LAST_def)
  moreover have "sem_state (s\<lparr>lh := h, n_type := f\<rparr>) (\<lambda>_. [])" using A by (auto simp: sem_state_def)
  ultimately show ?thesis using e by blast
qed

theorem phase1_init_spec_witness:
  "\<exists>s'. do { s \<leftarrow> initPcbs static_kmem; s \<leftarrow> initASH s; initNamespaces s } = Some s' \<and>
     pcb_pool s' (rev [0..<MAX_PROC]) {}"
  using phase1_init_spec [of static_kmem static_rings] rings_static chains_static start_rings_static
  by (auto simp: static_kmem_def)

end
