(* ===== verification/List_Laws.thy ===== *)
theory List_Laws
  imports ListRings
begin

text \<open>
  The operations of \<open>lib/list.h\<close> on whole lists: joining two lists (\<open>list_splice\<close> and its
  variants), cutting one in two (\<open>list_cut_position\<close>, \<open>list_cut_before\<close>), replacing and
  swapping entries, moving a section to the tail and rotating.  A list read at some place
  is \<open>us @ vs\<close>; the entries at the place are \<open>last (q # us)\<close> and \<open>hd (vs @ [q])\<close>, where
  \<open>q\<close> is the head.
\<close>

section \<open>Two rings at a time\<close>

lemma last_not_butlast: "distinct xs \<Longrightarrow> xs \<noteq> [] \<Longrightarrow> last xs \<notin> set (butlast xs)"
  using append_butlast_last_id [of xs] distinct_append [of "butlast xs" "[last xs]"] by simp

lemma hd_not_tl: "distinct xs \<Longrightarrow> xs \<noteq> [] \<Longrightarrow> hd xs \<notin> set (tl xs)"
  by (cases xs) simp_all

lemma ring_ends:
  assumes "rings h R" "R q = Some xs" "xs \<noteq> []"
  shows "nxt h q = Ref (hd xs)" "prv h (hd xs) = Ref q" "linked h xs"
    and "nxt h (last xs) = Ref q" "prv h q = Ref (last xs)"
  using ringsD(1) [OF assms(1,2)] assms(3) linked_append [of "[q]" "xs @ [q]" h] linked_append [of xs "[q]" h]
  by auto

lemma ring_parts:
  assumes "rings h R" "R q = Some (us @ vs)"
  shows "linked h (q # us)" "linked h (vs @ [q])"
  using ringsD(1) [OF assms] linked_append [of "q # us" "vs @ [q]" h] by auto

lemma shape_two:
  assumes R: "shape R" and d: "distinct (a # us @ b # vs)"
    and new: "\<And>n. n \<in> set (a # us @ b # vs) \<Longrightarrow> in_ring R a n \<or> in_ring R b n \<or> n \<notin> nodes R"
  shows "shape (R(a \<mapsto> us, b \<mapsto> vs))"
proof (rule shapeI)
  show "distinct (q # xs)" if "(R(a \<mapsto> us, b \<mapsto> vs)) q = Some xs" for q xs
    using that d shape_distinct [OF R] by (auto split: if_splits)
  fix c e n
  assume c: "in_ring (R(a \<mapsto> us, b \<mapsto> vs)) c n" and e: "in_ring (R(a \<mapsto> us, b \<mapsto> vs)) e n"
  have other: "\<not> in_ring R q n" if "n \<in> set (a # us @ b # vs)" "q \<noteq> a" "q \<noteq> b" for q
    using new [OF that(1)] in_ring_unique [OF R, of q n] that(2,3) by (auto simp: nodes_def)
  show "c = e"
    using c e d other in_ring_unique [OF R, of c n e] unfolding in_ring_upd by (auto split: if_splits)
qed

lemma rings_two:
  assumes R: "rings h R" and shape: "shape (R(a := u, b := v))" and agree: "agree_on (- D) h h'"
    and D: "\<And>n. n \<in> D \<Longrightarrow> in_ring R a n \<or> in_ring R b n \<or> n \<notin> nodes R"
    and lnk: "\<And>xs. b \<noteq> a \<Longrightarrow> u = Some xs \<Longrightarrow> linked h' (a # xs @ [a])"
      "\<And>xs. v = Some xs \<Longrightarrow> linked h' (b # xs @ [b])"
  shows "rings h' (R(a := u, b := v))"
proof (rule rings_frame [OF R shape agree])
  fix q xs
  assume q: "(R(a := u, b := v)) q = Some xs"
  have "n \<notin> D" if "R q = Some xs" "q \<noteq> a" "q \<noteq> b" "n \<in> set (q # xs)" for n
  proof
    assume "n \<in> D"
    have n: "in_ring R q n" using that(1,4) by (auto simp: in_ring_def)
    then have "n \<in> nodes R" by (auto simp: nodes_def)
    with D [OF \<open>n \<in> D\<close>] have "in_ring R a n \<or> in_ring R b n" by blast
    with in_ring_unique [OF rings_shape [OF R] n] that(2,3) show False by blast
  qed
  note outside = this
  consider "q = b" | "q = a" "b \<noteq> a" | "q \<noteq> a" "q \<noteq> b" by blast
  then show "R q = Some xs \<and> set (q # xs) \<inter> D = {} \<or> linked h' (q # xs @ [q])"
  proof cases
    case 1
    with q have "v = Some xs" by simp
    from lnk(2) [OF this] show ?thesis unfolding 1 by blast
  next
    case 2
    with q have "u = Some xs" by simp
    from lnk(1) [OF 2(2) this] show ?thesis unfolding 2(1) by blast
  next
    case 3
    with q have "R q = Some xs" by simp
    with outside [OF this 3] show ?thesis by blast
  qed
qed

lemma in_ring_at: "R q = Some xs \<Longrightarrow> in_ring R q n \<longleftrightarrow> n = q \<or> n \<in> set xs"
  by (auto simp: in_ring_def)

lemma rings_apart:
  assumes "rings h R" "R a = Some xs" "R b = Some ys" "a \<noteq> b"
  shows "distinct (a # xs @ b # ys)"
proof -
  have "n \<noteq> b \<and> n \<notin> set ys" if "n = a \<or> n \<in> set xs" for n
    using in_ring_unique [OF rings_shape [OF assms(1)], of a n b] that assms(2-4) by (auto simp: in_ring_at)
  with ringsD(2,3) [OF assms(1,2)] ringsD(2,3) [OF assms(1,3)] assms(4) show ?thesis by auto
qed

section \<open>Joining lists\<close>

lemma raw_list_splice_linked:
  assumes R: "rings h R" "R a = Some xs" "R b = Some (us @ vs)" "a \<noteq> b" "xs \<noteq> []"
  shows "\<exists>h'. raw_list_splice (Ref a) (Ref (last (b # us))) (Ref (hd (vs @ [b]))) h = Some h' \<and>
           linked h' (b # us @ xs @ vs @ [b]) \<and>
           agree_on (- {hd xs, last xs, last (b # us), hd (vs @ [b])}) h h'"
proof -
  let ?p = "last (b # us)" and ?n = "hd (vs @ [b])"
  let ?h' = "h\<lparr>prv := (prv h)(hd xs := Ref ?p, ?n := Ref (last xs)),
                nxt := (nxt h)(?p := Ref (hd xs), last xs := Ref ?n)\<rparr>"
  note ends = ring_ends [OF R(1,2,5)] and parts = ring_parts [OF R(1,3)]
  have d: "distinct (a # xs @ b # us @ vs)" using rings_apart [OF R(1-4)] .
  have in_xs: "hd xs \<in> set xs" "last xs \<in> set xs" using R(5) by simp_all
  have in_b: "?p \<in> set (b # us)" "?n \<in> set (vs @ [b])" by (auto simp: hd_append)
  have run: "raw_list_splice (Ref a) (Ref ?p) (Ref ?n) h = Some ?h'"
    using ends by (simp add: raw_list_splice_def)
  have "?p \<notin> set (butlast (b # us))" by (rule last_not_butlast) (use d in simp_all)
  moreover have "?n \<notin> set us" using in_b(2) d by auto
  moreover have "last xs \<notin> set (b # us)" "hd xs \<notin> set (b # us)" using in_xs d by auto
  ultimately have l1: "linked ?h' (b # us)"
    using parts(1) by (subst linked_cong [of _ _ h]) (auto dest: in_set_butlastD split: if_splits)
  have "last xs \<notin> set (butlast xs)" "hd xs \<notin> set (tl xs)"
    using last_not_butlast [of xs] hd_not_tl [of xs] d R(5) by auto
  moreover have "?p \<notin> set xs" "?n \<notin> set xs" using in_b d by auto
  ultimately have l2: "linked ?h' xs"
    using ends(3) by (subst linked_cong [of _ _ h]) (auto dest: in_set_butlastD in_set_tlD)
  have "?n \<notin> set (tl (vs @ [b]))" using d by (cases vs) auto
  moreover have "?p \<notin> set (butlast (vs @ [b]))" using in_b(1) d by auto
  moreover have "hd xs \<notin> set (vs @ [b])" "last xs \<notin> set (vs @ [b])" using in_xs d by auto
  ultimately have l3: "linked ?h' (vs @ [b])"
    using parts(2) by (subst linked_cong [of _ _ h]) (auto dest: in_set_butlastD in_set_tlD)
  have "linked ?h' (xs @ vs @ [b])"
  proof (subst linked_append)
    have "?n \<noteq> hd xs" using in_b(2) in_xs(1) d by auto
    moreover have "last xs \<noteq> ?p" using in_b(1) in_xs(2) d by auto
    ultimately show "linked ?h' xs \<and> nxt ?h' (last xs) = Ref ?n \<and> prv ?h' ?n = Ref (last xs) \<and>
        linked ?h' (vs @ [b])" using l2 l3 by simp
  qed (use R(5) in simp_all)
  moreover have "nxt ?h' ?p = Ref (hd xs)" "prv ?h' (hd xs) = Ref ?p"
    using in_b in_xs d by auto
  ultimately have "linked ?h' ((b # us) @ xs @ vs @ [b])"
    using l1 R(5) by (subst linked_append) simp_all
  with run show ?thesis by (auto simp: agree_on_def)
qed

text \<open>The entries of \<open>a\<close> go to a place of the list \<open>b\<close>; the head \<open>a\<close> is left behind.\<close>

lemma raw_list_splice_rings:
  assumes R: "rings h R" "R a = Some xs" "R b = Some (us @ vs)" "a \<noteq> b" "xs \<noteq> []"
  shows "\<exists>h'. raw_list_splice (Ref a) (Ref (last (b # us))) (Ref (hd (vs @ [b]))) h = Some h' \<and>
           rings h' (R(a := None, b \<mapsto> us @ xs @ vs))"
proof -
  obtain h' where h': "raw_list_splice (Ref a) (Ref (last (b # us))) (Ref (hd (vs @ [b]))) h = Some h'"
    "linked h' (b # us @ xs @ vs @ [b])" "agree_on (- {hd xs, last xs, last (b # us), hd (vs @ [b])}) h h'"
    using raw_list_splice_linked [OF R] by blast
  have d: "distinct (a # xs @ b # us @ vs)" using rings_apart [OF R(1-4)] .
  have "shape (R(a \<mapsto> [], b \<mapsto> us @ xs @ vs))"
    using d R(2,3) by (intro shape_two [OF rings_shape [OF R(1)]]) (auto simp: in_ring_at)
  from shape_remove [OF this, of a] have "shape (R(a := None, b \<mapsto> us @ xs @ vs))"
    using R(4) by (simp add: fun_upd_twist)
  then have "rings h' (R(a := None, b \<mapsto> us @ xs @ vs))"
  proof (rule rings_two [OF R(1) _ h'(3)])
    show "in_ring R a n \<or> in_ring R b n \<or> n \<notin> nodes R"
      if "n \<in> {hd xs, last xs, last (b # us), hd (vs @ [b])}" for n
      using that R(2,3,5) hd_last_in(1) [of vs b us] hd_last_in(2) [of b us vs] by (auto simp: in_ring_at simp del: last.simps)
  qed (use h'(2) in simp_all)
  with h'(1) show ?thesis by blast
qed

lemma forgotten_head:
  assumes "rings h R" "a \<noteq> b" "R a = Some xs" "R b = Some ys" "set zs \<subseteq> set xs \<union> set ys"
  shows "a \<notin> nodes (R(a := None, b \<mapsto> zs))"
proof -
  have "a \<notin> set zs" using rings_apart [OF assms(1,3,4,2)] assms(5) by auto
  moreover have "\<not> in_ring R q a" if "q \<noteq> a" for q
    using in_ring_unique [OF rings_shape [OF assms(1)], of q a a] that assms(3) by (auto simp: in_ring_at)
  ultimately show ?thesis using assms(2) by (auto simp: nodes_def in_ring_upd)
qed

lemma list_splice_rings:
  assumes R: "rings h R" "R a = Some xs" "R b = Some ys" "a \<noteq> b" "xs \<noteq> []"
  shows "\<exists>h'. list_splice (Ref a) (Ref b) h = Some h' \<and> rings h' (R(a := None, b \<mapsto> xs @ ys))"
    and "\<exists>h'. list_splice_tail (Ref a) (Ref b) h = Some h' \<and> rings h' (R(a := None, b \<mapsto> ys @ xs))"
proof -
  have e: "list_empty (Ref a) h = Some False" using list_empty_rings [OF R(1,2)] R(5) by simp
  show "\<exists>h'. list_splice (Ref a) (Ref b) h = Some h' \<and> rings h' (R(a := None, b \<mapsto> xs @ ys))"
    using raw_list_splice_rings [OF R(1,2) _ R(4,5), of "[]" ys] ring_cut(1) [OF R(1), of b "[]" ys] R(3) e
    by (simp add: list_splice_def)
  show "\<exists>h'. list_splice_tail (Ref a) (Ref b) h = Some h' \<and> rings h' (R(a := None, b \<mapsto> ys @ xs))"
    using raw_list_splice_rings [OF R(1,2) _ R(4,5), of ys "[]"] ring_cut(2) [OF R(1), of b ys "[]"] R(3) e
    by (simp add: list_splice_tail_def del: last.simps)
qed

lemma list_splice_init_rings:
  assumes R: "rings h R" "R a = Some xs" "R b = Some ys" "a \<noteq> b"
  shows "\<exists>h'. list_splice_init (Ref a) (Ref b) h = Some h' \<and> rings h' (R(a \<mapsto> [], b \<mapsto> xs @ ys))"
    and "\<exists>h'. list_splice_tail_init (Ref a) (Ref b) h = Some h' \<and> rings h' (R(a \<mapsto> [], b \<mapsto> ys @ xs))"
proof -
  have same: "R(a \<mapsto> [], b \<mapsto> ys) = R" if "xs = []" using that R(2,3) by (auto simp: fun_eq_iff)
  have init: "\<exists>h''. INIT_LIST_HEAD (Ref a) h' = Some h'' \<and> rings h'' (R(a \<mapsto> [], b \<mapsto> zs))"
    if "rings h' (R(a := None, b \<mapsto> zs))" "set zs \<subseteq> set xs \<union> set ys" for h' zs
    using INIT_LIST_HEAD_rings [OF that(1) forgotten_head [OF R(1,4,2,3) that(2)]] R(4)
    by (simp add: fun_upd_twist)
  have e: "list_empty (Ref a) h = Some (xs = [])" by (rule list_empty_rings [OF R(1,2)])
  show "\<exists>h'. list_splice_init (Ref a) (Ref b) h = Some h' \<and> rings h' (R(a \<mapsto> [], b \<mapsto> xs @ ys))"
  proof (cases "xs = []")
    case False
    from list_splice_rings(1) [OF R False] obtain h1
      where h1: "list_splice (Ref a) (Ref b) h = Some h1" "rings h1 (R(a := None, b \<mapsto> xs @ ys))" by blast
    then obtain n where n: "get_next (Ref b) h = Some n" "raw_list_splice (Ref a) (Ref b) n h = Some h1"
      using e False by (auto simp: list_splice_def)
    from init [OF h1(2)] obtain h2 where "INIT_LIST_HEAD (Ref a) h1 = Some h2"
      "rings h2 (R(a \<mapsto> [], b \<mapsto> xs @ ys))" by auto
    with n e False show ?thesis by (simp add: list_splice_init_def del: get_next.simps)
  qed (use e R(1) same in \<open>simp add: list_splice_init_def\<close>)
  show "\<exists>h'. list_splice_tail_init (Ref a) (Ref b) h = Some h' \<and> rings h' (R(a \<mapsto> [], b \<mapsto> ys @ xs))"
  proof (cases "xs = []")
    case False
    from list_splice_rings(2) [OF R False] obtain h1
      where h1: "list_splice_tail (Ref a) (Ref b) h = Some h1" "rings h1 (R(a := None, b \<mapsto> ys @ xs))" by blast
    then obtain n where n: "get_prev (Ref b) h = Some n" "raw_list_splice (Ref a) n (Ref b) h = Some h1"
      using e False by (auto simp: list_splice_tail_def)
    from init [OF h1(2)] obtain h2 where "INIT_LIST_HEAD (Ref a) h1 = Some h2"
      "rings h2 (R(a \<mapsto> [], b \<mapsto> ys @ xs))" by auto
    with n e False show ?thesis by (simp add: list_splice_tail_init_def del: get_prev.simps)
  qed (use e R(1) same in \<open>simp add: list_splice_tail_init_def\<close>)
qed

section \<open>Cutting a list in two\<close>

text \<open>Both operations leave this store behind: the entries of \<open>us\<close> under the head \<open>a\<close>.\<close>

definition cut_store :: "'n \<Rightarrow> 'n \<Rightarrow> 'n list \<Rightarrow> 'n list \<Rightarrow> 'n lheap \<Rightarrow> 'n lheap" where
  "cut_store a b us vs h =
     h\<lparr>nxt := (nxt h)(a := Ref (hd us), last us := Ref a, b := Ref (hd (vs @ [b]))),
       prv := (prv h)(hd us := Ref a, a := Ref (last us), hd (vs @ [b]) := Ref b)\<rparr>"

lemma cut_store_rings:
  assumes R: "rings h R" "R b = Some (us @ vs)" "a \<notin> nodes R" "us \<noteq> []"
  shows "rings (cut_store a b us vs h) (R(a \<mapsto> us, b \<mapsto> vs))"
proof -
  let ?h' = "cut_store a b us vs h"
  have d: "distinct (a # us @ b # vs)"
    using ringsD(2,3) [OF R(1,2)] nodes_headI [of R b, OF R(2)] nodes_memI [of R b, OF R(2)] R(3) by auto
  have a: "a \<noteq> b" using d by auto
  have in_us: "hd us \<in> set us" "last us \<in> set us" using R(4) by simp_all
  have in_vs: "hd (vs @ [b]) \<in> set (b # vs)" by (auto simp: hd_append)
  have us: "linked h us" "linked h (vs @ [b])"
    using ring_parts [OF R(1,2)] linked_append [of "[b]" us h] R(4) by auto
  have "last us \<notin> set (butlast us)" "hd us \<notin> set (tl us)"
    using last_not_butlast [of us] hd_not_tl [of us] d R(4) by auto
  moreover have "hd (vs @ [b]) \<notin> set us" using in_vs d by auto
  moreover have "a \<notin> set us" "b \<notin> set us" using d by auto
  ultimately have l1: "linked ?h' us"
    using us(1) unfolding cut_store_def
    by (subst linked_cong [of _ _ h]) (auto dest: in_set_butlastD in_set_tlD)
  have "last us \<notin> set vs" "a \<notin> set vs" "b \<notin> set vs" "hd us \<notin> set (vs @ [b])" "a \<notin> set (vs @ [b])"
    using in_us d by auto
  moreover have "hd (vs @ [b]) \<notin> set (tl (vs @ [b]))" by (rule hd_not_tl) (use d in simp_all)
  ultimately have l2: "linked ?h' (vs @ [b])"
    using us(2) unfolding cut_store_def
    by (subst linked_cong [of _ _ h]) (auto dest: in_set_tlD)
  have "nxt ?h' a = Ref (hd us)" "prv ?h' (hd us) = Ref a" "nxt ?h' (last us) = Ref a" "prv ?h' a = Ref (last us)"
    using in_us in_vs d by (auto simp: cut_store_def)
  then have c1: "linked ?h' (a # us @ [a])"
    using l1 R(4) linked_append [of "[a]" "us @ [a]" ?h'] linked_append [of us "[a]" ?h'] by simp
  have "nxt ?h' b = Ref (hd (vs @ [b]))" "prv ?h' (hd (vs @ [b])) = Ref b" by (simp_all add: cut_store_def)
  then have c2: "linked ?h' (b # vs @ [b])"
    using l2 linked_append [of "[b]" "vs @ [b]" ?h'] by simp
  show ?thesis
  proof (rule rings_two [OF R(1)])
    show "shape (R(a \<mapsto> us, b \<mapsto> vs))"
      using d R(2,3) by (intro shape_two [OF rings_shape [OF R(1)]]) (auto simp: in_ring_at)
    show "agree_on (- {a, b, hd us, last us, hd (vs @ [b])}) h ?h'"
      by (auto simp: agree_on_def cut_store_def)
    show "in_ring R a n \<or> in_ring R b n \<or> n \<notin> nodes R"
      if "n \<in> {a, b, hd us, last us, hd (vs @ [b])}" for n
      using that in_us in_vs R(2,3) by (auto simp: in_ring_at)
  qed (use c1 c2 in simp_all)
qed

lemma list_is_singular_rings:
  assumes "rings h R" "R q = Some xs"
  shows "list_is_singular (Ref q) h = Some (length xs = 1)"
proof (cases xs)
  case (Cons x ys)
  have "hd xs = last xs \<longleftrightarrow> length xs = 1"
    using Cons ringsD(2) [OF assms] by (cases ys rule: rev_cases) auto
  then show ?thesis
    using Cons ring_ends [OF assms] list_empty_rings [OF assms] by (simp add: list_is_singular_def)
qed (use list_empty_rings [OF assms] in \<open>simp add: list_is_singular_def\<close>)

text \<open>\<open>entry\<close> is the last entry to move, or the head when nothing is to be moved.\<close>

lemma list_cut_position_rings:
  assumes R: "rings h R" "R b = Some (us @ vs)" "us @ vs \<noteq> []" "a \<notin> nodes R"
  shows "\<exists>h'. list_cut_position (Ref a) (Ref b) (Ref (last (b # us))) h = Some h' \<and>
           rings h' (R(a \<mapsto> us, b \<mapsto> vs))"
proof -
  have d: "distinct (b # us @ vs)" using ringsD(2,3) [OF R(1,2)] by simp
  have n: "nxt h b = Ref (hd (us @ vs))" by (rule ring_ends(1) [OF R(1,2,3)])
  show ?thesis
  proof (cases "us = []")
    case True
    have "R(a \<mapsto> [], b \<mapsto> vs) = R(a \<mapsto> [])"
      using R(2,4) True nodes_headI [of R b, OF R(2)] by (auto simp: fun_eq_iff)
    with INIT_LIST_HEAD_rings [OF R(1,4)] True list_empty_rings [OF R(1,2)] list_is_singular_rings [OF R(1,2)] R(3)
    show ?thesis by (simp add: list_cut_position_def list_is_head_def n)
  next
    case False
    have e: "last (b # us) = last us" "last us \<noteq> b" using False d last_in_set [OF False] by auto
    have "length (us @ vs) = 1 \<Longrightarrow> last us = hd us" using False by (cases us) auto
    moreover have "nxt h (last us) = Ref (hd (vs @ [b]))" using ring_cut(1) [OF R(1,2)] e(1) by simp
    moreover have "a \<noteq> last us" "a \<noteq> hd us" "a \<noteq> b"
      using R(4) nodes_memI [of R b, OF R(2)] nodes_headI [of R b, OF R(2)] False by auto
    ultimately have "list_cut_position (Ref a) (Ref b) (Ref (last us)) h = Some (cut_store a b us vs h)"
      using False n e(2) list_empty_rings [OF R(1,2)] list_is_singular_rings [OF R(1,2)]
      by (auto simp: list_cut_position_def raw_list_cut_position_def list_is_head_def cut_store_def)
    with cut_store_rings [OF R(1,2,4) False] e(1) show ?thesis by auto
  qed
qed

text \<open>\<open>entry\<close> is the first entry to stay, or the head when all are to be moved.\<close>

lemma list_cut_before_rings:
  assumes R: "rings h R" "R b = Some (us @ vs)" "a \<notin> nodes R"
  shows "\<exists>h'. list_cut_before (Ref a) (Ref b) (Ref (hd (vs @ [b]))) h = Some h' \<and>
           rings h' (R(a \<mapsto> us, b \<mapsto> vs))"
proof (cases "us = []")
  case True
  have "R(a \<mapsto> [], b \<mapsto> vs) = R(a \<mapsto> [])"
    using R(2,3) True nodes_headI [of R b, OF R(2)] by (auto simp: fun_eq_iff)
  with INIT_LIST_HEAD_rings [OF R(1,3)] True ring_cut(1) [OF R(1,2)]
  show ?thesis by (simp add: list_cut_before_def)
next
  case False
  have d: "distinct (b # us @ vs)" using ringsD(2,3) [OF R(1,2)] by simp
  have n: "nxt h b = Ref (hd us)" using ring_ends(1) [OF R(1,2)] False by simp
  have p: "prv h (hd (vs @ [b])) = Ref (last us)" using ring_cut(2) [OF R(1,2)] False by simp
  have "hd (vs @ [b]) \<notin> set us" using d by (cases vs) auto
  then have "hd us \<noteq> hd (vs @ [b])" using False by (metis list.set_sel(1))
  moreover have "a \<noteq> last us" "a \<noteq> hd us" "a \<noteq> b" "a \<noteq> hd (vs @ [b])"
    using R(3) nodes_memI [of R b, OF R(2)] nodes_headI [of R b, OF R(2)] False by (auto simp: hd_append)
  moreover have "last us \<noteq> b" using d False by auto
  ultimately have "list_cut_before (Ref a) (Ref b) (Ref (hd (vs @ [b]))) h = Some (cut_store a b us vs h)"
    using n p by (auto simp: list_cut_before_def cut_store_def)
  with cut_store_rings [OF R False] show ?thesis by blast
qed

section \<open>Replacing, swapping and rotating entries\<close>

lemma linked_insert:
  assumes "linked g (q # us)" "linked g (vs @ [q])"
    and "nxt g (last (q # us)) = Ref new" "prv g new = Ref (last (q # us))"
    and "nxt g new = Ref (hd (vs @ [q]))" "prv g (hd (vs @ [q])) = Ref new"
  shows "linked g (q # (us @ new # vs) @ [q])"
  using assms linked_append [of "q # us" "new # vs @ [q]" g] linked_append [of "[new]" "vs @ [q]" g] by simp

lemma list_replace_rings:
  assumes R: "rings h R" "R q = Some (us @ old # vs)" "new \<notin> nodes R"
  shows "\<exists>h'. list_replace (Ref old) (Ref new) h = Some h' \<and> rings h' (R(q \<mapsto> us @ new # vs))"
proof -
  let ?p = "last (q # us)" and ?n = "hd (vs @ [q])"
  let ?h' = "h\<lparr>nxt := (nxt h)(new := Ref ?n, ?p := Ref new), prv := (prv h)(?n := Ref new, new := Ref ?p)\<rparr>"
  have cut: "R q = Some ((us @ [old]) @ vs)" using R(2) by simp
  have d: "distinct (new # q # us @ old # vs)"
    using ringsD(2,3) [OF R(1,2)] nodes_headI [of R q, OF R(2)] nodes_memI [of R q, OF R(2)] R(3) by auto
  have p: "?p \<in> set (q # us)" "?n \<in> set (vs @ [q])" by (auto simp: hd_append)
  have "nxt h old = Ref ?n" "prv h ?n = Ref old" "prv h old = Ref ?p"
    using ring_cut [OF R(1) cut] ring_cut(2) [OF R(1,2)] by simp_all
  then have run: "list_replace (Ref old) (Ref new) h = Some ?h'"
    using p d by (auto simp: list_replace_def)
  have "linked ?h' (q # us)"
  proof (subst linked_cong [of _ _ h])
    have "?p \<notin> set (butlast (q # us))" by (rule last_not_butlast) (use d in simp_all)
    moreover have "new \<notin> set (q # us)" using d by auto
    ultimately show "\<forall>a \<in> set (butlast (q # us)). nxt ?h' a = nxt h a" by (auto dest: in_set_butlastD)
    show "\<forall>b \<in> set (tl (q # us)). prv ?h' b = prv h b" using p d by auto
  qed (rule ring_parts(1) [OF R(1,2)])
  moreover have "linked ?h' (vs @ [q])"
  proof (subst linked_cong [of _ _ h])
    show "\<forall>a \<in> set (butlast (vs @ [q])). nxt ?h' a = nxt h a" using p d by auto
    have "?n \<notin> set (tl (vs @ [q]))" by (rule hd_not_tl) (use d in simp_all)
    moreover have "new \<notin> set (vs @ [q])" using d by auto
    ultimately show "\<forall>b \<in> set (tl (vs @ [q])). prv ?h' b = prv h b" by (auto dest: in_set_tlD)
  qed (rule ring_parts(2) [OF R(1) cut])
  moreover have "nxt ?h' ?p = Ref new" "prv ?h' new = Ref ?p" "nxt ?h' new = Ref ?n" "prv ?h' ?n = Ref new"
    using p d by auto
  ultimately have "linked ?h' (q # (us @ new # vs) @ [q])" by (rule linked_insert)
  moreover have "shape (R(q \<mapsto> us @ new # vs))"
  proof -
    have "new \<notin> nodes (R(q \<mapsto> us @ vs))" using R(3) d by (auto simp: not_in_nodes)
    with shape_insert [OF shape_delete [OF rings_shape [OF R(1)] R(2)], of q us vs new] show ?thesis by simp
  qed
  ultimately have "rings ?h' (R(q \<mapsto> us @ new # vs))"
    using p d R(3) by (intro rings_local [OF R(1,2), where D = "{new, ?p, ?n}"]) (auto simp: agree_on_def)
  with run show ?thesis by blast
qed

text \<open>\<open>list_swap\<close> on two entries of one list, in this order; they may be neighbours.\<close>

lemma list_swap_rings:
  assumes R: "rings h R" "R q = Some (us @ a # vs @ b # ws)"
  shows "\<exists>h'. list_swap (Ref a) (Ref b) h = Some h' \<and> rings h' (R(q \<mapsto> us @ b # vs @ a # ws))"
proof -
  have cut: "R q = Some ((us @ a # vs) @ b # ws)" using R(2) by simp
  have d: "distinct (q # us @ a # vs @ b # ws)" using ringsD(2,3) [OF R] by simp
  have pos: "prv h b = Ref (last (a # vs))" using ring_cut(2) [OF R(1) cut] by simp
  have "loose b R" using R(2) unfolding loose_def by (intro disjI2 exI [of _ q] exI conjI) auto
  have unlink: "unlink b R = R(q \<mapsto> us @ a # vs @ ws)" using unlink_member [OF rings_shape [OF R(1)] cut] by simp
  with list_del_rings [OF R(1) \<open>loose b R\<close>] not_in_nodes_unlink [OF rings_shape [OF R(1)] \<open>loose b R\<close>]
  obtain h1 where h1: "list_del (Ref b) h = Some h1" "rings h1 (R(q \<mapsto> us @ a # vs @ ws))"
    and b: "b \<notin> nodes (R(q \<mapsto> us @ a # vs @ ws))" by auto
  from list_replace_rings [OF h1(2) _ b, of q us a "vs @ ws"] obtain h2
    where h2: "list_replace (Ref a) (Ref b) h1 = Some h2" "rings h2 (R(q \<mapsto> us @ b # vs @ ws))" by auto
  have a: "a \<notin> nodes (R(q \<mapsto> us @ b # vs @ ws))"
  proof -
    have "a \<noteq> c \<and> a \<notin> set xs" if "R c = Some xs" "c \<noteq> q" for c xs
      using that in_ring_unique [OF rings_shape [OF R(1)], of q a c] R(2) by (auto simp: in_ring_def)
    with d show ?thesis by (auto simp: not_in_nodes)
  qed
  let ?pos = "if vs = [] then b else last vs"
  have "us @ b # vs @ ws = butlast (us @ b # vs) @ ?pos # ws"
    using append_butlast_last_id [of "us @ b # vs"] append_butlast_last_id [of vs] by (auto simp: butlast_append)
  with list_add_behind_rings [OF h2(2) _ a, of q "butlast (us @ b # vs)" ?pos ws] obtain h3
    where h3: "list_add (Ref a) (Ref ?pos) h2 = Some h3"
      "rings h3 (R(q \<mapsto> butlast (us @ b # vs) @ ?pos # a # ws))" by auto
  moreover have "butlast (us @ b # vs) @ ?pos # a # ws = us @ b # vs @ a # ws"
    using append_butlast_last_id [of "us @ b # vs"] append_butlast_last_id [of vs] by (auto simp: butlast_append)
  moreover have "list_swap (Ref a) (Ref b) h = list_add (Ref a) (Ref ?pos) h2"
  proof (cases "vs = []")
    case False
    then have "last vs \<noteq> a" using d last_in_set [OF False] by auto
    with False h1(1) h2(1) pos show ?thesis by (simp add: list_swap_def)
  qed (use h1(1) h2(1) pos in \<open>simp add: list_swap_def\<close>)
  ultimately show ?thesis by (simp only:) blast
qed

lemma shape_permute:
  assumes "shape R" "R q = Some xs" "set ys = set xs" "distinct ys"
  shows "shape (R(q \<mapsto> ys))"
proof (rule shape_update [OF assms(1)])
  show "distinct (q # ys)" using shape_distinct [OF assms(1,2)] assms(3,4) by simp
  show "n \<notin> set (q # ys)" if "b \<noteq> q" "in_ring R b n" for b n
    using in_ring_unique [OF assms(1) that(2), of q] that(1) assms(2,3) by (auto simp: in_ring_at)
qed

text \<open>The store after a section \<open>ms\<close> has changed places with the section \<open>vs\<close> behind it.\<close>

definition moved_store :: "'n \<Rightarrow> 'n list \<Rightarrow> 'n list \<Rightarrow> 'n list \<Rightarrow> 'n lheap \<Rightarrow> 'n lheap" where
  "moved_store q us ms vs h =
     h\<lparr>nxt := (nxt h)(last (q # us) := Ref (hd vs), last vs := Ref (hd ms), last ms := Ref q),
       prv := (prv h)(hd vs := Ref (last (q # us)), hd ms := Ref (last vs), q := Ref (last ms))\<rparr>"

lemma moved_store_rings:
  assumes R: "rings h R" "R q = Some (us @ ms @ vs)" "ms \<noteq> []" "vs \<noteq> []"
  shows "rings (moved_store q us ms vs h) (R(q \<mapsto> us @ vs @ ms))"
proof -
  let ?h' = "moved_store q us ms vs h"
  have d: "distinct (q # us @ ms @ vs)" using ringsD(2,3) [OF R(1,2)] by simp
  have ends: "hd ms \<in> set ms" "last ms \<in> set ms" "hd vs \<in> set vs" "last vs \<in> set vs"
    "last (q # us) \<in> set (q # us)" using R(3,4) by simp_all
  have "linked h (q # us)" "linked h ((ms @ vs) @ [q])" using ring_parts [OF R(1,2)] by simp_all
  then have parts: "linked h (q # us)" "linked h ms" "linked h vs"
    using R(3,4) linked_append [of ms "vs @ [q]" h] linked_append [of vs "[q]" h] by auto
  have l1: "linked ?h' (q # us)"
  proof (subst linked_cong [of _ _ h])
    have "last (q # us) \<notin> set (butlast (q # us))" by (rule last_not_butlast) (use d in simp_all)
    moreover have "last vs \<notin> set (q # us)" "last ms \<notin> set (q # us)" using ends d by auto
    ultimately show "\<forall>a \<in> set (butlast (q # us)). nxt ?h' a = nxt h a"
      by (auto simp: moved_store_def dest: in_set_butlastD)
    show "\<forall>b \<in> set (tl (q # us)). prv ?h' b = prv h b" using ends d by (auto simp: moved_store_def)
  qed (rule parts(1))
  have l2: "linked ?h' ms"
  proof (subst linked_cong [of _ _ h])
    have "last ms \<notin> set (butlast ms)" by (rule last_not_butlast) (use d R(3) in simp_all)
    moreover have "last (q # us) \<notin> set ms" "last vs \<notin> set ms" using ends d by auto
    ultimately show "\<forall>a \<in> set (butlast ms). nxt ?h' a = nxt h a"
      by (auto simp: moved_store_def dest: in_set_butlastD)
    have "hd ms \<notin> set (tl ms)" by (rule hd_not_tl) (use d R(3) in simp_all)
    moreover have "q \<notin> set ms" "hd vs \<notin> set ms" using ends d by auto
    ultimately show "\<forall>b \<in> set (tl ms). prv ?h' b = prv h b"
      by (auto simp: moved_store_def dest: in_set_tlD)
  qed (rule parts(2))
  have l3: "linked ?h' vs"
  proof (subst linked_cong [of _ _ h])
    have "last vs \<notin> set (butlast vs)" by (rule last_not_butlast) (use d R(4) in simp_all)
    moreover have "last (q # us) \<notin> set vs" "last ms \<notin> set vs" using ends d by auto
    ultimately show "\<forall>a \<in> set (butlast vs). nxt ?h' a = nxt h a"
      by (auto simp: moved_store_def dest: in_set_butlastD)
    have "hd vs \<notin> set (tl vs)" by (rule hd_not_tl) (use d R(4) in simp_all)
    moreover have "q \<notin> set vs" "hd ms \<notin> set vs" using ends d by auto
    ultimately show "\<forall>b \<in> set (tl vs). prv ?h' b = prv h b"
      by (auto simp: moved_store_def dest: in_set_tlD)
  qed (rule parts(3))
  have "last (q # us) \<noteq> last vs" "last (q # us) \<noteq> last ms" "last vs \<noteq> last ms"
    "hd vs \<noteq> hd ms" "hd vs \<noteq> q" "hd ms \<noteq> q" using ends d by (auto simp del: last.simps)
  then have "nxt ?h' (last (q # us)) = Ref (hd vs)" "prv ?h' (hd vs) = Ref (last (q # us))"
    "nxt ?h' (last vs) = Ref (hd ms)" "prv ?h' (hd ms) = Ref (last vs)"
    "nxt ?h' (last ms) = Ref q" "prv ?h' q = Ref (last ms)"
    by (simp_all add: moved_store_def del: last.simps)
  with l1 l2 l3 have lnk: "linked ?h' (q # (us @ vs @ ms) @ [q])"
    using R(3,4) linked_append [of "q # us" "vs @ ms @ [q]" ?h'] linked_append [of vs "ms @ [q]" ?h']
      linked_append [of ms "[q]" ?h'] by simp
  have "shape (R(q \<mapsto> us @ vs @ ms))"
    by (rule shape_permute [OF rings_shape [OF R(1)] R(2)]) (use d in auto)
  with lnk R(2) ends show ?thesis
    by (intro rings_local [OF R(1,2), where D = "{last (q # us), last vs, last ms, hd vs, hd ms, q}"])
      (auto simp: agree_on_def moved_store_def simp del: last.simps)
qed

lemma lheap_eqI: "nxt h' = nxt h \<Longrightarrow> prv h' = prv h \<Longrightarrow> (h' :: 'n lheap) = h"
  by simp

lemma list_bulk_move_tail_rings:
  assumes R: "rings h R" "R q = Some (us @ ms @ vs)" "ms \<noteq> []"
  shows "\<exists>h'. list_bulk_move_tail (Ref q) (Ref (hd ms)) (Ref (last ms)) h = Some h' \<and>
           rings h' (R(q \<mapsto> us @ vs @ ms))"
proof -
  have d: "distinct (q # us @ ms @ vs)" using ringsD(2,3) [OF R(1,2)] by simp
  have cut: "R q = Some ((us @ ms) @ vs)" using R(2) by simp
  have fp: "prv h (hd ms) = Ref (last (q # us))" and fn: "nxt h (last (q # us)) = Ref (hd ms)"
    using ring_cut [OF R(1,2)] R(3) by simp_all
  have ln: "nxt h (last ms) = Ref (hd (vs @ [q]))" and lp: "prv h (hd (vs @ [q])) = Ref (last ms)"
    using ring_cut [OF R(1) cut] R(3) by simp_all
  have ends: "hd ms \<in> set ms" "last ms \<in> set ms" "last (q # us) \<in> set (q # us)" using R(3) by simp_all
  show ?thesis
  proof (cases "vs = []")
    case True
    have "nxt h (last ms) = Ref q" "prv h q = Ref (last ms)" using ln lp True by simp_all
    moreover have "last (q # us) \<noteq> last ms" "hd ms \<noteq> q" using ends d by (auto simp del: last.simps)
    ultimately have "list_bulk_move_tail (Ref q) (Ref (hd ms)) (Ref (last ms)) h = Some h"
      using fp fn by (auto simp: list_bulk_move_tail_def simp del: last.simps intro!: lheap_eqI)
    moreover have "R(q \<mapsto> us @ vs @ ms) = R" using R(2) True by (auto simp: fun_eq_iff)
    ultimately show ?thesis using R(1) by simp
  next
    case False
    have "prv h q = Ref (last vs)" using ring_ends(5) [OF R(1,2)] False R(3) by simp
    moreover have "hd vs \<in> set vs" "last vs \<in> set vs" using False by simp_all
    moreover from this have "last (q # us) \<noteq> last vs" "last (q # us) \<noteq> last ms" "last vs \<noteq> last ms"
      "hd vs \<noteq> hd ms" "hd vs \<noteq> q" "hd ms \<noteq> q" using ends d by (auto simp del: last.simps)
    ultimately have "list_bulk_move_tail (Ref q) (Ref (hd ms)) (Ref (last ms)) h = Some (moved_store q us ms vs h)"
      using fp ln False by (auto simp: list_bulk_move_tail_def moved_store_def simp del: last.simps)
    with moved_store_rings [OF R False] show ?thesis by blast
  qed
qed

lemma list_rotate_left_rings:
  assumes R: "rings h R" "R q = Some xs"
  shows "\<exists>h'. list_rotate_left (Ref q) h = Some h' \<and> rings h' (R(q \<mapsto> rotate1 xs))"
proof (cases xs)
  case Nil
  then have "R(q \<mapsto> rotate1 xs) = R" using R(2) by (auto simp: fun_eq_iff)
  with Nil R(1) list_empty_rings [OF R] show ?thesis by (simp add: list_rotate_left_def)
next
  case (Cons x ys)
  have d: "distinct (q # x # ys)" using ringsD(2,3) [OF R] Cons by simp
  have "loose x R" using R(2) Cons unfolding loose_def by (intro disjI2 exI [of _ q] exI conjI) auto
  moreover have "unlink x R = R(q \<mapsto> ys)"
    using unlink_member [OF rings_shape [OF R(1)], of q "[]" x ys] R(2) Cons by simp
  ultimately show ?thesis
    using list_move_tail_rings [OF R(1) _ R(2), of x] Cons d list_empty_rings [OF R] ring_ends(1) [OF R]
    by (simp add: list_rotate_left_def)
qed

text \<open>The head is taken out of its list and put in front of \<open>e\<close>.\<close>

lemma list_rotate_to_front_rings:
  assumes R: "rings h R" "R q = Some (us @ e # vs)"
  shows "\<exists>h'. list_rotate_to_front (Ref e) (Ref q) h = Some h' \<and> rings h' (R(q \<mapsto> e # vs @ us))"
proof -
  have d: "distinct (q # us @ e # vs)" using ringsD(2,3) [OF R] by simp
  have q: "nxt h q = Ref (hd (us @ [e]))" "prv h q = Ref (last (e # vs))"
    using ring_ends [OF R] by (auto simp: hd_append)
  have e: "prv h e = Ref (last (q # us))" using ring_cut(2) [OF R] by simp
  have l: "nxt h (last (e # vs)) = Ref q" using ring_ends(4) [OF R] by simp
  have last_vs: "last (e # vs) \<in> set (e # vs)" by simp
  show ?thesis
  proof (cases "us = []")
    case True
    with e have "prv h e = Ref q" by simp
    with True q e l d last_vs have "list_rotate_to_front (Ref e) (Ref q) h = Some h"
      by (auto simp: list_rotate_to_front_def list_move_tail_def raw_list_del_entry_def list_del_entry_valid_def
          raw_list_del_def list_add_tail_def raw_list_add_def list_add_valid_def simp del: last.simps
          intro!: lheap_eqI)
    moreover have "R(q \<mapsto> e # vs @ us) = R" using R(2) True by (auto simp: fun_eq_iff)
    ultimately show ?thesis using R(1) by simp
  next
    case False
    have "hd us \<in> set us" "last us \<in> set us" using False by simp_all
    with last_vs have "hd us \<noteq> e" "hd us \<noteq> q" "last us \<noteq> q" "last (e # vs) \<noteq> last us" "last (e # vs) \<noteq> q"
      "e \<noteq> q" using d by (auto simp del: last.simps)
    moreover have "last (q # us) = last us" "last [q] = q" using False by simp_all
    ultimately have "list_rotate_to_front (Ref e) (Ref q) h = Some (moved_store q [] us (e # vs) h)"
      using q e False
      by (auto simp: list_rotate_to_front_def list_move_tail_def raw_list_del_entry_def list_del_entry_valid_def
          raw_list_del_def list_add_tail_def raw_list_add_def list_add_valid_def moved_store_def
          hd_append fun_eq_iff simp del: last.simps intro!: lheap_eqI)
    with moved_store_rings [OF R(1), of q "[]" us "e # vs"] R(2) False show ?thesis by simp
  qed
qed

end
