(* ===== verification/List_Loops.thy ===== *)
theory List_Loops
  imports List_Laws Hlist
begin

text \<open>
  The other loop macros of \<open>lib/list.h\<close> and \<open>lib/hashtable.h\<close>: backwards, from a given
  place, over the structures that hold the nodes (the \<open>entry\<close> macros), and safe against
  the removal of the current entry.  As for \<open>list_for_each\<close>, a body is a function of the
  cursor and of the state, which says whether it leaves the loop, the pointers are read in
  the store that the body leaves behind, and \<open>None\<close> is a loop that follows a null pointer
  or does not end.

  The entry macros are given the type of a structure and the name of its member.  Here they
  are given the two conversions: \<open>entry\<close> is \<open>container_of\<close>, from the address of the
  member to that of the structure, and \<open>member\<close> is \<open>&pos->member\<close>, its inverse.
\<close>

section \<open>Loops\<close>

text \<open>\<open>for (pos = ...; !stop; pos = step) body\<close>.\<close>

partial_function (option) for_loop ::
  "('c \<Rightarrow> bool) \<Rightarrow> ('c \<Rightarrow> 's \<Rightarrow> 'c option) \<Rightarrow> ('c \<Rightarrow> 's \<Rightarrow> (bool \<times> 's) option) \<Rightarrow> 'c \<Rightarrow> 's \<Rightarrow> 's option"
where
  "for_loop stop step body pos s =
     (if stop pos then Some s
      else do {
        (brk, s') \<leftarrow> body pos s;
        if brk then Some s'
        else do {
          pos' \<leftarrow> step pos s';
          for_loop stop step body pos' s'
        }
      })"

text \<open>The cursor of the safe macros is the pair of \<open>pos\<close> and \<open>n\<close>.\<close>

definition safe_step :: "('c \<Rightarrow> 's \<Rightarrow> 'c option) \<Rightarrow> 'c \<times> 'c \<Rightarrow> 's \<Rightarrow> ('c \<times> 'c) option" where
  "safe_step step c s = do { n' \<leftarrow> step (snd c) s; Some (snd c, n') }"

section \<open>Loops over the nodes of a list\<close>

definition list_for_each_continue ::
  "('n ptr \<Rightarrow> 's \<Rightarrow> (bool \<times> 's) option) \<Rightarrow> ('s \<Rightarrow> 'n lheap) \<Rightarrow> 'n ptr \<Rightarrow> 'n ptr \<Rightarrow> 's \<Rightarrow> 's option"
where
  "list_for_each_continue body lh head pos s = do {
     pos \<leftarrow> get_next pos (lh s);
     for_loop (\<lambda>pos. list_is_head pos head) (\<lambda>pos s. get_next pos (lh s)) body pos s
   }"

definition list_for_each_prev ::
  "('n ptr \<Rightarrow> 's \<Rightarrow> (bool \<times> 's) option) \<Rightarrow> ('s \<Rightarrow> 'n lheap) \<Rightarrow> 'n ptr \<Rightarrow> 's \<Rightarrow> 's option"
where
  "list_for_each_prev body lh head s = do {
     pos \<leftarrow> get_prev head (lh s);
     for_loop (\<lambda>pos. list_is_head pos head) (\<lambda>pos s. get_prev pos (lh s)) body pos s
   }"

definition list_for_each_safe ::
  "('n ptr \<Rightarrow> 'n ptr \<Rightarrow> 's \<Rightarrow> (bool \<times> 's) option) \<Rightarrow> ('s \<Rightarrow> 'n lheap) \<Rightarrow> 'n ptr \<Rightarrow> 's \<Rightarrow> 's option"
where
  "list_for_each_safe body lh head s = do {
     pos \<leftarrow> get_next head (lh s);
     n \<leftarrow> get_next pos (lh s);
     for_loop (\<lambda>(pos, n). list_is_head pos head) (safe_step (\<lambda>pos s. get_next pos (lh s)))
       (\<lambda>(pos, n). body pos n) (pos, n) s
   }"

definition list_for_each_prev_safe ::
  "('n ptr \<Rightarrow> 'n ptr \<Rightarrow> 's \<Rightarrow> (bool \<times> 's) option) \<Rightarrow> ('s \<Rightarrow> 'n lheap) \<Rightarrow> 'n ptr \<Rightarrow> 's \<Rightarrow> 's option"
where
  "list_for_each_prev_safe body lh head s = do {
     pos \<leftarrow> get_prev head (lh s);
     n \<leftarrow> get_prev pos (lh s);
     for_loop (\<lambda>(pos, n). list_is_head pos head) (safe_step (\<lambda>pos s. get_prev pos (lh s)))
       (\<lambda>(pos, n). body pos n) (pos, n) s
   }"

section \<open>Entries\<close>

text \<open>\<open>list_entry\<close> and \<open>hlist_entry\<close> are \<open>container_of\<close>: the argument \<open>entry\<close> itself.\<close>

definition list_first_entry :: "('n ptr \<Rightarrow> 'e ptr) \<Rightarrow> 'n ptr \<Rightarrow> 'n lheap \<Rightarrow> 'e ptr option" where
  "list_first_entry entry head h = do { n \<leftarrow> get_next head h; Some (entry n) }"

definition list_last_entry :: "('n ptr \<Rightarrow> 'e ptr) \<Rightarrow> 'n ptr \<Rightarrow> 'n lheap \<Rightarrow> 'e ptr option" where
  "list_last_entry entry head h = do { p \<leftarrow> get_prev head h; Some (entry p) }"

definition list_next_entry ::
  "('n ptr \<Rightarrow> 'e ptr) \<Rightarrow> ('e ptr \<Rightarrow> 'n ptr) \<Rightarrow> 'e ptr \<Rightarrow> 'n lheap \<Rightarrow> 'e ptr option" where
  "list_next_entry entry member pos h = do { n \<leftarrow> get_next (member pos) h; Some (entry n) }"

definition list_prev_entry ::
  "('n ptr \<Rightarrow> 'e ptr) \<Rightarrow> ('e ptr \<Rightarrow> 'n ptr) \<Rightarrow> 'e ptr \<Rightarrow> 'n lheap \<Rightarrow> 'e ptr option" where
  "list_prev_entry entry member pos h = do { p \<leftarrow> get_prev (member pos) h; Some (entry p) }"

definition list_next_entry_circular ::
  "('n ptr \<Rightarrow> 'e ptr) \<Rightarrow> ('e ptr \<Rightarrow> 'n ptr) \<Rightarrow> 'e ptr \<Rightarrow> 'n ptr \<Rightarrow> 'n lheap \<Rightarrow> 'e ptr option" where
  "list_next_entry_circular entry member pos head h = do {
     l \<leftarrow> list_is_last (member pos) head h;
     if l then list_first_entry entry head h else list_next_entry entry member pos h
   }"

definition list_prev_entry_circular ::
  "('n ptr \<Rightarrow> 'e ptr) \<Rightarrow> ('e ptr \<Rightarrow> 'n ptr) \<Rightarrow> 'e ptr \<Rightarrow> 'n ptr \<Rightarrow> 'n lheap \<Rightarrow> 'e ptr option" where
  "list_prev_entry_circular entry member pos head h = do {
     f \<leftarrow> list_is_first (member pos) head h;
     if f then list_last_entry entry head h else list_prev_entry entry member pos h
   }"

definition list_entry_is_head :: "('e ptr \<Rightarrow> 'n ptr) \<Rightarrow> 'e ptr \<Rightarrow> 'n ptr \<Rightarrow> bool" where
  "list_entry_is_head member pos head \<longleftrightarrow> member pos = head"

definition list_prepare_entry :: "('n ptr \<Rightarrow> 'e ptr) \<Rightarrow> 'e ptr \<Rightarrow> 'n ptr \<Rightarrow> 'e ptr" where
  "list_prepare_entry entry pos head = (if pos \<noteq> NULL then pos else entry head)"

section \<open>Loops over the entries of a list\<close>

definition list_for_each_entry_from ::
  "('n ptr \<Rightarrow> 'e ptr) \<Rightarrow> ('e ptr \<Rightarrow> 'n ptr) \<Rightarrow> ('e ptr \<Rightarrow> 's \<Rightarrow> (bool \<times> 's) option) \<Rightarrow>
   ('s \<Rightarrow> 'n lheap) \<Rightarrow> 'n ptr \<Rightarrow> 'e ptr \<Rightarrow> 's \<Rightarrow> 's option"
where
  "list_for_each_entry_from entry member body lh head pos s =
     for_loop (\<lambda>pos. list_entry_is_head member pos head)
       (\<lambda>pos s. list_next_entry entry member pos (lh s)) body pos s"

definition list_for_each_entry_from_reverse ::
  "('n ptr \<Rightarrow> 'e ptr) \<Rightarrow> ('e ptr \<Rightarrow> 'n ptr) \<Rightarrow> ('e ptr \<Rightarrow> 's \<Rightarrow> (bool \<times> 's) option) \<Rightarrow>
   ('s \<Rightarrow> 'n lheap) \<Rightarrow> 'n ptr \<Rightarrow> 'e ptr \<Rightarrow> 's \<Rightarrow> 's option"
where
  "list_for_each_entry_from_reverse entry member body lh head pos s =
     for_loop (\<lambda>pos. list_entry_is_head member pos head)
       (\<lambda>pos s. list_prev_entry entry member pos (lh s)) body pos s"

definition list_for_each_entry ::
  "('n ptr \<Rightarrow> 'e ptr) \<Rightarrow> ('e ptr \<Rightarrow> 'n ptr) \<Rightarrow> ('e ptr \<Rightarrow> 's \<Rightarrow> (bool \<times> 's) option) \<Rightarrow>
   ('s \<Rightarrow> 'n lheap) \<Rightarrow> 'n ptr \<Rightarrow> 's \<Rightarrow> 's option"
where
  "list_for_each_entry entry member body lh head s = do {
     pos \<leftarrow> list_first_entry entry head (lh s);
     for_loop (\<lambda>pos. list_entry_is_head member pos head)
       (\<lambda>pos s. list_next_entry entry member pos (lh s)) body pos s
   }"

definition list_for_each_entry_reverse ::
  "('n ptr \<Rightarrow> 'e ptr) \<Rightarrow> ('e ptr \<Rightarrow> 'n ptr) \<Rightarrow> ('e ptr \<Rightarrow> 's \<Rightarrow> (bool \<times> 's) option) \<Rightarrow>
   ('s \<Rightarrow> 'n lheap) \<Rightarrow> 'n ptr \<Rightarrow> 's \<Rightarrow> 's option"
where
  "list_for_each_entry_reverse entry member body lh head s = do {
     pos \<leftarrow> list_last_entry entry head (lh s);
     for_loop (\<lambda>pos. list_entry_is_head member pos head)
       (\<lambda>pos s. list_prev_entry entry member pos (lh s)) body pos s
   }"

definition list_for_each_entry_continue ::
  "('n ptr \<Rightarrow> 'e ptr) \<Rightarrow> ('e ptr \<Rightarrow> 'n ptr) \<Rightarrow> ('e ptr \<Rightarrow> 's \<Rightarrow> (bool \<times> 's) option) \<Rightarrow>
   ('s \<Rightarrow> 'n lheap) \<Rightarrow> 'n ptr \<Rightarrow> 'e ptr \<Rightarrow> 's \<Rightarrow> 's option"
where
  "list_for_each_entry_continue entry member body lh head pos s = do {
     pos \<leftarrow> list_next_entry entry member pos (lh s);
     for_loop (\<lambda>pos. list_entry_is_head member pos head)
       (\<lambda>pos s. list_next_entry entry member pos (lh s)) body pos s
   }"

definition list_for_each_entry_continue_reverse ::
  "('n ptr \<Rightarrow> 'e ptr) \<Rightarrow> ('e ptr \<Rightarrow> 'n ptr) \<Rightarrow> ('e ptr \<Rightarrow> 's \<Rightarrow> (bool \<times> 's) option) \<Rightarrow>
   ('s \<Rightarrow> 'n lheap) \<Rightarrow> 'n ptr \<Rightarrow> 'e ptr \<Rightarrow> 's \<Rightarrow> 's option"
where
  "list_for_each_entry_continue_reverse entry member body lh head pos s = do {
     pos \<leftarrow> list_prev_entry entry member pos (lh s);
     for_loop (\<lambda>pos. list_entry_is_head member pos head)
       (\<lambda>pos s. list_prev_entry entry member pos (lh s)) body pos s
   }"

definition list_for_each_entry_safe_from ::
  "('n ptr \<Rightarrow> 'e ptr) \<Rightarrow> ('e ptr \<Rightarrow> 'n ptr) \<Rightarrow> ('e ptr \<Rightarrow> 'e ptr \<Rightarrow> 's \<Rightarrow> (bool \<times> 's) option) \<Rightarrow>
   ('s \<Rightarrow> 'n lheap) \<Rightarrow> 'n ptr \<Rightarrow> 'e ptr \<Rightarrow> 's \<Rightarrow> 's option"
where
  "list_for_each_entry_safe_from entry member body lh head pos s = do {
     n \<leftarrow> list_next_entry entry member pos (lh s);
     for_loop (\<lambda>(pos, n). list_entry_is_head member pos head)
       (safe_step (\<lambda>pos s. list_next_entry entry member pos (lh s))) (\<lambda>(pos, n). body pos n) (pos, n) s
   }"

definition list_for_each_entry_safe ::
  "('n ptr \<Rightarrow> 'e ptr) \<Rightarrow> ('e ptr \<Rightarrow> 'n ptr) \<Rightarrow> ('e ptr \<Rightarrow> 'e ptr \<Rightarrow> 's \<Rightarrow> (bool \<times> 's) option) \<Rightarrow>
   ('s \<Rightarrow> 'n lheap) \<Rightarrow> 'n ptr \<Rightarrow> 's \<Rightarrow> 's option"
where
  "list_for_each_entry_safe entry member body lh head s = do {
     pos \<leftarrow> list_first_entry entry head (lh s);
     n \<leftarrow> list_next_entry entry member pos (lh s);
     for_loop (\<lambda>(pos, n). list_entry_is_head member pos head)
       (safe_step (\<lambda>pos s. list_next_entry entry member pos (lh s))) (\<lambda>(pos, n). body pos n) (pos, n) s
   }"

definition list_for_each_entry_safe_continue ::
  "('n ptr \<Rightarrow> 'e ptr) \<Rightarrow> ('e ptr \<Rightarrow> 'n ptr) \<Rightarrow> ('e ptr \<Rightarrow> 'e ptr \<Rightarrow> 's \<Rightarrow> (bool \<times> 's) option) \<Rightarrow>
   ('s \<Rightarrow> 'n lheap) \<Rightarrow> 'n ptr \<Rightarrow> 'e ptr \<Rightarrow> 's \<Rightarrow> 's option"
where
  "list_for_each_entry_safe_continue entry member body lh head pos s = do {
     pos \<leftarrow> list_next_entry entry member pos (lh s);
     n \<leftarrow> list_next_entry entry member pos (lh s);
     for_loop (\<lambda>(pos, n). list_entry_is_head member pos head)
       (safe_step (\<lambda>pos s. list_next_entry entry member pos (lh s))) (\<lambda>(pos, n). body pos n) (pos, n) s
   }"

definition list_for_each_entry_safe_reverse ::
  "('n ptr \<Rightarrow> 'e ptr) \<Rightarrow> ('e ptr \<Rightarrow> 'n ptr) \<Rightarrow> ('e ptr \<Rightarrow> 'e ptr \<Rightarrow> 's \<Rightarrow> (bool \<times> 's) option) \<Rightarrow>
   ('s \<Rightarrow> 'n lheap) \<Rightarrow> 'n ptr \<Rightarrow> 's \<Rightarrow> 's option"
where
  "list_for_each_entry_safe_reverse entry member body lh head s = do {
     pos \<leftarrow> list_last_entry entry head (lh s);
     n \<leftarrow> list_prev_entry entry member pos (lh s);
     for_loop (\<lambda>(pos, n). list_entry_is_head member pos head)
       (safe_step (\<lambda>pos s. list_prev_entry entry member pos (lh s))) (\<lambda>(pos, n). body pos n) (pos, n) s
   }"

section \<open>Loops over hash lists and tables\<close>

text \<open>\<open>hlist_for_each_safe\<close> reads \<open>n\<close> in the test of the loop, before the body.\<close>

partial_function (option) hlist_for_each_safe_from ::
  "('n ptr \<Rightarrow> 'n ptr \<Rightarrow> 's \<Rightarrow> (bool \<times> 's) option) \<Rightarrow> ('s \<Rightarrow> ('b, 'n) hheap) \<Rightarrow> 'n ptr \<Rightarrow> 's \<Rightarrow> 's option"
where
  "hlist_for_each_safe_from body hh pos s =
     (if pos = NULL then Some s
      else do {
        n \<leftarrow> get_hnext pos (hh s);
        (brk, s') \<leftarrow> body pos n s;
        if brk then Some s' else hlist_for_each_safe_from body hh n s'
      })"

definition hlist_for_each_safe ::
  "('n ptr \<Rightarrow> 'n ptr \<Rightarrow> 's \<Rightarrow> (bool \<times> 's) option) \<Rightarrow> ('s \<Rightarrow> ('b, 'n) hheap) \<Rightarrow> 'b \<Rightarrow> 's \<Rightarrow> 's option"
where
  "hlist_for_each_safe body hh b s = hlist_for_each_safe_from body hh (hfirst (hh s) b) s"

definition hlist_entry_safe :: "('n ptr \<Rightarrow> 'e ptr) \<Rightarrow> 'n ptr \<Rightarrow> 'e ptr" where
  "hlist_entry_safe entry p = (if p \<noteq> NULL then entry p else NULL)"

definition hlist_next_entry ::
  "('n ptr \<Rightarrow> 'e ptr) \<Rightarrow> ('e ptr \<Rightarrow> 'n ptr) \<Rightarrow> 'e ptr \<Rightarrow> ('b, 'n) hheap \<Rightarrow> 'e ptr option" where
  "hlist_next_entry entry member pos h = do {
     n \<leftarrow> get_hnext (member pos) h;
     Some (hlist_entry_safe entry n)
   }"

definition hlist_for_each_entry_from ::
  "('n ptr \<Rightarrow> 'e ptr) \<Rightarrow> ('e ptr \<Rightarrow> 'n ptr) \<Rightarrow> ('e ptr \<Rightarrow> 's \<Rightarrow> (bool \<times> 's) option) \<Rightarrow>
   ('s \<Rightarrow> ('b, 'n) hheap) \<Rightarrow> 'e ptr \<Rightarrow> 's \<Rightarrow> 's option"
where
  "hlist_for_each_entry_from entry member body hh pos s =
     for_loop (\<lambda>pos. pos = NULL) (\<lambda>pos s. hlist_next_entry entry member pos (hh s)) body pos s"

definition hlist_for_each_entry_continue ::
  "('n ptr \<Rightarrow> 'e ptr) \<Rightarrow> ('e ptr \<Rightarrow> 'n ptr) \<Rightarrow> ('e ptr \<Rightarrow> 's \<Rightarrow> (bool \<times> 's) option) \<Rightarrow>
   ('s \<Rightarrow> ('b, 'n) hheap) \<Rightarrow> 'e ptr \<Rightarrow> 's \<Rightarrow> 's option"
where
  "hlist_for_each_entry_continue entry member body hh pos s = do {
     pos \<leftarrow> hlist_next_entry entry member pos (hh s);
     for_loop (\<lambda>pos. pos = NULL) (\<lambda>pos s. hlist_next_entry entry member pos (hh s)) body pos s
   }"

definition hlist_for_each_entry ::
  "('n ptr \<Rightarrow> 'e ptr) \<Rightarrow> ('e ptr \<Rightarrow> 'n ptr) \<Rightarrow> ('e ptr \<Rightarrow> 's \<Rightarrow> (bool \<times> 's) option) \<Rightarrow>
   ('s \<Rightarrow> ('b, 'n) hheap) \<Rightarrow> 'b \<Rightarrow> 's \<Rightarrow> 's option"
where
  "hlist_for_each_entry entry member body hh b s =
     for_loop (\<lambda>pos. pos = NULL) (\<lambda>pos s. hlist_next_entry entry member pos (hh s)) body
       (hlist_entry_safe entry (hfirst (hh s) b)) s"

partial_function (option) hlist_for_each_entry_safe_from ::
  "('n ptr \<Rightarrow> 'e ptr) \<Rightarrow> ('e ptr \<Rightarrow> 'n ptr) \<Rightarrow> ('e ptr \<Rightarrow> 'n ptr \<Rightarrow> 's \<Rightarrow> (bool \<times> 's) option) \<Rightarrow>
   ('s \<Rightarrow> ('b, 'n) hheap) \<Rightarrow> 'e ptr \<Rightarrow> 's \<Rightarrow> 's option"
where
  "hlist_for_each_entry_safe_from entry member body hh pos s =
     (if pos = NULL then Some s
      else do {
        n \<leftarrow> get_hnext (member pos) (hh s);
        (brk, s') \<leftarrow> body pos n s;
        if brk then Some s'
        else hlist_for_each_entry_safe_from entry member body hh (hlist_entry_safe entry n) s'
      })"

definition hlist_for_each_entry_safe ::
  "('n ptr \<Rightarrow> 'e ptr) \<Rightarrow> ('e ptr \<Rightarrow> 'n ptr) \<Rightarrow> ('e ptr \<Rightarrow> 'n ptr \<Rightarrow> 's \<Rightarrow> (bool \<times> 's) option) \<Rightarrow>
   ('s \<Rightarrow> ('b, 'n) hheap) \<Rightarrow> 'b \<Rightarrow> 's \<Rightarrow> 's option"
where
  "hlist_for_each_entry_safe entry member body hh b s =
     hlist_for_each_entry_safe_from entry member body hh (hlist_entry_safe entry (hfirst (hh s) b)) s"

text \<open>
  A loop over a table is a loop over the buckets around a loop over the entries of a bucket.
  The outer loop goes on while \<open>obj\<close> is null: the inner one leaves it null when it has run
  through the bucket, and at the current entry when its body breaks.
\<close>

definition leaves_obj ::
  "('e ptr \<Rightarrow> 's \<Rightarrow> (bool \<times> 's) option) \<Rightarrow> 'e ptr \<Rightarrow> 'e ptr \<times> 's \<Rightarrow> (bool \<times> 'e ptr \<times> 's) option" where
  "leaves_obj body pos os = do {
     (brk, s') \<leftarrow> body pos (snd os);
     Some (brk, if brk then pos else NULL, s')
   }"

primrec hash_buckets ::
  "(nat \<Rightarrow> 'e ptr \<times> 's \<Rightarrow> ('e ptr \<times> 's) option) \<Rightarrow> nat list \<Rightarrow> 'e ptr \<times> 's \<Rightarrow> ('e ptr \<times> 's) option"
where
  "hash_buckets inner [] os = Some os"
| "hash_buckets inner (bkt # bkts) os =
     (if fst os = NULL then do { os \<leftarrow> inner bkt os; hash_buckets inner bkts os } else Some os)"

definition hash_for_each ::
  "nat \<Rightarrow> ('n ptr \<Rightarrow> 'e ptr) \<Rightarrow> ('e ptr \<Rightarrow> 'n ptr) \<Rightarrow> (nat \<Rightarrow> 'e ptr \<Rightarrow> 's \<Rightarrow> (bool \<times> 's) option) \<Rightarrow>
   ('s \<Rightarrow> (nat, 'n) hheap) \<Rightarrow> 's \<Rightarrow> ('e ptr \<times> 's) option"
where
  "hash_for_each sz entry member body hh s =
     hash_buckets (\<lambda>bkt. hlist_for_each_entry entry member (leaves_obj (body bkt)) (hh \<circ> snd) bkt)
       [0..<sz] (NULL, s)"

definition hash_for_each_safe ::
  "nat \<Rightarrow> ('n ptr \<Rightarrow> 'e ptr) \<Rightarrow> ('e ptr \<Rightarrow> 'n ptr) \<Rightarrow> (nat \<Rightarrow> 'e ptr \<Rightarrow> 'n ptr \<Rightarrow> 's \<Rightarrow> (bool \<times> 's) option) \<Rightarrow>
   ('s \<Rightarrow> (nat, 'n) hheap) \<Rightarrow> 's \<Rightarrow> ('e ptr \<times> 's) option"
where
  "hash_for_each_safe sz entry member body hh s =
     hash_buckets (\<lambda>bkt. hlist_for_each_entry_safe entry member
         (\<lambda>pos tmp. leaves_obj (\<lambda>pos. body bkt pos tmp) pos) (hh \<circ> snd) bkt)
       [0..<sz] (NULL, s)"

definition hash_for_each_possible ::
  "nat \<Rightarrow> ('n ptr \<Rightarrow> 'e ptr) \<Rightarrow> ('e ptr \<Rightarrow> 'n ptr) \<Rightarrow> ('e ptr \<Rightarrow> 's \<Rightarrow> (bool \<times> 's) option) \<Rightarrow>
   ('s \<Rightarrow> (nat, 'n) hheap) \<Rightarrow> u32 \<Rightarrow> 's \<Rightarrow> 's option"
where
  "hash_for_each_possible sz entry member body hh key s =
     hlist_for_each_entry entry member body hh (hash_min key (HASH_BITS sz)) s"

definition hash_for_each_possible_safe ::
  "nat \<Rightarrow> ('n ptr \<Rightarrow> 'e ptr) \<Rightarrow> ('e ptr \<Rightarrow> 'n ptr) \<Rightarrow> ('e ptr \<Rightarrow> 'n ptr \<Rightarrow> 's \<Rightarrow> (bool \<times> 's) option) \<Rightarrow>
   ('s \<Rightarrow> (nat, 'n) hheap) \<Rightarrow> u32 \<Rightarrow> 's \<Rightarrow> 's option"
where
  "hash_for_each_possible_safe sz entry member body hh key s =
     hlist_for_each_entry_safe entry member body hh (hash_min key (HASH_BITS sz)) s"

section \<open>container_of\<close>

text \<open>
  \<open>container_of\<close> on addresses: the offset \<open>off\<close> of the member is subtracted, and taking
  the address of the member adds it.  A null pointer is the address 0.
\<close>

definition ptr_word :: "u32 \<Rightarrow> u32 ptr" where
  "ptr_word a = (if a = 0 then NULL else Ref a)"

primrec word_ptr :: "u32 ptr \<Rightarrow> u32" where
  "word_ptr NULL = 0"
| "word_ptr (Ref a) = a"

definition container_of :: "u32 \<Rightarrow> u32 ptr \<Rightarrow> u32 ptr" where
  "container_of off ptr = ptr_word (word_ptr ptr - off)"

definition member_at :: "u32 \<Rightarrow> u32 ptr \<Rightarrow> u32 ptr" where
  "member_at off pos = ptr_word (word_ptr pos + off)"

end
