(* ===== verification/Loop_Laws.thy ===== *)
theory Loop_Laws
  imports List_Loops
begin

text \<open>
  What the loop macros of \<open>List_Loops\<close> do: the runs of a body over a list of cursors, the
  order in which the macros visit a list or a hash table, and the removal of the current
  entry in the safe ones.
\<close>

section \<open>Runs of a body over cursors\<close>

fun run_body :: "('c \<Rightarrow> 's \<Rightarrow> (bool \<times> 's) option) \<Rightarrow> 'c list \<Rightarrow> 's \<Rightarrow> 's option" where
  "run_body body [] s = Some s"
| "run_body body (c # cs) s = do {
     (brk, s') \<leftarrow> body c s;
     if brk then Some s' else run_body body cs s'
   }"

text \<open>The body of a safe macro also sees the next cursor; \<open>e\<close> is the one that ends the loop.\<close>

fun run_safe :: "('c \<Rightarrow> 'c \<Rightarrow> 's \<Rightarrow> (bool \<times> 's) option) \<Rightarrow> 'c \<Rightarrow> 'c list \<Rightarrow> 's \<Rightarrow> 's option" where
  "run_safe body e [] s = Some s"
| "run_safe body e (c # cs) s = do {
     (brk, s') \<leftarrow> body c (hd (cs @ [e])) s;
     if brk then Some s' else run_safe body e cs s'
   }"

lemma for_entries_run: "for_entries body xs s = run_body body (map Ref xs) s"
  by (induction xs arbitrary: s) (auto split: Option.bind_split)

text \<open>\<open>Q cs s\<close> is an invariant of the loop when \<open>cs\<close> are the cursors still to come.\<close>

lemma for_loop_run:
  assumes "Q cs s" "stop e" "\<And>c cs t. Q (c # cs) t \<Longrightarrow> \<not> stop c"
    and "\<And>c cs t t'. Q (c # cs) t \<Longrightarrow> body c t = Some (False, t') \<Longrightarrow>
           step c t' = Some (hd (cs @ [e])) \<and> Q cs t'"
  shows "for_loop stop step body (hd (cs @ [e])) s = run_body body cs s"
  using assms(1)
proof (induction cs arbitrary: s)
  case Nil
  then show ?case using assms(2) by (simp add: for_loop.simps)
next
  case (Cons c cs)
  have "step c t = Some (hd (cs @ [e])) \<and> for_loop stop step body (hd (cs @ [e])) t = run_body body cs t"
    if "body c s = Some (False, t)" for t
    using assms(4) [OF Cons.prems that] Cons.IH by simp
  with assms(3) [OF Cons.prems] show ?case
    by (auto simp: for_loop.simps [of _ _ _ c] split: Option.bind_split)
qed

lemma for_loop_safe:
  assumes "Q cs s" "stop e" "\<And>c cs t. Q (c # cs) t \<Longrightarrow> \<not> stop c"
    and nx: "\<And>c cs t. Q (c # cs) t \<Longrightarrow> step c t = Some (hd (cs @ [e]))" "\<And>t. Q [] t \<Longrightarrow> step e t \<noteq> None"
    and body: "\<And>c cs t t'. Q (c # cs) t \<Longrightarrow> body c (hd (cs @ [e])) t = Some (False, t') \<Longrightarrow> Q cs t'"
  shows "\<exists>n. step (hd (cs @ [e])) s = Some n \<and>
     for_loop (\<lambda>(c, n). stop c) (safe_step step) (\<lambda>(c, n). body c n) (hd (cs @ [e]), n) s = run_safe body e cs s"
  using assms(1)
proof (induction cs arbitrary: s)
  case Nil
  then show ?case using assms(2) nx(2) by (auto simp: for_loop.simps)
next
  case (Cons c cs)
  let ?n = "hd (cs @ [e])"
  have "for_loop (\<lambda>(c, n). stop c) (safe_step step) (\<lambda>(c, n). body c n) (c, ?n) s = run_safe body e (c # cs) s"
  proof -
    have "\<exists>n'. step ?n t = Some n' \<and>
        for_loop (\<lambda>(c, n). stop c) (safe_step step) (\<lambda>(c, n). body c n) (?n, n') t = run_safe body e cs t"
      if "body c ?n s = Some (False, t)" for t
      using Cons.IH [OF body [OF Cons.prems that]] .
    then show ?thesis
      using assms(3) [OF Cons.prems]
      by (auto simp: for_loop.simps [of _ _ _ "(c, ?n)"] safe_step_def split: Option.bind_split; fastforce)
  qed
  with nx(1) [OF Cons.prems] show ?case by simp
qed

text \<open>Cursors that the step function of an unchanged store leads through.\<close>

fun follows :: "('c \<Rightarrow> 'c option) \<Rightarrow> 'c list \<Rightarrow> bool" where
  "follows nx (a # b # r) \<longleftrightarrow> nx a = Some b \<and> follows nx (b # r)"
| "follows nx _ \<longleftrightarrow> True"

lemma follows_hd: "follows nx (c # cs @ [e]) \<longleftrightarrow> nx c = Some (hd (cs @ [e])) \<and> follows nx (cs @ [e])"
  by (cases cs) simp_all

lemma for_loop_static:
  assumes "follows nx (cs @ [e])" "stop e" "\<forall>c \<in> set cs. \<not> stop c"
    and "\<And>p t b t'. body p t = Some (b, t') \<Longrightarrow> lh t' = lh t"
    and "\<And>c t. lh t = lh s \<Longrightarrow> step c t = nx c"
  shows "for_loop stop step body (hd (cs @ [e])) s = run_body body cs s"
proof (rule for_loop_run [where Q = "\<lambda>cs t. follows nx (cs @ [e]) \<and> (\<forall>c \<in> set cs. \<not> stop c) \<and> lh t = lh s"])
  show "step c t' = Some (hd (cs @ [e])) \<and> follows nx (cs @ [e]) \<and> (\<forall>c \<in> set cs. \<not> stop c) \<and> lh t' = lh s"
    if "follows nx ((c # cs) @ [e]) \<and> (\<forall>c \<in> set (c # cs). \<not> stop c) \<and> lh t = lh s" "body c t = Some (False, t')"
    for c cs t t'
  proof -
    have "lh t' = lh s" using assms(4) [OF that(2)] that(1) by simp
    with assms(5) [of t' c] that(1) show ?thesis by (simp add: follows_hd)
  qed
qed (use assms in auto)

lemma follows_next: "linked h xs \<Longrightarrow> follows (\<lambda>p. get_next p h) (map Ref xs)"
  by (induction h xs rule: linked.induct) auto

lemma follows_snoc: "follows nx (xs @ [a, b]) \<longleftrightarrow> follows nx (xs @ [a]) \<and> nx a = Some b"
  by (induction nx xs rule: follows.induct) auto

lemma follows_prev: "linked h xs \<Longrightarrow> follows (\<lambda>p. get_prev p h) (rev (map Ref xs))"
  by (induction h xs rule: linked.induct) (auto simp: follows_snoc)

lemma follows_suffix: "follows nx (xs @ ys) \<Longrightarrow> follows nx ys"
proof (induction xs)
  case (Cons x xs)
  then show ?case by (cases "xs @ ys") simp_all
qed simp

section \<open>Loops over the nodes of a ring\<close>

lemma ring_follows:
  assumes "rings h R" "R q = Some xs"
  shows "follows (\<lambda>p. get_next p h) (Ref q # map Ref xs @ [Ref q])"
    and "follows (\<lambda>p. get_prev p h) (Ref q # map Ref (rev xs) @ [Ref q])"
  using follows_next [OF ringsD(1) [OF assms]] follows_prev [OF ringsD(1) [OF assms]] by (simp_all add: rev_map)

lemma list_for_each_prev_rings:
  assumes R: "rings (lh s) R" "R q = Some xs"
    and body: "\<And>p t b t'. body p t = Some (b, t') \<Longrightarrow> lh t' = lh t"
  shows "list_for_each_prev body lh (Ref q) s = run_body body (map Ref (rev xs)) s"
proof -
  let ?nx = "\<lambda>p. get_prev p (lh s)"
  have f: "?nx (Ref q) = Some (hd (map Ref (rev xs) @ [Ref q]))" "follows ?nx (map Ref (rev xs) @ [Ref q])"
    using ring_follows(2) [OF R] by (simp_all only: follows_hd)
  have "for_loop (\<lambda>pos. list_is_head pos (Ref q)) (\<lambda>pos s. get_prev pos (lh s)) body
      (hd (map Ref (rev xs) @ [Ref q])) s = run_body body (map Ref (rev xs)) s"
    by (rule for_loop_static [OF f(2) _ _ body]) (use ringsD(3) [OF R] in \<open>auto simp: list_is_head_def\<close>)
  with f(1) show ?thesis by (simp add: list_for_each_prev_def)
qed

lemma list_for_each_continue_rings:
  assumes R: "rings (lh s) R" "R q = Some (us @ p # vs)"
    and body: "\<And>p t b t'. body p t = Some (b, t') \<Longrightarrow> lh t' = lh t"
  shows "list_for_each_continue body lh (Ref q) (Ref p) s = run_body body (map Ref vs) s"
proof -
  let ?nx = "\<lambda>p. get_next p (lh s)"
  have "follows ?nx (Ref p # map Ref vs @ [Ref q])"
    by (rule follows_suffix [where xs = "Ref q # map Ref us"]) (use ring_follows(1) [OF R] in simp)
  then have f: "?nx (Ref p) = Some (hd (map Ref vs @ [Ref q]))" "follows ?nx (map Ref vs @ [Ref q])"
    by (simp_all only: follows_hd)
  have "for_loop (\<lambda>pos. list_is_head pos (Ref q)) (\<lambda>pos s. get_next pos (lh s)) body
      (hd (map Ref vs @ [Ref q])) s = run_body body (map Ref vs) s"
    by (rule for_loop_static [OF f(2) _ _ body]) (use ringsD(3) [OF R] in \<open>auto simp: list_is_head_def\<close>)
  with f(1) show ?thesis by (simp add: list_for_each_continue_def)
qed

text \<open>
  The safe loops: \<open>Q xs t\<close> says that \<open>xs\<close> are the entries still in the list \<open>q\<close>.  The body
  may take the current entry, the first one, out of the list.
\<close>

lemma list_for_each_safe_rings:
  assumes Q: "Q xs s" "\<And>xs t. Q xs t \<Longrightarrow> \<exists>R. rings (lh t) R \<and> R q = Some xs"
    and body: "\<And>x xs n t t'. Q (x # xs) t \<Longrightarrow> body (Ref x) n t = Some (False, t') \<Longrightarrow> Q xs t'"
  shows "list_for_each_safe body lh (Ref q) s = run_safe body (Ref q) (map Ref xs) s"
proof -
  define P where "P cs t \<longleftrightarrow> (\<exists>xs. cs = map Ref xs \<and> Q xs t)" for cs t
  have ring: "follows (\<lambda>p. get_next p (lh t)) (Ref q # map Ref xs @ [Ref q]) \<and> q \<notin> set xs" if "Q xs t" for xs t
    using Q(2) [OF that] ring_follows(1) ringsD(3) by metis
  have "\<exists>n. get_next (hd (map Ref xs @ [Ref q])) (lh s) = Some n \<and>
     for_loop (\<lambda>(c, n). list_is_head c (Ref q)) (safe_step (\<lambda>c t. get_next c (lh t))) (\<lambda>(c, n). body c n)
       (hd (map Ref xs @ [Ref q]), n) s = run_safe body (Ref q) (map Ref xs) s"
  proof (rule for_loop_safe [where Q = P])
    show "P (map Ref xs) s" using Q(1) by (auto simp: P_def)
    show "\<not> list_is_head c (Ref q)" if "P (c # cs) t" for c cs t
      using that by (auto simp: P_def list_is_head_def dest: ring)
    show "get_next c (lh t) = Some (hd (cs @ [Ref q]))" if P: "P (c # cs) t" for c cs t
    proof -
      from P obtain x xs where x: "c = Ref x" "cs = map Ref xs" "Q (x # xs) t" by (auto simp: P_def)
      have "follows (\<lambda>p. get_next p (lh t)) (c # cs @ [Ref q])"
        by (rule follows_suffix [where xs = "[Ref q]"]) (use ring [OF x(3)] x(1,2) in simp)
      then show ?thesis by (simp only: follows_hd)
    qed
    show "P cs t'" if "P (c # cs) t" "body c (hd (cs @ [Ref q])) t = Some (False, t')" for c cs t t'
      using that body by (auto simp: P_def)
  qed (simp_all add: list_is_head_def)
  moreover have "get_next (Ref q) (lh s) = Some (hd (map Ref xs @ [Ref q]))"
    using ring [OF Q(1)] by (simp only: follows_hd)
  ultimately show ?thesis by (auto simp: list_for_each_safe_def simp del: get_next.simps)
qed

section \<open>Loops over the entries of a ring\<close>

text \<open>
  The contract of \<open>container_of\<close> and \<open>&pos->member\<close>: on the nodes of \<open>N\<close>, the entries of
  a list and its head, the second undoes the first, and an entry is not the null pointer.
  Only the entry of the head is no object; the loops do not pass it to their body.
\<close>

locale embedding =
  fixes entry :: "'n ptr \<Rightarrow> 'e ptr" and member :: "'e ptr \<Rightarrow> 'n ptr" and N :: "'n set"
  assumes member_entry: "n \<in> N \<Longrightarrow> member (entry (Ref n)) = Ref n"
    and entry_object: "n \<in> N \<Longrightarrow> entry (Ref n) \<noteq> NULL"
begin

lemma next_entry_follows:
  assumes "follows (\<lambda>p. get_next p h) (map Ref xs)" "set xs \<subseteq> N"
  shows "follows (\<lambda>pos. list_next_entry entry member pos h) (map (entry \<circ> Ref) xs)"
  using assms
proof (induction xs)
  case (Cons x xs)
  then show ?case by (cases xs) (auto simp: list_next_entry_def member_entry)
qed simp

lemma prev_entry_follows:
  assumes "follows (\<lambda>p. get_prev p h) (map Ref xs)" "set xs \<subseteq> N"
  shows "follows (\<lambda>pos. list_prev_entry entry member pos h) (map (entry \<circ> Ref) xs)"
  using assms
proof (induction xs)
  case (Cons x xs)
  then show ?case by (cases xs) (auto simp: list_prev_entry_def member_entry)
qed simp

lemma entry_loop:
  assumes "follows nx (map (entry \<circ> Ref) (ys @ [q]))" "q \<notin> set ys" "set (q # ys) \<subseteq> N"
    and body: "\<And>p t b t'. body p t = Some (b, t') \<Longrightarrow> lh t' = lh t"
    and "\<And>c t. lh t = lh s \<Longrightarrow> step c t = nx c"
  shows "for_loop (\<lambda>pos. list_entry_is_head member pos (Ref q)) step body
           (hd (map (entry \<circ> Ref) (ys @ [q]))) s = run_body body (map (entry \<circ> Ref) ys) s"
proof -
  have f: "follows nx (map (entry \<circ> Ref) ys @ [entry (Ref q)])" using assms(1) by simp
  have "for_loop (\<lambda>pos. list_entry_is_head member pos (Ref q)) step body
      (hd (map (entry \<circ> Ref) ys @ [entry (Ref q)])) s = run_body body (map (entry \<circ> Ref) ys) s"
  proof (rule for_loop_static [where lh = lh, OF f _ _ body assms(5)])
    show "list_entry_is_head member (entry (Ref q)) (Ref q)"
      using assms(3) by (simp add: list_entry_is_head_def member_entry)
    show "\<forall>c \<in> set (map (entry \<circ> Ref) ys). \<not> list_entry_is_head member c (Ref q)"
      using assms(2,3) by (auto simp: list_entry_is_head_def member_entry)
  qed
  then show ?thesis by simp
qed

text \<open>The entries of a ring read from a node \<open>p\<close> on, forwards and backwards; \<open>p\<close> may be the head.\<close>

lemma ring_entries_next:
  assumes R: "rings h R" "R q = Some xs" "set (q # xs) \<subseteq> N" and p: "q # xs = us @ p # vs"
  shows "follows (\<lambda>pos. list_next_entry entry member pos h) (map (entry \<circ> Ref) (p # vs @ [q]))"
proof -
  have N: "set (us @ p # vs) \<subseteq> N" "q \<in> N" using R(3) unfolding p [symmetric] by simp_all
  have "q # xs @ [q] = (us @ p # vs) @ [q]" unfolding p [symmetric] by simp
  from arg_cong [OF this, of "map Ref"]
  have "map Ref (q # xs @ [q]) = map Ref us @ map Ref (p # vs @ [q])"
    by (simp only: map_append append_assoc append_Cons append_Nil)
  with follows_next [OF ringsD(1) [OF R(1,2)]]
  have "follows (\<lambda>p. get_next p h) (map Ref us @ map Ref (p # vs @ [q]))" by (simp only:)
  from next_entry_follows [OF follows_suffix [OF this]] N show ?thesis by simp
qed

lemma ring_entries_prev:
  assumes R: "rings h R" "R q = Some xs" "set (q # xs) \<subseteq> N" and p: "xs @ [q] = us @ p # vs"
  shows "follows (\<lambda>pos. list_prev_entry entry member pos h) (map (entry \<circ> Ref) (p # rev us @ [q]))"
proof -
  have "set (us @ p # vs) \<subseteq> N" using R(3) unfolding p [symmetric] by auto
  then have N: "set (us @ p # vs) \<subseteq> N" "q \<in> N" using R(3) by simp_all
  have "rev (map Ref (q # xs @ [q])) = map Ref (rev vs) @ map Ref (p # rev us @ [q])"
    unfolding p by (simp add: rev_map)
  with follows_prev [OF ringsD(1) [OF R(1,2)]]
  have "follows (\<lambda>p. get_prev p h) (map Ref (rev vs) @ map Ref (p # rev us @ [q]))" by (simp only:)
  from prev_entry_follows [OF follows_suffix [OF this]] N show ?thesis by simp
qed

text \<open>Each loop runs its body over the entries from its starting point to the head.\<close>

lemma entry_loops_forward:
  assumes R: "rings (lh s) R" "R q = Some xs" "set (q # xs) \<subseteq> N"
    and body: "\<And>p t b t'. body p t = Some (b, t') \<Longrightarrow> lh t' = lh t"
  shows "list_for_each_entry entry member body lh (Ref q) s = run_body body (map (entry \<circ> Ref) xs) s"
    and "xs = us @ p # vs \<Longrightarrow> list_for_each_entry_continue entry member body lh (Ref q) (entry (Ref p)) s =
           run_body body (map (entry \<circ> Ref) vs) s"
    and "xs = us @ p # vs \<Longrightarrow> list_for_each_entry_from entry member body lh (Ref q) (entry (Ref p)) s =
           run_body body (map (entry \<circ> Ref) (p # vs)) s"
proof -
  have loop: "for_loop (\<lambda>pos. list_entry_is_head member pos (Ref q))
      (\<lambda>pos s. list_next_entry entry member pos (lh s)) body (hd (map (entry \<circ> Ref) (ys @ [q]))) s =
    run_body body (map (entry \<circ> Ref) ys) s" if "xs = ws @ ys" for ws ys
  proof (cases ys)
    case Nil
    then show ?thesis using R(3) by (simp add: for_loop.simps list_entry_is_head_def member_entry)
  next
    case (Cons y zs)
    with that have "q # xs = (q # ws) @ y # zs" by simp
    from ring_entries_next [OF R this] show ?thesis
      using Cons that R ringsD(3) [OF R(1,2)] by (intro entry_loop [where lh = lh, OF _ _ _ body]) auto
  qed
  have next_pos: "list_next_entry entry member (entry (Ref p)) (lh s) = Some (hd (map (entry \<circ> Ref) (vs @ [q])))"
    if "q # xs = us @ p # vs" for us p vs
    using ring_entries_next [OF R that] by (cases vs) simp_all
  have "q \<in> N" using R(3) by simp
  then have "list_first_entry entry (Ref q) (lh s) = Some (hd (map (entry \<circ> Ref) (xs @ [q])))"
    using next_pos [of "[]" q xs] by (simp add: list_first_entry_def list_next_entry_def member_entry)
  then show "list_for_each_entry entry member body lh (Ref q) s = run_body body (map (entry \<circ> Ref) xs) s"
    using loop [of "[]" xs] by (simp add: list_for_each_entry_def)
  show "list_for_each_entry_continue entry member body lh (Ref q) (entry (Ref p)) s =
      run_body body (map (entry \<circ> Ref) vs) s" if "xs = us @ p # vs"
    using loop [of "us @ [p]" vs] next_pos [of "q # us" p vs] that by (simp add: list_for_each_entry_continue_def)
  show "list_for_each_entry_from entry member body lh (Ref q) (entry (Ref p)) s =
      run_body body (map (entry \<circ> Ref) (p # vs)) s" if "xs = us @ p # vs"
    using loop [of us "p # vs"] that by (simp add: list_for_each_entry_from_def)
qed

lemma entry_loops_backward:
  assumes R: "rings (lh s) R" "R q = Some xs" "set (q # xs) \<subseteq> N"
    and body: "\<And>p t b t'. body p t = Some (b, t') \<Longrightarrow> lh t' = lh t"
  shows "list_for_each_entry_reverse entry member body lh (Ref q) s =
           run_body body (map (entry \<circ> Ref) (rev xs)) s"
    and "xs = us @ p # vs \<Longrightarrow>
           list_for_each_entry_continue_reverse entry member body lh (Ref q) (entry (Ref p)) s =
           run_body body (map (entry \<circ> Ref) (rev us)) s"
    and "xs = us @ p # vs \<Longrightarrow>
           list_for_each_entry_from_reverse entry member body lh (Ref q) (entry (Ref p)) s =
           run_body body (map (entry \<circ> Ref) (p # rev us)) s"
proof -
  have loop: "for_loop (\<lambda>pos. list_entry_is_head member pos (Ref q))
      (\<lambda>pos s. list_prev_entry entry member pos (lh s)) body (hd (map (entry \<circ> Ref) (rev ys @ [q]))) s =
    run_body body (map (entry \<circ> Ref) (rev ys)) s" if "xs = ys @ ws" for ws ys
  proof (cases ys rule: rev_cases)
    case Nil
    then show ?thesis using R(3) by (simp add: for_loop.simps list_entry_is_head_def member_entry)
  next
    case (snoc zs y)
    with that have "xs @ [q] = zs @ y # ws @ [q]" by simp
    from ring_entries_prev [OF R this] show ?thesis
      using snoc that R ringsD(3) [OF R(1,2)] by (intro entry_loop [where lh = lh, OF _ _ _ body]) auto
  qed
  have prev_pos: "list_prev_entry entry member (entry (Ref p)) (lh s) =
      Some (hd (map (entry \<circ> Ref) (rev us @ [q])))" if "xs @ [q] = us @ p # vs" for us p vs
    using ring_entries_prev [OF R that] by (cases us rule: rev_cases) simp_all
  have "q \<in> N" using R(3) by simp
  then have "list_last_entry entry (Ref q) (lh s) = Some (hd (map (entry \<circ> Ref) (rev xs @ [q])))"
    using prev_pos [of xs q "[]"] by (simp add: list_last_entry_def list_prev_entry_def member_entry)
  then show "list_for_each_entry_reverse entry member body lh (Ref q) s =
      run_body body (map (entry \<circ> Ref) (rev xs)) s"
    using loop [of xs "[]"] by (simp add: list_for_each_entry_reverse_def)
  show "list_for_each_entry_continue_reverse entry member body lh (Ref q) (entry (Ref p)) s =
      run_body body (map (entry \<circ> Ref) (rev us)) s" if "xs = us @ p # vs"
    using loop [of us "p # vs"] prev_pos [of us p "vs @ [q]"] that
    by (simp add: list_for_each_entry_continue_reverse_def)
  show "list_for_each_entry_from_reverse entry member body lh (Ref q) (entry (Ref p)) s =
      run_body body (map (entry \<circ> Ref) (p # rev us)) s" if "xs = us @ p # vs"
    using loop [of "us @ [p]" vs] that by (simp add: list_for_each_entry_from_reverse_def)
qed

end

text \<open>\<open>container_of\<close> on addresses: any member but one at the address 0.\<close>

interpretation field: embedding "container_of off" "member_at off" "{a. a \<noteq> 0 \<and> a \<noteq> off}" for off
  by unfold_locales (auto simp: container_of_def member_at_def ptr_word_def)

section \<open>Loops over hash lists and tables\<close>

lemma run_body_obj:
  assumes "\<forall>c \<in> set as. pos_of c \<noteq> NULL"
  shows "run_body (\<lambda>c. leaves_obj (body c) (pos_of c)) (as @ bs) (NULL, s) =
    do { os \<leftarrow> run_body (\<lambda>c. leaves_obj (body c) (pos_of c)) as (NULL, s);
         if fst os = NULL then run_body (\<lambda>c. leaves_obj (body c) (pos_of c)) bs os else Some os }"
  using assms
proof (induction as arbitrary: s)
  case (Cons c as)
  then show ?case by (auto simp: leaves_obj_def split: Option.bind_split)
qed simp

lemma run_body_map: "run_body body (map f cs) s = run_body (\<lambda>c. body (f c)) cs s"
  by (induction cs arbitrary: s) (auto split: Option.bind_split)

context embedding
begin

lemma chain_follows:
  assumes "chain h sl p ns" "set ns \<subseteq> N"
  shows "hlist_entry_safe entry p = hd (map (entry \<circ> Ref) ns @ [NULL]) \<and>
    follows (\<lambda>pos. hlist_next_entry entry member pos h) (map (entry \<circ> Ref) ns @ [NULL])"
  using assms
proof (induction ns arbitrary: sl p)
  case (Cons n ns)
  then have "hlist_entry_safe entry (hnext h n) = hd (map (entry \<circ> Ref) ns @ [NULL])"
    "follows (\<lambda>pos. hlist_next_entry entry member pos h) (map (entry \<circ> Ref) ns @ [NULL])"
    using Cons.IH [of "NextOf n" "hnext h n"] by (simp_all del: o_apply)
  with Cons.prems show ?case
    using follows_hd [of _ "entry (Ref n)" "map (entry \<circ> Ref) ns" NULL]
    by (simp add: hlist_next_entry_def member_entry hlist_entry_safe_def comp_def)
qed (simp add: hlist_entry_safe_def)

lemma hlist_for_each_entry_chains:
  assumes B: "chains (hh s) B" "set (B b) \<subseteq> N"
    and body: "\<And>p t brk t'. body p t = Some (brk, t') \<Longrightarrow> hh t' = hh t"
  shows "hlist_for_each_entry entry member body hh b s = run_body body (map (entry \<circ> Ref) (B b)) s"
proof -
  note f = chain_follows [OF chainsD(1) [OF B(1)] B(2)]
  have "for_loop (\<lambda>pos. pos = NULL) (\<lambda>pos s. hlist_next_entry entry member pos (hh s)) body
      (hd (map (entry \<circ> Ref) (B b) @ [NULL])) s = run_body body (map (entry \<circ> Ref) (B b)) s"
    by (rule for_loop_static [OF conjunct2 [OF f] _ _ body])
      (use B(2) entry_object in \<open>auto simp: subset_iff\<close>)
  with f show ?thesis by (simp add: hlist_for_each_entry_def)
qed

text \<open>A loop over a table is one loop over the entries of all its buckets.\<close>

lemma hash_for_each_chains:
  assumes B: "chains (hh s) B" "\<And>b. b < sz \<Longrightarrow> set (B b) \<subseteq> N"
    and body: "\<And>b p t brk t'. body b p t = Some (brk, t') \<Longrightarrow> hh t' = hh t"
  shows "hash_for_each sz entry member body hh s =
    run_body (\<lambda>(b, pos). leaves_obj (body b) pos)
      (concat (map (\<lambda>b. map (\<lambda>n. (b, entry (Ref n))) (B b)) [0..<sz])) (NULL, s)"
proof -
  let ?body = "\<lambda>c. leaves_obj (body (fst c)) (snd c)"
  let ?entries = "\<lambda>b. map (\<lambda>n. (b, entry (Ref n))) (B b)"
  have obj: "hh (snd os') = hh (snd os)" if "leaves_obj (body b) p os = Some (brk, os')" for b p os brk os'
    using that body by (auto simp: leaves_obj_def split: Option.bind_splits)
  have inner: "hlist_for_each_entry entry member (leaves_obj (body b)) (hh \<circ> snd) b (NULL, t) =
      run_body ?body (?entries b) (NULL, t)" if "b < sz" "hh t = hh s" for b t
    using hlist_for_each_entry_chains [of "hh \<circ> snd" "(NULL, t)" B b "leaves_obj (body b)"] B that obj
    by (simp add: run_body_map comp_def)
  have keep: "hh (snd os) = hh t" if "run_body ?body cs (r, t) = Some os" for cs r t os
    using that
  proof (induction cs arbitrary: r t)
    case (Cons c cs)
    then show ?case using obj by (cases c) (fastforce split: Option.bind_splits if_splits)
  qed auto
  have "hash_buckets (\<lambda>b. hlist_for_each_entry entry member (leaves_obj (body b)) (hh \<circ> snd) b) bs (NULL, t) =
      run_body ?body (concat (map ?entries bs)) (NULL, t)" if "set bs \<subseteq> {..<sz}" "hh t = hh s" for bs t
    using that
  proof (induction bs arbitrary: t)
    case (Cons b bs)
    have "\<forall>c \<in> set (?entries b). snd c \<noteq> NULL" using B(2) [of b] Cons.prems(1) entry_object by (auto simp: subset_iff)
    from run_body_obj [OF this, of "\<lambda>c. body (fst c)" "concat (map ?entries bs)" t]
    have split: "run_body ?body (?entries b @ concat (map ?entries bs)) (NULL, t) =
      do { os \<leftarrow> run_body ?body (?entries b) (NULL, t);
           if fst os = NULL then run_body ?body (concat (map ?entries bs)) os else Some os }"
      by simp
    have stop: "hash_buckets f bs os = Some os" if "fst os \<noteq> NULL" for f os using that by (cases bs) auto
    have inner_b: "hlist_for_each_entry entry member (leaves_obj (body b)) (hh \<circ> snd) b (NULL, t) =
        run_body ?body (?entries b) (NULL, t)" using Cons.prems by (intro inner) auto
    show ?case
    proof (cases "run_body ?body (?entries b) (NULL, t)")
      case None
      with inner_b split show ?thesis by (simp add: comp_def)
    next
      case (Some os)
      show ?thesis
      proof (cases "fst os = NULL")
        case True
        then obtain t' where os: "os = (NULL, t')" by (cases os) simp
        from keep [OF Some] Cons.prems have "hh t' = hh s" unfolding os by simp
        with Cons.IH [of t'] Cons.prems Some inner_b split os show ?thesis by (simp add: comp_def)
      next
        case False
        with Some inner_b split stop [OF False] show ?thesis by (simp add: comp_def)
      qed
    qed
  qed simp
  from this [of "[0..<sz]" s] show ?thesis
    unfolding hash_for_each_def case_prod_beta' by (auto simp: lessThan_atLeast0)
qed

end

end
