(* ===== verification/Hlist_Laws.thy ===== *)
theory Hlist_Laws
  imports Hlist
begin

text \<open>
  The operations of \<open>lib/list.h\<close> in the middle of hash lists, and on whole hash lists, as
  operations on the chains.
\<close>

section \<open>Insertion next to a node\<close>

text \<open>The pointer behind a part of a chain is replaced.\<close>

lemma set_slot_segment:
  assumes s: "segment h (FirstOf b) (hfirst h b) us e" "distinct us"
  obtains h' where "set_slot (slot_after (FirstOf b) us) v h = Some h'" "segment h' (FirstOf b) (hfirst h' b) us v"
    "hpprev h' = hpprev h" "\<And>m. m \<notin> set us \<Longrightarrow> hnext h' m = hnext h m" "\<And>c. c \<noteq> b \<Longrightarrow> hfirst h' c = hfirst h c"
proof (cases us rule: rev_cases)
  case Nil
  show thesis by (rule that [of "h\<lparr>hfirst := (hfirst h)(b := v)\<rparr>"]) (simp_all add: Nil)
next
  case (snoc ws u)
  let ?h' = "h\<lparr>hnext := (hnext h)(u := v)\<rparr>"
  have "segment ?h' (FirstOf b) (hfirst h b) ws (Ref u) = segment h (FirstOf b) (hfirst h b) ws (Ref u)"
    using s(2) snoc by (intro segment_cong) auto
  then have "segment ?h' (FirstOf b) (hfirst ?h' b) us v" using s(1) snoc by (simp add: segment_snoc)
  then show thesis by (intro that [of ?h']) (simp_all add: snoc)
qed

lemma chains_split:
  assumes B: "chains h B" and n: "B b = us @ m # vs"
  shows "segment h (FirstOf b) (hfirst h b) us (Ref m)" "hpprev h m = slot_after (FirstOf b) us"
    "chain h (NextOf m) (hnext h m) vs" "distinct us" "m \<notin> set us" "m \<notin> set vs" "set us \<inter> set vs = {}"
    "distinct vs"
  using chainsD(1,2) [OF B, of b] n by (auto simp: chain_append)

lemma hlist_add_before_chains:
  assumes B: "chains h B" and m: "B b = us @ m # vs" and n: "\<And>c. n \<notin> set (B c)"
  shows "\<exists>h'. hlist_add_before (Ref n) (Ref m) h = Some h' \<and> chains h' (B(b := us @ n # m # vs))"
proof -
  note c = chains_split [OF B m]
  have nn: "n \<noteq> m" "n \<notin> set us" "n \<notin> set vs" using n [of b] m by auto
  let ?sl = "slot_after (FirstOf b) us"
  let ?h1 = "h\<lparr>hnext := (hnext h)(n := Ref m), hpprev := (hpprev h)(m := NextOf n, n := ?sl)\<rparr>"
  have "segment ?h1 (FirstOf b) (hfirst h b) us (Ref m) = segment h (FirstOf b) (hfirst h b) us (Ref m)"
    using c(5) nn by (intro segment_cong) auto
  then have "segment ?h1 (FirstOf b) (hfirst ?h1 b) us (Ref m)" using c(1) by simp
  from set_slot_segment [OF this c(4), of "Ref n"] obtain h' where
    h': "set_slot ?sl (Ref n) ?h1 = Some h'" "segment h' (FirstOf b) (hfirst h' b) us (Ref n)"
    "hpprev h' = hpprev ?h1" "\<And>x. x \<notin> set us \<Longrightarrow> hnext h' x = hnext ?h1 x" "\<And>d. d \<noteq> b \<Longrightarrow> hfirst h' d = hfirst ?h1 d"
    by blast
  have "hlist_add_before (Ref n) (Ref m) h = Some h'"
    using h'(1) nn(1) c(2) by (simp add: hlist_add_before_def fun_upd_twist [of m n])
  moreover have "chains h' (B(b := us @ n # m # vs))"
  proof (rule chains_local [OF B])
    have "chain h' (NextOf m) (hnext h m) vs = chain h (NextOf m) (hnext h m) vs"
    proof (intro chain_cong ballI)
      fix x assume "x \<in> set vs"
      then have "x \<noteq> n" "x \<noteq> m" "x \<notin> set us" using nn c(6,7) by auto
      then show "hnext h' x = hnext h x \<and> hpprev h' x = hpprev h x" using h'(3,4) by simp
    qed
    then have "chain h' ?sl (Ref n) (n # m # vs)" using nn c(3,5) h'(3,4) by simp
    then show "chain h' (FirstOf b) (hfirst h' b) (us @ n # m # vs)" using h'(2) by (auto simp: chain_append)
    show "distinct (us @ n # m # vs)" using nn c(4-8) by auto
    show "x \<notin> set (B d)" if "x \<in> set (us @ n # m # vs)" "d \<noteq> b" for d x
      using that n chainsD(3) [OF B, of x d b] m by auto
    show "hnext h' x = hnext h x \<and> hpprev h' x = hpprev h x" if "d \<noteq> b" "x \<in> set (B d)" for d x
    proof -
      have "x \<noteq> n" "x \<noteq> m" "x \<notin> set us" using that n chainsD(3) [OF B, of x d b] m by auto
      then show ?thesis using h'(3,4) by simp
    qed
  qed (simp add: h'(5))
  ultimately show ?thesis by blast
qed

lemma hlist_add_behind_chains:
  assumes B: "chains h B" and m: "B b = us @ m # vs" and n: "\<And>c. n \<notin> set (B c)"
  shows "\<exists>h'. hlist_add_behind (Ref n) (Ref m) h = Some h' \<and> chains h' (B(b := us @ m # n # vs))"
proof -
  note c = chains_split [OF B m]
  have nn: "n \<noteq> m" "n \<notin> set us" "n \<notin> set vs" using n [of b] m by auto
  define h' where "h' = h\<lparr>hnext := (hnext h)(n := hnext h m, m := Ref n),
    hpprev := (case vs of [] \<Rightarrow> (hpprev h)(n := NextOf m) | v # _ \<Rightarrow> (hpprev h)(n := NextOf m, v := NextOf n))\<rparr>"
  have first: "hnext h m = (case vs of [] \<Rightarrow> NULL | v # _ \<Rightarrow> Ref v)" using c(3) by (cases vs) simp_all
  have "hlist_add_behind (Ref n) (Ref m) h = Some h'"
    using nn first by (cases vs) (simp_all add: hlist_add_behind_def h'_def)
  moreover have other: "hnext h' x = hnext h x \<and> hpprev h' x = hpprev h x"
    if "x \<noteq> n" "x \<noteq> m" "x \<notin> set vs" for x
    using that by (cases vs) (simp_all add: h'_def)
  have "chains h' (B(b := us @ m # n # vs))"
  proof (rule chains_local [OF B])
    have "segment h' (FirstOf b) (hfirst h b) us (Ref m) = segment h (FirstOf b) (hfirst h b) us (Ref m)"
    proof (intro segment_cong ballI)
      fix x assume "x \<in> set us"
      then have "x \<noteq> n" "x \<noteq> m" "x \<notin> set vs" using nn c(5,7) by auto
      then show "hnext h' x = hnext h x \<and> hpprev h' x = hpprev h x" by (rule other)
    qed
    moreover have "chain h' (slot_after (FirstOf b) us) (Ref m) (m # n # vs)"
    proof (cases vs)
      case Nil
      then show ?thesis using nn c(2) first by (simp add: h'_def)
    next
      case (Cons v ws)
      have "chain h' (NextOf v) (hnext h v) ws = chain h (NextOf v) (hnext h v) ws"
        using Cons nn c(6,8) by (intro chain_cong) (auto simp: h'_def)
      moreover have "v \<noteq> n" "v \<noteq> m" using Cons nn c(6) by auto
      ultimately show ?thesis using Cons nn(1) c(2,3) first by (simp add: h'_def)
    qed
    moreover have "hfirst h' = hfirst h" by (simp add: h'_def)
    ultimately show "chain h' (FirstOf b) (hfirst h' b) (us @ m # n # vs)"
      using c(1) by (auto simp: chain_append)
    show "distinct (us @ m # n # vs)" using nn c(4-8) by auto
    show "x \<notin> set (B d)" if "x \<in> set (us @ m # n # vs)" "d \<noteq> b" for d x
      using that n chainsD(3) [OF B, of x d b] m by auto
    show "hnext h' x = hnext h x \<and> hpprev h' x = hpprev h x" if "d \<noteq> b" "x \<in> set (B d)" for d x
      using that n chainsD(3) [OF B, of x d b] m by (intro other) auto
  qed (simp add: h'_def)
  ultimately show ?thesis by blast
qed

section \<open>Whole lists\<close>

text \<open>The list moves to another head, whose own list, if it had one, is forgotten.\<close>

lemma hlist_move_list_chains:
  assumes B: "chains h B" and bc: "b \<noteq> c"
  shows "\<exists>h'. hlist_move_list b c h = Some h' \<and> chains h' (B(b := [], c := B b))"
proof -
  define h' where "h' = h\<lparr>hfirst := (hfirst h)(c := hfirst h b, b := NULL),
    hpprev := (case B b of [] \<Rightarrow> hpprev h | n # _ \<Rightarrow> (hpprev h)(n := FirstOf c))\<rparr>"
  have first: "hfirst h b = (case B b of [] \<Rightarrow> NULL | n # _ \<Rightarrow> Ref n)"
    using chainsD(1) [OF B, of b] by (cases "B b") simp_all
  have "hlist_move_list b c h = Some h'"
    using first bc by (cases "B b") (simp_all add: hlist_move_list_def h'_def)
  moreover have "chains h' (B(b := [], c := B b))"
  proof (rule chainsI)
    fix d
    show "chain h' (FirstOf d) (hfirst h' d) ((B(b := [], c := B b)) d)"
    proof -
      consider "d = b" | "d = c" | "d \<noteq> b" "d \<noteq> c" by blast
      then show ?thesis
      proof cases
        case 1
        then show ?thesis using bc by (simp add: h'_def)
      next
        case 2
        then show ?thesis
        proof (cases "B b")
          case Nil
          then show ?thesis using 2 bc first by (simp add: h'_def)
        next
          case (Cons n ns)
          have "distinct (n # ns)" "chain h (NextOf n) (hnext h n) ns"
            using chainsD(1,2) [OF B, of b] Cons by simp_all
          moreover from this have "chain h' (NextOf n) (hnext h n) ns = chain h (NextOf n) (hnext h n) ns"
            by (intro chain_cong) (auto simp: h'_def Cons)
          ultimately show ?thesis using 2 bc first Cons by (simp add: h'_def)
        qed
      next
        case 3
        have "chain h' (FirstOf d) (hfirst h d) (B d) = chain h (FirstOf d) (hfirst h d) (B d)"
        proof (intro chain_cong ballI)
          fix n assume "n \<in> set (B d)"
          then have "n \<notin> set (B b)" using 3(1) chainsD(3) [OF B, of n d b] by blast
          then show "hnext h' n = hnext h n \<and> hpprev h' n = hpprev h n"
            by (cases "B b") (simp_all add: h'_def)
        qed
        then show ?thesis using 3 chainsD(1) [OF B, of d] by (simp add: h'_def)
      qed
    qed
    show "distinct ((B(b := [], c := B b)) d)" using chainsD(2) [OF B] by simp
  next
    fix d e n assume "n \<in> set ((B(b := [], c := B b)) d)" "n \<in> set ((B(b := [], c := B b)) e)"
    then show "d = e" using chainsD(3) [OF B, of n] by (auto split: if_splits)
  qed
  ultimately show ?thesis by blast
qed

lemma hlist_is_singular_node_chains:
  assumes B: "chains h B" and n: "n \<in> set (B b)"
  shows "hlist_is_singular_node (Ref n) b h = Some (B b = [n])"
proof -
  from n obtain us vs where s: "B b = us @ n # vs" by (meson split_list)
  note c = chains_split [OF B s]
  have "hnext h n = NULL \<longleftrightarrow> vs = []" using c(3) by (cases vs) simp_all
  moreover have "hpprev h n = FirstOf b \<longleftrightarrow> us = []" using c(2) by (simp add: slot_after_def)
  moreover have "B b = [n] \<longleftrightarrow> us = [] \<and> vs = []" using s by (cases us) auto
  ultimately show ?thesis by (auto simp: hlist_is_singular_node_def)
qed

text \<open>A node with itself as its list can be deleted as any other: no chain changes.\<close>

lemma hlist_fake_del:
  assumes B: "chains h B" and n: "\<And>c. n \<notin> set (B c)" "hnext h n = NULL"
  shows "\<exists>h1 h2. hlist_add_fake (Ref n) h = Some h1 \<and> hlist_fake (Ref n) h1 = Some True \<and> chains h1 B \<and>
     hlist_del_init (Ref n) h1 = Some h2 \<and> chains h2 B \<and> hlist_unhashed (Ref n) h2 = Some True"
proof -
  have keep: "chains h' B" if "hfirst h' = hfirst h" "\<And>m. m \<noteq> n \<Longrightarrow> hnext h' m = hnext h m \<and> hpprev h' m = hpprev h m" for h'
  proof (rule chainsI)
    fix d
    have "chain h' (FirstOf d) (hfirst h d) (B d) = chain h (FirstOf d) (hfirst h d) (B d)"
      using that(2) n(1) by (intro chain_cong ballI) metis
    then show "chain h' (FirstOf d) (hfirst h' d) (B d)" using chainsD(1) [OF B, of d] that(1) by simp
  qed (use chainsD(2,3) [OF B] in auto)
  let ?h1 = "h\<lparr>hpprev := (hpprev h)(n := NextOf n)\<rparr>"
  let ?h2 = "h\<lparr>hpprev := (hpprev h)(n := NoSlot), hnext := (hnext h)(n := NULL)\<rparr>"
  have "hlist_add_fake (Ref n) h = Some ?h1" "hlist_fake (Ref n) ?h1 = Some True"
    by (simp_all add: hlist_add_fake_def hlist_fake_def)
  moreover have "hlist_del_init (Ref n) ?h1 = Some ?h2"
    using n(2) by (simp add: hlist_del_init_def hlist_unhashed_def raw_hlist_del_def INIT_HLIST_NODE_def)
  moreover have "chains ?h1 B" "chains ?h2 B" by (rule keep; simp)+
  ultimately show ?thesis by (auto simp: hlist_unhashed_def)
qed

end
