(* ===== verification/Lib_Theorems.thy ===== *)
theory Lib_Theorems
  imports Utils Loop_Laws Hlist_Laws
begin

text \<open>
  The properties of the library code: the lists of \<open>lib/list.h\<close>, the hash tables of
  \<open>lib/hashtable.h\<close> and the memory helpers of \<open>phase1/utils.c\<close>.  The witnesses start from
  a store in which every node points to itself.
\<close>

section \<open>A start for the witnesses\<close>

definition self_heap :: "nat lheap" where
  "self_heap = \<lparr>nxt = Ref, prv = Ref\<rparr>"

lemma self_heap_rings: "finite X \<Longrightarrow> rings self_heap (\<lambda>q. if q \<in> X then Some [] else None)"
  by (auto simp: rings_def shape_def in_ring_def self_heap_def split: if_splits)

lemma self_heap_one: "rings self_heap [0 \<mapsto> []]" "(5::nat) \<notin> nodes [0 \<mapsto> []]"
  "(6::nat) \<notin> nodes [0 \<mapsto> [5]]"
  by (auto simp: rings_def shape_def in_ring_def self_heap_def not_in_nodes split: if_splits)

lemma self_heap_two: "\<exists>h. rings h [0 \<mapsto> [5, 6::nat]]"
proof -
  from list_add_tail_rings [OF self_heap_one(1) _ self_heap_one(2), of 0 "[]"] obtain h
    where h: "rings h [0 \<mapsto> [5::nat]]" by auto
  from list_add_tail_rings [OF h _ self_heap_one(3), of 0 "[5]"] show ?thesis by auto
qed

lemma no_chains: "chains \<lparr>hfirst = \<lambda>_. NULL, hnext = \<lambda>_. NULL, hpprev = \<lambda>_. NoSlot\<rparr> (\<lambda>_. [])"
  by (simp add: chains_def)

section \<open>Lists\<close>

text \<open>a node that is in no list can be appended to a list (\<open>list_add_tail\<close>) or pushed
  in front of it (\<open>list_add\<close>); the list then has it as its last or first entry, no other
  list changes, and deleting the node (\<open>list_del\<close>) restores every list.\<close>

theorem list_insert_delete:
  assumes "rings h R" "R q = Some xs" "new \<notin> nodes R"
  shows "(\<exists>h1 h2. list_add_tail (Ref new) (Ref q) h = Some h1 \<and> rings h1 (R(q \<mapsto> xs @ [new])) \<and>
            list_del (Ref new) h1 = Some h2 \<and> rings h2 R) \<and>
     (\<exists>h1 h2. list_add (Ref new) (Ref q) h = Some h1 \<and> rings h1 (R(q \<mapsto> new # xs)) \<and>
            list_del (Ref new) h1 = Some h2 \<and> rings h2 R)"
proof (rule conjI)
  have del: "\<exists>h2. list_del (Ref new) h1 = Some h2 \<and> rings h2 R"
    if h1: "rings h1 (R(q \<mapsto> us @ new # vs))" and xs: "xs = us @ vs" for h1 us vs
  proof -
    have "loose new (R(q \<mapsto> us @ new # vs))" by (auto simp: loose_def)
    moreover have "unlink new (R(q \<mapsto> us @ new # vs)) = R"
      using unlink_member [OF rings_shape [OF h1], of q us new vs] assms(2) xs by (auto simp: fun_eq_iff)
    ultimately show ?thesis using list_del_rings [OF h1, of new] by simp
  qed
  from list_add_tail_rings [OF assms] obtain h1
    where h1: "list_add_tail (Ref new) (Ref q) h = Some h1" "rings h1 (R(q \<mapsto> xs @ [new]))" by blast
  with del [of h1 xs "[]"] show "\<exists>h1 h2. list_add_tail (Ref new) (Ref q) h = Some h1 \<and>
      rings h1 (R(q \<mapsto> xs @ [new])) \<and> list_del (Ref new) h1 = Some h2 \<and> rings h2 R" by auto
  from list_add_rings [OF assms] obtain h1
    where h1: "list_add (Ref new) (Ref q) h = Some h1" "rings h1 (R(q \<mapsto> new # xs))" by blast
  with del [of h1 "[]" xs] show "\<exists>h1 h2. list_add (Ref new) (Ref q) h = Some h1 \<and>
      rings h1 (R(q \<mapsto> new # xs)) \<and> list_del (Ref new) h1 = Some h2 \<and> rings h2 R" by auto
qed

theorem list_insert_delete_witness:
  "\<exists>h1 h2. list_add_tail (Ref 5) (Ref 0) self_heap = Some h1 \<and> rings h1 [0 \<mapsto> [5]] \<and>
     list_del (Ref 5) h1 = Some h2 \<and> rings h2 [0 \<mapsto> []]"
  using list_insert_delete [OF self_heap_one(1) _ self_heap_one(2), of 0 "[]"] by simp

text \<open>C34: a list can be cut in two behind any of its entries (\<open>list_cut_position\<close>) or in
  front of any of them (\<open>list_cut_before\<close>): the first part becomes the list \<open>a\<close>, the rest
  stays, no other list changes, and joining them again (\<open>list_splice_init\<close>) restores the
  list and leaves \<open>a\<close> empty.\<close>

theorem list_cut_splice:
  assumes "rings h R" "R q = Some (us @ vs)" "us @ vs \<noteq> []" "a \<notin> nodes R"
  shows "(\<exists>h1 h2. list_cut_position (Ref a) (Ref q) (Ref (last (q # us))) h = Some h1 \<and>
            rings h1 (R(a \<mapsto> us, q \<mapsto> vs)) \<and>
            list_splice_init (Ref a) (Ref q) h1 = Some h2 \<and> rings h2 (R(a \<mapsto> []))) \<and>
     (\<exists>h1 h2. list_cut_before (Ref a) (Ref q) (Ref (hd (vs @ [q]))) h = Some h1 \<and>
            rings h1 (R(a \<mapsto> us, q \<mapsto> vs)) \<and>
            list_splice_init (Ref a) (Ref q) h1 = Some h2 \<and> rings h2 (R(a \<mapsto> [])))"
proof -
  have "a \<noteq> q" using nodes_headI [of R q, OF assms(2)] assms(4) by auto
  moreover from this assms(2) have "(R(a \<mapsto> us, q \<mapsto> vs))(a \<mapsto> [], q \<mapsto> us @ vs) = R(a \<mapsto> [])"
    by (auto simp: fun_eq_iff)
  ultimately have join: "\<exists>h2. list_splice_init (Ref a) (Ref q) h1 = Some h2 \<and> rings h2 (R(a \<mapsto> []))"
    if "rings h1 (R(a \<mapsto> us, q \<mapsto> vs))" for h1
    using list_splice_init_rings(1) [OF that, of a us q vs] by simp
  with list_cut_position_rings [OF assms] list_cut_before_rings [OF assms(1,2,4)] show ?thesis by blast
qed

theorem list_cut_splice_witness:
  "\<exists>h h1. list_cut_position (Ref 7) (Ref 0) (Ref (5::nat)) h = Some h1 \<and> rings h1 [7 \<mapsto> [5], 0 \<mapsto> [6]]"
proof -
  obtain h where h: "rings h [0 \<mapsto> [5, 6::nat]]" using self_heap_two by blast
  have "(7::nat) \<notin> nodes [0 \<mapsto> [5, 6]]" by (auto simp: not_in_nodes split: if_splits)
  with list_cut_splice [OF h, of 0 "[5]" "[6]" 7] show ?thesis by (auto simp: fun_upd_twist)
qed

text \<open>C37: the operations that change the order of a list.  \<open>list_swap\<close> exchanges two entries,
  neighbours or not; \<open>list_bulk_move_tail\<close> moves a section to the end; \<open>list_rotate_left\<close>
  moves the first entry to the end, and \<open>list_rotate_to_front\<close> turns the list until a given
  entry is the first.  No other list changes.\<close>

theorem list_reorder:
  assumes "rings h R" "R q = Some (us @ a # vs @ b # ws)"
  shows "(\<exists>h'. list_swap (Ref a) (Ref b) h = Some h' \<and> rings h' (R(q \<mapsto> us @ b # vs @ a # ws))) \<and>
     (\<exists>h'. list_bulk_move_tail (Ref q) (Ref a) (Ref b) h = Some h' \<and>
           rings h' (R(q \<mapsto> us @ ws @ a # vs @ [b]))) \<and>
     (\<exists>h'. list_rotate_left (Ref q) h = Some h' \<and>
           rings h' (R(q \<mapsto> rotate1 (us @ a # vs @ b # ws)))) \<and>
     (\<exists>h'. list_rotate_to_front (Ref a) (Ref q) h = Some h' \<and>
           rings h' (R(q \<mapsto> a # vs @ b # ws @ us)))"
  using list_swap_rings [OF assms] list_bulk_move_tail_rings [OF assms(1), of q us "a # vs @ [b]" ws]
    list_rotate_left_rings [OF assms] list_rotate_to_front_rings [OF assms] assms(2) by simp

theorem list_reorder_witness:
  "\<exists>h h'. list_swap (Ref 5) (Ref (6::nat)) h = Some h' \<and> rings h' [0 \<mapsto> [6, 5]]"
proof -
  obtain h where "rings h [0 \<mapsto> [5, 6::nat]]" using self_heap_two by blast
  from list_reorder [OF this, of 0 "[]" 5 "[]" 6 "[]"] show ?thesis by auto
qed

text \<open>Two bodies that take the current entry out of the list.\<close>

definition deleting :: "'n ptr \<Rightarrow> 'n lheap \<Rightarrow> (bool \<times> 'n lheap) option" where
  "deleting pos h = do { h \<leftarrow> list_del pos h; Some (False, h) }"

definition moving :: "'n ptr \<Rightarrow> 'n ptr \<Rightarrow> 'n lheap \<Rightarrow> (bool \<times> 'n lheap) option" where
  "moving head pos h = do { h \<leftarrow> list_move_tail pos head h; Some (False, h) }"

lemma deleting_first:
  assumes "rings h R" "R q = Some (x # xs)"
  shows "\<exists>h'. deleting (Ref x) h = Some (False, h') \<and> rings h' (R(q \<mapsto> xs)) \<and> nxt h' x = NULL"
proof -
  have "loose x R" using assms(2) unfolding loose_def by (intro disjI2 exI [of _ q] exI conjI) auto
  from list_del_rings [OF assms(1) this] obtain h' where h': "list_del (Ref x) h = Some h'" "rings h' (R(q \<mapsto> xs))"
    using unlink_member [OF rings_shape [OF assms(1)], of q "[]" x xs] assms(2) by auto
  moreover have "nxt h' x = NULL" using h'(1) by (auto simp: list_del_def split: Option.bind_splits)
  ultimately show ?thesis by (simp add: deleting_def)
qed

lemma moving_first:
  assumes "rings h R" "R a = Some (x # xs)" "R b = Some ys" "a \<noteq> b"
  shows "\<exists>h'. moving (Ref b) (Ref x) h = Some (False, h') \<and> rings h' (R(a \<mapsto> xs, b \<mapsto> ys @ [x]))"
proof -
  have "x \<noteq> b" "x \<notin> set ys" using rings_apart [OF assms] by auto
  moreover have "loose x R" using assms(2) unfolding loose_def by (intro disjI2 exI [of _ a] exI conjI) auto
  moreover have "unlink x R = R(a \<mapsto> xs)"
    using unlink_member [OF rings_shape [OF assms(1)], of a "[]" x xs] assms(2) by simp
  ultimately show ?thesis
    using list_move_tail_rings [OF assms(1) _ assms(3), of x] by (auto simp: moving_def)
qed

lemma run_safe_deleting:
  assumes "rings h R" "R q = Some xs"
  shows "\<exists>h'. run_safe (\<lambda>pos n. deleting pos) e (map Ref xs) h = Some h' \<and> rings h' (R(q \<mapsto> []))"
  using assms
proof (induction xs arbitrary: h R)
  case Nil
  then show ?case by (simp add: fun_upd_idem)
next
  case (Cons x xs)
  from deleting_first [OF Cons.prems] obtain h' where h': "deleting (Ref x) h = Some (False, h')" "rings h' (R(q \<mapsto> xs))" by blast
  from Cons.IH [OF h'(2) fun_upd_same] h'(1) show ?case by (simp only: fun_upd_upd) simp
qed

lemma run_safe_moving:
  assumes "rings h R" "R a = Some xs" "R b = Some ys" "a \<noteq> b"
  shows "\<exists>h'. run_safe (\<lambda>pos n. moving (Ref b) pos) e (map Ref xs) h = Some h' \<and>
           rings h' (R(a \<mapsto> [], b \<mapsto> ys @ xs))"
  using assms
proof (induction xs arbitrary: h R ys)
  case Nil
  then have "R(a \<mapsto> [], b \<mapsto> ys @ []) = R" by (auto simp: fun_eq_iff)
  with Nil.prems(1) show ?case by (simp only: list.map run_safe.simps) blast
next
  case (Cons x xs)
  from moving_first [OF Cons.prems] obtain h' where h': "moving (Ref b) (Ref x) h = Some (False, h')"
    "rings h' (R(a \<mapsto> xs, b \<mapsto> ys @ [x]))" by blast
  have "(R(a \<mapsto> xs, b \<mapsto> ys @ [x]))(a \<mapsto> [], b \<mapsto> (ys @ [x]) @ xs) = R(a \<mapsto> [], b \<mapsto> ys @ x # xs)"
    using Cons.prems(4) by (auto simp: fun_eq_iff)
  moreover have "(R(a \<mapsto> xs, b \<mapsto> ys @ [x])) a = Some xs" using Cons.prems(4) by simp
  ultimately have "\<exists>h2. run_safe (\<lambda>pos n. moving (Ref b) pos) e (map Ref xs) h' = Some h2 \<and>
      rings h2 (R(a \<mapsto> [], b \<mapsto> ys @ x # xs))"
    using Cons.IH [OF h'(2) _ fun_upd_same Cons.prems(4)] by (simp only:)
  with h'(1) show ?case by (simp del: fun_upd_apply)
qed

text \<open>C35: the body of \<open>list_for_each_safe\<close> may delete the current entry: deleting every
  entry empties the list, and the loop returns.  The plain \<open>list_for_each\<close> with the same body
  follows the null pointer that \<open>list_del\<close> has left in the entry.  With a body that moves
  every entry to the end of another list, the safe loop does what \<open>list_splice_tail_init\<close>
  does at once.\<close>

theorem list_for_each_safe_removes:
  assumes "rings h R" "R a = Some xs" "xs \<noteq> []" "R b = Some ys" "a \<noteq> b"
  shows "(\<exists>h'. list_for_each_safe (\<lambda>pos n. deleting pos) id (Ref a) h = Some h' \<and> rings h' (R(a \<mapsto> []))) \<and>
     list_for_each deleting id (Ref a) h = None \<and>
     (\<exists>h1 h2. list_for_each_safe (\<lambda>pos n. moving (Ref b) pos) id (Ref a) h = Some h1 \<and>
           list_splice_tail_init (Ref a) (Ref b) h = Some h2 \<and>
           rings h1 (R(a \<mapsto> [], b \<mapsto> ys @ xs)) \<and> rings h2 (R(a \<mapsto> [], b \<mapsto> ys @ xs)))"
proof (intro conjI)
  let ?Q = "\<lambda>xs h. \<exists>R. rings h R \<and> R a = Some xs"
  have "list_for_each_safe (\<lambda>pos n. deleting pos) id (Ref a) h = run_safe (\<lambda>pos n. deleting pos) (Ref a) (map Ref xs) h"
    by (rule list_for_each_safe_rings [where Q = ?Q]) (use assms deleting_first [of _ _ a] in \<open>fastforce+\<close>)
  then show "\<exists>h'. list_for_each_safe (\<lambda>pos n. deleting pos) id (Ref a) h = Some h' \<and> rings h' (R(a \<mapsto> []))"
    using run_safe_deleting [OF assms(1,2)] by simp
  let ?P = "\<lambda>xs h. \<exists>R ys. rings h R \<and> R a = Some xs \<and> R b = Some ys"
  have "list_for_each_safe (\<lambda>pos n. moving (Ref b) pos) id (Ref a) h =
      run_safe (\<lambda>pos n. moving (Ref b) pos) (Ref a) (map Ref xs) h"
  proof (rule list_for_each_safe_rings [where Q = ?P])
    show "?P xs t'" if P: "?P (x # xs) t" and m: "moving (Ref b) (Ref x) t = Some (False, t')" for x xs t t'
    proof -
      from P obtain R ys where "rings t R" "R a = Some (x # xs)" "R b = Some ys" by blast
      from moving_first [OF this assms(5)] m have "rings t' (R(a \<mapsto> xs, b \<mapsto> ys @ [x]))" by auto
      with assms(5) show ?thesis by fastforce
    qed
  qed (use assms in auto)
  then show "\<exists>h1 h2. list_for_each_safe (\<lambda>pos n. moving (Ref b) pos) id (Ref a) h = Some h1 \<and>
      list_splice_tail_init (Ref a) (Ref b) h = Some h2 \<and>
      rings h1 (R(a \<mapsto> [], b \<mapsto> ys @ xs)) \<and> rings h2 (R(a \<mapsto> [], b \<mapsto> ys @ xs))"
    using run_safe_moving [OF assms(1,2,4,5), of "Ref a"] list_splice_init_rings(2) [OF assms(1,2,4,5)] by metis
  from assms(3) obtain x zs where x: "xs = x # zs" by (cases xs) auto
  with deleting_first [OF assms(1), of a x zs] assms(2) obtain h' where h': "deleting (Ref x) h = Some (False, h')"
    "nxt h' x = NULL" by auto
  have "Ref x \<noteq> Ref a" using ringsD(3) [OF assms(1,2)] x by auto
  with h' get_next_head_rings [OF assms(1), of a x zs] assms(2) x
  show "list_for_each deleting id (Ref a) h = None"
    by (simp add: list_for_each_def list_for_each_from.simps [of _ _ _ "Ref x"]
        list_for_each_from.simps [of _ _ _ NULL] list_is_head_def deleting_def [of NULL]
        list_del_def [of NULL] raw_list_del_entry_def list_del_entry_valid_def)
qed

theorem list_for_each_safe_removes_witness:
  "\<exists>h h'. rings h [0 \<mapsto> [5], 1 \<mapsto> [6::nat]] \<and>
     list_for_each_safe (\<lambda>pos n. deleting pos) id (Ref 0) h = Some h' \<and> rings h' [0 \<mapsto> [], 1 \<mapsto> [6]]"
proof -
  have "rings self_heap [0 \<mapsto> [], 1 \<mapsto> ([]::nat list)]"
    by (auto simp: rings_def shape_def in_ring_def self_heap_def split: if_splits)
  moreover have n: "5 \<notin> nodes [0 \<mapsto> [], 1 \<mapsto> ([]::nat list)]" "6 \<notin> nodes [0 \<mapsto> [5], 1 \<mapsto> ([]::nat list)]"
    by (auto simp: not_in_nodes split: if_splits)
  ultimately obtain h1 where "rings h1 [0 \<mapsto> [5], 1 \<mapsto> ([]::nat list)]"
    using list_add_rings [OF _ _ n(1), of self_heap 0 "[]"] by (auto simp: fun_upd_twist)
  from list_add_rings [OF this _ n(2), of 1 "[]"] obtain h where h: "rings h [0 \<mapsto> [5], 1 \<mapsto> [6::nat]]" by auto
  from list_for_each_safe_removes [OF h, of 0 "[5]" 1 "[6]"] h show ?thesis
    by (auto simp: fun_upd_twist)
qed

text \<open>A body that records the entries.\<close>

definition visiting :: "'c \<Rightarrow> 'c list \<Rightarrow> (bool \<times> 'c list) option" where
  "visiting pos seen = Some (False, seen @ [pos])"

lemma run_visiting: "run_body visiting cs seen = Some (seen @ cs)"
  by (induction cs arbitrary: seen) (simp_all add: visiting_def)

text \<open>C36: the loop macros over the structures of a list.  The entries are the addresses that
  \<open>container_of\<close> computes from the nodes of the list.  Each loop returns, and its body sees
  every entry once: all of them, forwards or backwards, those behind or before a given
  entry \<open>p\<close>, and those from \<open>p\<close> on.\<close>

theorem entry_loops_visit:
  assumes "rings h R" "R q = Some (us @ p # vs)" "{0, off} \<inter> set (q # us @ p # vs) = {}"
  shows "list_for_each_entry (container_of off) (member_at off) visiting (\<lambda>_. h) (Ref q) [] =
       Some (map (container_of off \<circ> Ref) (us @ p # vs)) \<and>
     list_for_each_entry_reverse (container_of off) (member_at off) visiting (\<lambda>_. h) (Ref q) [] =
       Some (map (container_of off \<circ> Ref) (rev (us @ p # vs))) \<and>
     list_for_each_entry_continue (container_of off) (member_at off) visiting (\<lambda>_. h) (Ref q)
       (container_of off (Ref p)) [] = Some (map (container_of off \<circ> Ref) vs) \<and>
     list_for_each_entry_continue_reverse (container_of off) (member_at off) visiting (\<lambda>_. h) (Ref q)
       (container_of off (Ref p)) [] = Some (map (container_of off \<circ> Ref) (rev us)) \<and>
     list_for_each_entry_from (container_of off) (member_at off) visiting (\<lambda>_. h) (Ref q)
       (container_of off (Ref p)) [] = Some (map (container_of off \<circ> Ref) (p # vs)) \<and>
     list_for_each_entry_from_reverse (container_of off) (member_at off) visiting (\<lambda>_. h) (Ref q)
       (container_of off (Ref p)) [] = Some (map (container_of off \<circ> Ref) (p # rev us))"
proof -
  have N: "set (q # us @ p # vs) \<subseteq> {a. a \<noteq> 0 \<and> a \<noteq> off}" using assms(3) by auto
  show ?thesis
    using field.entry_loops_forward [where lh = "\<lambda>_. h" and body = visiting and s = "[]", OF assms(1,2) N]
      field.entry_loops_backward [where lh = "\<lambda>_. h" and body = visiting and s = "[]", OF assms(1,2) N]
    by (simp add: run_visiting visiting_def)
qed

theorem entry_loops_visit_witness:
  "\<exists>h. list_for_each_entry_reverse (container_of 8) (member_at 8) visiting (\<lambda>_. h) (Ref 0x20000000) [] =
     Some [Ref 0x20003000, Ref 0x20002000]"
proof -
  have "rings \<lparr>nxt = Ref, prv = Ref\<rparr> [0x20000000 \<mapsto> ([]::u32 list)]"
    by (auto simp: rings_def shape_def in_ring_def split: if_splits)
  moreover have n: "0x20002008 \<notin> nodes [0x20000000 \<mapsto> ([]::u32 list)]"
    "0x20003008 \<notin> nodes [0x20000000 \<mapsto> [0x20002008::u32]]"
    by (auto simp: not_in_nodes split: if_splits)
  ultimately obtain h1 where "rings h1 [0x20000000 \<mapsto> [0x20002008::u32]]"
    using list_add_tail_rings [OF _ _ n(1), of _ "0x20000000" "[]"] by fastforce
  from list_add_tail_rings [OF this _ n(2), of "0x20000000" "[0x20002008]"] obtain h
    where "rings h [0x20000000 \<mapsto> [0x20002008, 0x20003008::u32]]" by auto
  from entry_loops_visit [OF this, of "0x20000000" "[]" "0x20002008" "[0x20003008]" 8] show ?thesis
    by (auto simp: container_of_def ptr_word_def)
qed

section \<open>Hash tables\<close>

text \<open>the multiplicative hash of \<open>lib/hash.h\<close> loses nothing before it is cut to its
  high bits (distinct keys have distinct products), the cut value is an index below
  \<open>2 ^ bits\<close>, and the five bits of the semaphore table index its 32 buckets.\<close>

theorem hash_32_spread:
  "inj hash_32_generic \<and> (bits \<le> 32 \<longrightarrow> unat (hash_32 val bits) < 2 ^ bits) \<and>
   hash_min key (HASH_BITS 32) < 32"
proof (intro conjI impI)
  show "inj hash_32_generic" by (metis hash_32_generic_left_inverse injI)
qed (simp_all add: hash_32_bound hash_min_bound)

theorem hash_32_spread_witness: "unat (hash_32 0x20001000 5) < 32"
  using hash_32_spread [of 5 "0x20001000"] by simp

text \<open>Bodies that look for an entry and that record the entries.\<close>

lemma run_finding:
  "\<forall>c \<in> set cs. snd c \<noteq> NULL \<Longrightarrow>
   run_body (\<lambda>(b, pos). leaves_obj (\<lambda>pos s. Some (P pos, s)) pos) cs (NULL, s) =
     Some (case List.find (\<lambda>c. P (snd c)) cs of None \<Rightarrow> NULL | Some c \<Rightarrow> snd c, s)"
  by (induction cs) (auto simp: leaves_obj_def)

lemma run_collecting:
  "run_body (\<lambda>(b, pos). leaves_obj (\<lambda>pos seen. Some (False, seen @ [(b, pos)])) pos) cs (NULL, seen) =
     Some (NULL, seen @ cs)"
  by (induction cs arbitrary: seen) (auto simp: leaves_obj_def)

definition table_entries :: "u32 \<Rightarrow> (nat \<Rightarrow> u32 list) \<Rightarrow> nat \<Rightarrow> (nat \<times> u32 ptr) list" where
  "table_entries off B sz = concat (map (\<lambda>b. map (\<lambda>n. (b, container_of off (Ref n))) (B b)) [0..<sz])"

text \<open>C38: a loop over a table (\<open>hash_for_each\<close>) returns and visits every node of every bucket
  once, in the order of the buckets; a body that breaks at the first entry with some
  property leaves both loops there, so the cursor is that entry, or null when there is none.\<close>

theorem hash_for_each_visits:
  assumes "chains h B" "\<And>b. b < sz \<Longrightarrow> {0, off} \<inter> set (B b) = {}"
  shows "hash_for_each sz (container_of off) (member_at off)
       (\<lambda>b pos seen. Some (False, seen @ [(b, pos)])) (\<lambda>_. h) [] = Some (NULL, table_entries off B sz) \<and>
     hash_for_each sz (container_of off) (member_at off) (\<lambda>b pos s. Some (P pos, s)) (\<lambda>_. h) s =
       Some (case List.find (\<lambda>c. P (snd c)) (table_entries off B sz) of None \<Rightarrow> NULL | Some c \<Rightarrow> snd c, s)"
proof -
  have N: "set (B b) \<subseteq> {a. a \<noteq> 0 \<and> a \<noteq> off}" if "b < sz" for b using assms(2) [OF that] by auto
  have objects: "\<forall>c \<in> set (table_entries off B sz). snd c \<noteq> NULL"
    using N field.entry_object [of _ off] by (fastforce simp: table_entries_def)
  have "hash_for_each sz (container_of off) (member_at off) (\<lambda>b pos seen. Some (False, seen @ [(b, pos)])) (\<lambda>_. h) [] =
      run_body (\<lambda>(b, pos). leaves_obj (\<lambda>pos seen. Some (False, seen @ [(b, pos)])) pos) (table_entries off B sz) (NULL, [])"
    unfolding table_entries_def by (rule field.hash_for_each_chains) (use assms(1) N in simp_all)
  moreover have "hash_for_each sz (container_of off) (member_at off) (\<lambda>b pos s. Some (P pos, s)) (\<lambda>_. h) s =
      run_body (\<lambda>(b, pos). leaves_obj (\<lambda>pos s. Some (P pos, s)) pos) (table_entries off B sz) (NULL, s)"
    unfolding table_entries_def by (rule field.hash_for_each_chains) (use assms(1) N in simp_all)
  ultimately show ?thesis using run_finding [OF objects, of P s] by (simp add: run_collecting)
qed

theorem hash_for_each_visits_witness:
  "\<exists>h. hash_for_each 32 (container_of 16) (member_at 16) (\<lambda>b pos s. Some (True, s)) (\<lambda>_. h) (0::nat) =
     Some (Ref 0x20002000, 0)"
proof -
  have "chains \<lparr>hfirst = \<lambda>_. NULL, hnext = \<lambda>_. NULL, hpprev = \<lambda>_. NoSlot\<rparr> (\<lambda>b::nat. []::u32 list)"
    by (simp add: chains_def)
  from hlist_add_head_chains [OF this, of "0x20002010" 3] obtain h
    where h: "chains h (\<lambda>b. if b = (3::nat) then [0x20002010::u32] else [])" by (auto simp: fun_upd_def)
  have "List.find (\<lambda>c. True) (table_entries 16 (\<lambda>b. if b = 3 then [0x20002010] else []) 32) = Some (3, Ref 0x20002000)"
    by (simp add: table_entries_def upt_rec container_of_def ptr_word_def)
  with hash_for_each_visits [OF h, of 32 16 "\<lambda>_. True" "0::nat"] show ?thesis by auto
qed

text \<open>the conditional chain of \<open>const_ilog2\<close> in \<open>lib/log2.h\<close> is the integer
  logarithm: for every constant of 64 bits but zero it finds the highest set bit.\<close>

theorem const_ilog2_floor:
  assumes "0 < n" "n < 2 ^ 64"
  shows "2 ^ const_ilog2 n \<le> n \<and> n < 2 ^ Suc (const_ilog2 n)"
proof (cases "n < 2")
  case True
  with assms show ?thesis by (simp add: const_ilog2_def)
next
  case False
  show ?thesis
  proof (cases "List.find (\<lambda>k. n div 2 ^ k mod 2 = 1) (rev [2..<64])")
    case None
    from const_ilog2_none [OF None assms(2)] False None show ?thesis by (simp add: const_ilog2_def)
  next
    case (Some k)
    from const_ilog2_find [OF Some assms(2)] False Some show ?thesis by (simp add: const_ilog2_def)
  qed
qed

theorem const_ilog2_floor_witness: "2 ^ const_ilog2 32 \<le> (32::nat) \<and> 32 < (2::nat) ^ Suc (const_ilog2 32)"
  using const_ilog2_floor [of 32] by simp

text \<open>\<open>hash_add\<close> puts a node in front of the bucket of its key and changes no other
  bucket; \<open>hash_hashed\<close> then holds of it, and \<open>hash_del\<close> restores the table and leaves the
  node unhashed.\<close>

theorem hash_add_del:
  assumes B: "chains h B" and n: "\<And>c. n \<notin> set (B c)"
  shows "\<exists>h1 h2. hash_add sz (Ref n) key h = Some h1 \<and>
     chains h1 (B(hash_min key (HASH_BITS sz) := n # B (hash_min key (HASH_BITS sz)))) \<and>
     hash_hashed (Ref n) h1 = Some True \<and>
     hash_del (Ref n) h1 = Some h2 \<and> chains h2 B \<and> hash_hashed (Ref n) h2 = Some False"
proof -
  define b where "b = hash_min key (HASH_BITS sz)"
  from hlist_add_head_chains [OF B n] obtain h1
    where h1: "hlist_add_head (Ref n) b h = Some h1" "chains h1 (B(b := n # B b))" by blast
  have pp: "hpprev h1 n = FirstOf b" using chainsD(1) [OF h1(2), of b] by simp
  from hlist_del_init_chains [OF h1(2), of b "[]" n "B b"] obtain h2
    where h2: "hlist_del_init (Ref n) h1 = Some h2" "chains h2 B" "hpprev h2 n = NoSlot" by auto
  from h1 h2 pp show ?thesis unfolding b_def
    by (simp add: hash_add_def hash_del_def hash_hashed_def hlist_unhashed_def)
qed

theorem hash_add_del_witness:
  "\<exists>h1 h2. hash_add 32 (Ref (3::nat)) 0x20001000 \<lparr>hfirst = \<lambda>_. NULL, hnext = \<lambda>_. NULL, hpprev = \<lambda>_. NoSlot\<rparr> = Some h1 \<and>
     hash_hashed (Ref 3) h1 = Some True \<and> hash_del (Ref 3) h1 = Some h2 \<and> chains h2 (\<lambda>_. [])"
proof -
  from hash_add_del [OF no_chains, of 3 32 "0x20001000"] show ?thesis by fastforce
qed

text \<open>C39: a node that is in no hash list can be put in front of any entry (\<open>hlist_add_before\<close>) or
  behind it (\<open>hlist_add_behind\<close>): the list of that entry has it at that place, no other list
  changes, \<open>hlist_is_singular_node\<close> sees that it is not alone, and deleting it
  (\<open>hlist_del_init\<close>) restores every list.\<close>

theorem hlist_inserts:
  assumes B: "chains h B" and m: "B b = us @ m # vs" and n: "\<forall>c. n \<notin> set (B c)"
  shows "(\<exists>h1 h2. hlist_add_before (Ref n) (Ref m) h = Some h1 \<and> chains h1 (B(b := us @ n # m # vs)) \<and>
            hlist_is_singular_node (Ref n) b h1 = Some False \<and>
            hlist_del_init (Ref n) h1 = Some h2 \<and> chains h2 B) \<and>
     (\<exists>h1 h2. hlist_add_behind (Ref n) (Ref m) h = Some h1 \<and> chains h1 (B(b := us @ m # n # vs)) \<and>
            hlist_is_singular_node (Ref n) b h1 = Some False \<and>
            hlist_del_init (Ref n) h1 = Some h2 \<and> chains h2 B)"
proof -
  have rest: "hlist_is_singular_node (Ref n) b h1 = Some False \<and>
      (\<exists>h2. hlist_del_init (Ref n) h1 = Some h2 \<and> chains h2 B)"
    if h1: "chains h1 (B(b := xs @ n # ys))" and xs: "xs @ ys = us @ m # vs" for h1 xs ys
  proof -
    have "xs @ n # ys \<noteq> [n]" using xs by (cases xs) auto
    moreover have "B(b := xs @ ys) = B" using xs m by (simp add: fun_eq_iff)
    ultimately show ?thesis
      using hlist_is_singular_node_chains [OF h1, of n b] hlist_del_init_chains [OF h1, of b xs n ys] by auto
  qed
  show ?thesis
    using hlist_add_before_chains [OF B m] hlist_add_behind_chains [OF B m] n
      rest [of _ us "m # vs"] rest [of _ "us @ [m]" vs] by fastforce
qed

theorem hlist_inserts_witness:
  "\<exists>h h1 h2. hlist_add_behind (Ref 4) (Ref (3::nat)) h = Some h1 \<and> chains h1 ((\<lambda>_. [])(0::nat := [3, 4])) \<and>
     hlist_del_init (Ref 4) h1 = Some h2 \<and> chains h2 ((\<lambda>_. [])(0 := [3]))"
proof -
  obtain h where "chains h ((\<lambda>_. [])(0::nat := [3::nat]))"
    using hlist_add_head_chains [OF no_chains, of 3 0] by auto
  from hlist_inserts [OF this, of 0 "[]" 3 "[]" 4] show ?thesis by fastforce
qed

section \<open>Memory\<close>

text \<open>\<open>memset\<close> on a word-aligned area writes the byte to each of its \<open>size\<close> bytes, the
  words first and then the trailing bytes, and to no other.\<close>

theorem memset_spec:
  assumes "unat p mod 4 = 0"
  shows "memset p byte sz m = Some (\<lambda>a. if unat (a - p) < unat sz then byte else m a)"
  by (rule memset_fills [OF assms])

theorem memset_spec_witness:
  "memset 0x100 7 6 (\<lambda>_. 1) = Some (\<lambda>a. if unat (a - 0x100) < 6 then 7 else 1)"
  using memset_spec [of "0x100" 7 6 "\<lambda>_. 1"] by simp

text \<open>C40: \<open>memcpy\<close> between word-aligned areas that do not overlap copies each of the \<open>size\<close>
  bytes and changes no other; from or to an address that is not word-aligned, the copy of a
  word is an address error.\<close>

theorem memcpy_spec:
  "(unat p mod 4 = 0 \<and> unat p2 mod 4 = 0 \<and> (\<forall>i < unat sz. unat sz \<le> unat (p2 + of_nat i - p)) \<longrightarrow>
     memcpy p p2 sz m = Some (\<lambda>a. if unat (a - p) < unat sz then m (p2 + (a - p)) else m a)) \<and>
   ((unat p mod 4 \<noteq> 0 \<or> unat p2 mod 4 \<noteq> 0) \<and> 4 \<le> sz \<longrightarrow> memcpy p p2 sz m = None)"
proof -
  have "memcpy p p2 sz m = None" if al: "unat p mod 4 \<noteq> 0 \<or> unat p2 mod 4 \<noteq> 0" and sz: "4 \<le> sz"
  proof -
    define f where "f = (\<lambda>i m. do { w \<leftarrow> load32 (p2 + 4 * of_nat i) m; store32 (p + 4 * of_nat i) w m })"
    have fails: "for_upto (Suc n) f m = None" for n
      using al by (induction n) (auto simp: f_def load32_def store32_def split: option.splits)
    have "4 \<le> unat sz" using sz by (simp add: word_le_nat_alt)
    then obtain n where "unat sz div 4 = Suc n" by (metis Suc_pred' div_greater_zero_iff zero_less_numeral)
    then show ?thesis using fails [of n] by (simp add: memcpy_def f_def Let_def)
  qed
  then show ?thesis by (intro conjI impI memcpy_copies) auto
qed

theorem memcpy_spec_witness: "memcpy 0x100 0x202 8 (\<lambda>_. 0) = None"
  using memcpy_spec [of "0x100" "0x202" 8 "\<lambda>_. 0"] by simp

end
