(* ===== verification/Constants.thy ===== *)
theory Constants
  imports Example
begin

text \<open>
  The constants of \<open>lib/pandos_const.h\<close> that no function of the nucleus names: the layout of
  the processor's registers and of memory, the commands of the devices, and the numbers of the
  support level.  What the nucleus relies on is checked against them: its own numbers of the
  system calls, the bits of the lines and of the devices, and the machine of the examples.
\<close>

section \<open>Processor\<close>

text \<open>The address space, the bus registers, and the fields of the status and cause registers.\<close>

definition PAGESIZE :: u32 where "PAGESIZE = 4096"
definition TODLOADDR :: u32 where "TODLOADDR = 0x1000001C"
definition INTERVALTMR :: u32 where "INTERVALTMR = 0x10000020"
definition TIMESCALEADDR :: u32 where "TIMESCALEADDR = 0x10000024"
definition KSEG0 :: u32 where "KSEG0 = 0"
definition KSEG1 :: u32 where "KSEG1 = 0x20000000"
definition KSEG2 :: u32 where "KSEG2 = 0x40000000"
definition KUSEG :: u32 where "KUSEG = 0x80000000"
definition BIOSDATAPAGE :: u32 where "BIOSDATAPAGE = 0xFFFF000"
definition PASSUPVECTOR :: u32 where "PASSUPVECTOR = 0xFFFF900"
definition ALLOFF :: u32 where "ALLOFF = 0"
definition USERPON :: u32 where "USERPON = 0x8"
definition IEPON :: u32 where "IEPON = 0x4"
definition IECON :: u32 where "IECON = 0x1"
definition IMON :: u32 where "IMON = 0xFF00"
definition TEBITON :: u32 where "TEBITON = 0x8000000"
definition DISABLEINTS :: u32 where "DISABLEINTS = 0xFFFFFFFE"
definition GETEXECCODE :: u32 where "GETEXECCODE = 0x7C"
definition CLEAREXECCODE :: u32 where "CLEAREXECCODE = 0xFFFFFF00"
definition IOINTERRUPTS :: u32 where "IOINTERRUPTS = 0"
definition TLBINVLDL :: u32 where "TLBINVLDL = 2"
definition TLBINVLDS :: u32 where "TLBINVLDS = 3"
definition SYSEXCEPTION :: u32 where "SYSEXCEPTION = 8"
definition BREAKEXCEPTION :: u32 where "BREAKEXCEPTION = 9"
definition PRIVINSTR :: u32 where "PRIVINSTR = 10"
definition CAUSESHIFT :: nat where "CAUSESHIFT = 2"

section \<open>Address translation\<close>

text \<open>The entries of the translation buffer.\<close>

definition DIRTYON :: u32 where "DIRTYON = 0x400"
definition VALIDON :: u32 where "VALIDON = 0x200"
definition GLOBALON :: u32 where "GLOBALON = 0x100"
definition GETPAGENO :: u32 where "GETPAGENO = 0x3FFFF000"
definition GETSHAREFLAG :: u32 where "GETSHAREFLAG = 0xC0000000"
definition VPNSHIFT :: nat where "VPNSHIFT = 12"
definition ASIDSHIFT :: nat where "ASIDSHIFT = 6"
definition SHAREDSEGFLAG :: nat where "SHAREDSEGFLAG = 30"
definition PRESENTFLAG :: u32 where "PRESENTFLAG = 0x80000000"

section \<open>Devices\<close>

text \<open>The interrupt bitmap of a line, one bit for each device, and the commands.\<close>

definition DEV0ON :: u32 where "DEV0ON = 0x1"
definition DEV1ON :: u32 where "DEV1ON = 0x2"
definition DEV2ON :: u32 where "DEV2ON = 0x4"
definition DEV3ON :: u32 where "DEV3ON = 0x8"
definition DEV4ON :: u32 where "DEV4ON = 0x10"
definition DEV5ON :: u32 where "DEV5ON = 0x20"
definition DEV6ON :: u32 where "DEV6ON = 0x40"
definition DEV7ON :: u32 where "DEV7ON = 0x80"
definition OKCHARTRANS :: u32 where "OKCHARTRANS = 5"
definition TRANSMITCHAR :: u32 where "TRANSMITCHAR = 2"
definition SEEKTOCYL :: u32 where "SEEKTOCYL = 2"
definition DISKREAD :: u32 where "DISKREAD = 3"
definition DISKWRITE :: u32 where "DISKWRITE = 4"
definition FLASHREAD :: u32 where "FLASHREAD = 2"
definition FLASHWRITE :: u32 where "FLASHWRITE = 3"
definition BACKREAD :: u32 where "BACKREAD = 1"
definition BACKWRITE :: u32 where "BACKWRITE = 2"
definition INSTDEV_BITMPA :: u32 where "INSTDEV_BITMPA = 0x1000002C"

section \<open>System calls\<close>

text \<open>The numbers of the calls of the nucleus and of the support level.\<close>

definition CREATEPROCESS :: u32 where "CREATEPROCESS = 1"
definition TERMPROCESS :: u32 where "TERMPROCESS = 2"
definition PASSEREN :: u32 where "PASSEREN = 3"
definition VERHOGEN :: u32 where "VERHOGEN = 4"
definition DOIO :: u32 where "DOIO = 5"
definition GETTIME :: u32 where "GETTIME = 6"
definition CLOCKWAIT :: u32 where "CLOCKWAIT = 7"
definition GETSUPPORTPTR :: u32 where "GETSUPPORTPTR = 8"
definition GETPROCESSID :: u32 where "GETPROCESSID = 9"
definition GETCHILDREN :: u32 where "GETCHILDREN = 10"
definition WRITEPRINTER :: u32 where "WRITEPRINTER = 11"
definition WRITETERMINAL :: u32 where "WRITETERMINAL = 12"
definition READTERMINAL :: u32 where "READTERMINAL = 13"
definition DISK_GET :: u32 where "DISK_GET = 14"
definition DISK_PUT :: u32 where "DISK_PUT = 15"
definition FLASH_READ :: u32 where "FLASH_READ = 16"
definition FLASH_WRITE :: u32 where "FLASH_WRITE = 17"
definition DELAY :: u32 where "DELAY = 18"
definition PSEMVIRT :: u32 where "PSEMVIRT = 19"
definition VSEMVIRT :: u32 where "VSEMVIRT = 20"

section \<open>Processes and memory\<close>

text \<open>The user processes and the frames that the support level gives them.\<close>

definition MAXPROC :: nat where "MAXPROC = 20"
definition UPROCSTARTADDR :: u32 where "UPROCSTARTADDR = 0x800000B0"
definition USERSTACKTOP :: u32 where "USERSTACKTOP = 0xC0000000"
definition SHARED :: u32 where "SHARED = 0x3"
definition PRIVATE :: u32 where "PRIVATE = 0x2"
definition ON :: u32 where "ON = 1"
definition OFF :: u32 where "OFF = 0"
definition OK :: u32 where "OK = 0"
definition NOPROC :: u32 where "NOPROC = - 1"
definition BYTELENGTH :: nat where "BYTELENGTH = 8"
definition NEVER :: u32 where "NEVER = 0x7FFFFFFF"
definition SECOND :: u32 where "SECOND = 1000000"
definition STATESIZE :: u32 where "STATESIZE = 0x8C"
definition MAXSTRLENG :: u32 where "MAXSTRLENG = 128"
definition KUSEG3SECTNO :: u32 where "KUSEG3SECTNO = 0"
definition VMDISK :: u32 where "VMDISK = 0"
definition MAXPAGES :: u32 where "MAXPAGES = 32"
definition USERPGTBLSIZE :: u32 where "USERPGTBLSIZE = MAXPAGES"
definition OSFRAMES :: u32 where "OSFRAMES = 32"
definition UPROCMAX :: nat where "UPROCMAX = 8"
definition DELAYASID :: u32 where "DELAYASID = of_nat UPROCMAX + 1"
definition POOLSIZE :: nat where "POOLSIZE = UPROCMAX * 2"
definition DISKBACK :: u32 where "DISKBACK = 1"
definition FLASHBACK :: u32 where "FLASHBACK = 0"
definition BACKINGSTORE :: u32 where "BACKINGSTORE = FLASHBACK"

text \<open>\<open>DEVINTNUM\<close> and \<open>DEVPERINT\<close> are constants of uMPS3, the numbers of lines and of devices on a line.\<close>

definition DEVICECNT :: "nat \<Rightarrow> nat \<Rightarrow> nat" where
  "DEVICECNT devintnum devperint = devintnum * devperint"

definition FLASHPOOLSTART :: u32 where "FLASHPOOLSTART = RAMSTART + OSFRAMES * PAGESIZE"

definition DISKPOOLSTART :: "nat \<Rightarrow> u32" where
  "DISKPOOLSTART devperint = FLASHPOOLSTART + of_nat devperint * PAGESIZE"

definition FRAMEPOOLSTART :: "nat \<Rightarrow> u32" where
  "FRAMEPOOLSTART devperint = DISKPOOLSTART devperint + of_nat devperint * PAGESIZE"

section \<open>Agreement with the nucleus\<close>

text \<open>The numbers of \<open>def-syscall.h\<close>, which tests other names than those defined here.\<close>

lemma call_numbers_agree:
  "[SYSCALL_CREATEPROCESS, SYSCALL_TERMPROCESS, SYSCALL_PASSEREN, SYSCALL_VERHOGEN, SYSCALL_DOIO, SYSCALL_GETTIME,
    SYSCALL_CLOCKWAIT, SYSCALL_GETSUPPORTPTR, SYSCALL_GETPROCESSID, SYSCALL_GETCHILDREN] =
   [CREATEPROCESS, TERMPROCESS, PASSEREN, VERHOGEN, DOIO, GETTIME, CLOCKWAIT, GETSUPPORTPTR, GETPROCESSID, GETCHILDREN]"
  by (simp add: call_codes CREATEPROCESS_def TERMPROCESS_def PASSEREN_def VERHOGEN_def DOIO_def GETTIME_def
      CLOCKWAIT_def GETSUPPORTPTR_def GETPROCESSID_def GETCHILDREN_def)

lemma MAXPROC_agrees: "MAXPROC = MAX_PROC"
  by (simp add: MAXPROC_def MAX_PROC_def)

text \<open>The mask of \<open>interruptHandler\<close> leaves out the first of the eight lines and that of the network.\<close>

lemma interrupt_mask_lines: "IMON AND NOT interrupt_mask = 2 ^ 8 OR 2 ^ (NET_INTLINE + 8)"
  "interrupt_mask AND NOT IMON = 0"
  by (simp_all add: IMON_def interrupt_mask_def interrupt_lines NET_INTLINE_def)

lemma device_bits:
  assumes "i < 8"
  shows "[DEV0ON, DEV1ON, DEV2ON, DEV3ON, DEV4ON, DEV5ON, DEV6ON, DEV7ON] ! i = push_bit i 1"
proof -
  from assms consider "i = 0" | "i = 1" | "i = 2" | "i = 3" | "i = 4" | "i = 5" | "i = 6" | "i = 7" by linarith
  then show ?thesis
    by cases (simp_all add: DEV0ON_def DEV1ON_def DEV2ON_def DEV3ON_def DEV4ON_def DEV5ON_def DEV6ON_def DEV7ON_def)
qed

text \<open>The machine of the examples is the one described here.\<close>

lemma uMPS_constants:
  "CAUSE_GET_EXCCODE uMPS c = drop_bit CAUSESHIFT (c AND GETEXECCODE)" "EXC_INT uMPS = IOINTERRUPTS"
  "EXC_TLBL uMPS = TLBINVLDL" "EXC_TLBS uMPS = TLBINVLDS" "EXC_SYS uMPS = SYSEXCEPTION"
  "EXC_BP uMPS = BREAKEXCEPTION" "EXC_RI uMPS = PRIVINSTR" "STATUS_IEc uMPS = IECON" "STATUS_IEp uMPS = IEPON"
  "STATUS_TE uMPS = TEBITON" "STATUS_IM_MASK uMPS = IMON"
  by (simp_all add: uMPS_def CAUSESHIFT_def GETEXECCODE_def IOINTERRUPTS_def TLBINVLDL_def TLBINVLDS_def
      SYSEXCEPTION_def BREAKEXCEPTION_def PRIVINSTR_def IECON_def IEPON_def TEBITON_def IMON_def)

text \<open>The pools of frames follow the frames of the kernel, one after another.\<close>

lemma frame_pools:
  "KSEG1 = RAMSTART" "RAMSTART + OSFRAMES * PAGESIZE \<le> FLASHPOOLSTART"
  "FLASHPOOLSTART + 8 * PAGESIZE \<le> DISKPOOLSTART 8" "DISKPOOLSTART 8 + 8 * PAGESIZE \<le> FRAMEPOOLSTART 8"
  "FRAMEPOOLSTART 8 + of_nat POOLSIZE * PAGESIZE < KSEG2"
  by (simp_all add: KSEG1_def KSEG2_def RAMSTART_def OSFRAMES_def PAGESIZE_def FLASHPOOLSTART_def DISKPOOLSTART_def
      FRAMEPOOLSTART_def POOLSIZE_def UPROCMAX_def)

end
