(* ===== verification/Spec2Isabelle.thy ===== *)
theory Spec2Isabelle
  imports Device_Theorems Phase1_Theorems Lib_Theorems Constants
begin

text \<open>
  A verification of PandOS, a small kernel for the uMPS3 machine written in C.

  \<^bold>\<open>The program.\<close>  \<open>lib/\<close> holds the intrusive lists of the Linux kernel (\<open>list.h\<close>), hash
  tables over them (\<open>hashtable.h\<close>, \<open>hash.h\<close>, \<open>log2.h\<close>) and the types and constants.
  \<open>phase1/\<close> manages three pools of static descriptors: process control blocks with the process
  queues and the process tree (\<open>process.c\<close>), the active semaphore hash (\<open>semaphore.c\<close>) and
  namespaces (\<open>namespace.c\<close>).  \<open>phase2/\<close> is the nucleus: its start (\<open>nucleus.c\<close>), the
  scheduler (\<open>scheduler.c\<close>), the system calls (\<open>syscall.c\<close>), exceptions and timers
  (\<open>exceptions.c\<close>) and devices (\<open>devices.c\<close>).  A process runs until an exception;
  \<open>exceptionHandler\<close> serves it on the globals of the nucleus and leaves by loading a processor
  state, by waiting for an interrupt, or by stopping the machine.

  \<^bold>\<open>How the model corresponds to the code.\<close>  A pointer is a value of \<open>'a ptr\<close>, \<open>NULL\<close> or
  \<open>Ref n\<close>; a dereference of NULL, a misaligned or wild access and an index out of range make the
  result \<open>None\<close>.  The state of all lists is one heap of \<open>next\<close> and \<open>prev\<close> fields
  (\<open>lheap\<close>), whose nodes are the list heads and the link fields of the descriptors (\<open>lnode\<close>);
  each function of the code is a definition of the same name that changes this state.  Integers are
  32-bit words.  A function of the nucleus gives an outcome: \<open>Returns x s\<close>, or \<open>Exits e s\<close>
  when it leaves the nucleus by the event \<open>e\<close>.

  \<^item> \<open>Prelude\<close>, \<open>Interfaces\<close>: pointers, loops, collections of facts; the locales \<open>allocator\<close> (a pool
    of blocks), \<open>fifo\<close> (a queue) and \<open>transfer\<close> (draining one queue into another), which the components
    of phase 1 and the interval timer interpret.
  \<^item> \<open>Klist\<close>, \<open>ListRings\<close>: \<open>list.h\<close>.  \<open>rings h R\<close> says that
    the heap \<open>h\<close> holds exactly the circular lists \<open>R\<close>; every operation is shown to be an operation
    on \<open>R\<close>, those on whole lists (joining, cutting, swapping, rotating) in \<open>List_Laws\<close>.  \<open>Hlist\<close>,
    \<open>Hlist_Laws\<close>: the hash chains and tables.  \<open>List_Loops\<close>, \<open>Loop_Laws\<close>: the loop macros over lists, hash lists
    and tables, with \<open>container_of\<close> as the interface \<open>embedding\<close>.  \<open>Utils\<close>: \<open>memset\<close>, \<open>memcpy\<close>,
    the safe list operations.  \<open>Lib_Theorems\<close>: the properties of these.
  \<^item> \<open>Kernel_State\<close>, \<open>Process\<close>, \<open>Semaphore\<close>, \<open>Namespace\<close>, \<open>Phase1\<close>: the descriptors and
    the three components of phase 1.  \<open>ash s R A\<close> says that the hash holds the queues \<open>A\<close>, from
    semaphore addresses to lists of processes.  \<open>Phase1_Theorems\<close>: their properties.
  \<^item> \<open>Kernel\<close>, \<open>Scheduler\<close>, \<open>Sync\<close>, \<open>Devices\<close>, \<open>Syscall\<close>, \<open>Exceptions\<close>, \<open>Nucleus\<close>: the
    state of the nucleus (\<open>kernel\<close>: the globals, the memory, the timers), the machine parameters
    (\<open>machine\<close>), and the functions of phase 2.
  \<^item> \<open>Forest\<close>, \<open>Process_Tree\<close>, \<open>Invariant\<close>, \<open>Lifecycle\<close>: the process tree as a forest of
    \<open>ptree\<close>, and the invariant \<open>kinv s R A rq fs ts\<close>: the ready queue \<open>rq\<close>, the queues
    \<open>A\<close>, the free blocks \<open>fs\<close> and the forest \<open>ts\<close> describe the state, free and live processes
    share the table, every live process is current, ready or blocked, and \<open>g_process_count\<close> counts them.
    Creation and termination keep it.  \<open>kinv_but L\<close> is the invariant with the processes of \<open>L\<close>
    lost, in no queue.
  \<^item> \<open>Device_State\<close>: \<open>minv\<close> adds the devices to the invariant: a device is free, with nobody waiting for
    it, or it serves the one process that waits on its semaphore, or that process was terminated and
    \<open>sem_sync\<close> is -1.  \<open>running\<close>, \<open>waiting\<close>, \<open>idle\<close> and
    \<open>settled\<close> are the states between exceptions, \<open>safe\<close> the outcomes that lead to them; while no process
    runs, \<open>g_current_process\<close> is null or points to a free block, that of a process that was terminated
    (\<open>terminated_stays_current\<close>).  \<open>Ancestry\<close>: the trees of the invariant, read off the parent pointers of the table.
  \<^item> \<open>Safety\<close>, \<open>Children\<close>, \<open>Interrupts\<close>, \<open>Device_IO\<close>, \<open>Interrupt_Lines\<close>, \<open>Exception_Safety\<close>: each
    handler from a state of the invariant.  \<open>Boot\<close>: \<open>main\<close> establishes it.  \<open>Reachability\<close>: the step
    relation \<open>kstep\<close> of the whole machine, with any exception in any state, and what it reaches under a
    condition on the exceptions (\<open>reachable M I\<close>); \<open>regular\<close> runs are those in which they are \<open>allowed\<close>.
    \<open>Conformance\<close>: in the states of regular runs the
    pointers of the descriptors lead to descriptors in use.  \<open>Round_Robin\<close>: time slices one after another.
  \<^item> \<open>Sem_Spec\<close>: an abstract system of binary semaphores, refined by P and V.  \<open>Baton\<close>: the interrupt of
    a device for which another process waits.  \<open>Example\<close>: a concrete machine and states that it reaches,
    at which the theorems are applied.  \<open>Constants\<close>: the constants that the nucleus does not name, and
    their agreement with those that it does.  \<open>Kernel_Theorems\<close>, \<open>Process_Theorems\<close>, \<open>Device_Theorems\<close>: the properties of
    the nucleus.

  \<^bold>\<open>Bounds and fuel.\<close>  Loops over lists are \<open>partial_function (option)\<close>, so a loop that does not end is
  \<open>None\<close>; on rings they end.  The recursions over the process tree (\<open>addNamespace\<close>,
  \<open>terminateProcess\<close>, \<open>getChildsByNamespace\<close>) have the fuel \<open>MAX_PROC\<close>: a tree of distinct
  processes of the table is not deeper (\<open>height_MAX_PROC\<close>).  \<open>interruptHandler\<close> has the fuel 6, the
  number of lines of its mask: every call clears the bit of a line (\<open>interruptHandler_all\<close>).

  \<^bold>\<open>What is assumed.\<close>  \<open>machine_ok\<close>: the data of the kernel is word-aligned in the RAM and does not
  overlap, and a device has four registers.  The other assumptions are conditions on the state in which an
  exception arrives, written with its registers, the globals and the process table (\<open>exception_ok\<close>,
  \<open>interrupt_ok\<close>, together \<open>allowed\<close>): the semaphores of P and V are words outside the devices (\<open>user_sem\<close>),
  \<open>sysDoIO\<close> gets a device register and values in memory of the caller (\<open>io_arg\<close>), a process terminates itself
  or an ancestor (\<open>terminate_arg\<close>), and a device interrupts only when it was started, the process that it
  serves was not terminated and no process waits for its mutex (\<open>raised\<close>, \<open>irq_ready\<close>); the local timer
  interrupts only a process.  The invariant does not hold beyond them.  What the code does otherwise is
  shown in \<open>sysTerminateProcess_loses_caller\<close>, \<open>next_waiter_is_lost\<close>,
  \<open>terminated_operation_blocks\<close> and \<open>other_terminals_undefined\<close>.

  \<^bold>\<open>Interrupts of the scheduler.\<close>  The handler runs with interrupts off, so an exception is one step of
  \<open>kstep\<close>.  The scheduler enables them with \<open>setSTATUS\<close>, looks at the ready queue once more and executes
  \<open>WAIT\<close> (\<open>scheduler.c\<close>, lines 19 to 25); \<open>scheduler_loop\<close> runs to the \<open>WAIT\<close> without an interrupt.  One
  that comes between is a step of the mode \<open>Waiting\<close>: it has the effect of one that arrives in the \<open>WAIT\<close>
  when the last look comes after it and finds a process (rule \<open>resumes\<close>), and otherwise the \<open>WAIT\<close> misses it
  and waits for the next one, the race that the comment of the code names (rule \<open>early\<close>, mode
  \<open>Missed\<close>).  Regular runs have both.

  \<^bold>\<open>Not modelled.\<close>  The headers and the library of uMPS3 are not part of the repository: their constants
  are the fields of \<open>machine\<close>, \<open>LDST\<close>, \<open>LDCXT\<close>, \<open>HALT\<close>, \<open>PANIC\<close> and \<open>WAIT\<close> are events, and
  the processor state has the fields that the source names and the rest as an opaque function.  The processor
  states and support structures in memory are kept apart from the words of memory, so a process that
  overwrites its own saved state through an integer pointer is not described.
  \<open>uTLB_RefillHandler\<close> is part of the test program and is only an address.  The test programs,
  the build files, and the macros of \<open>lib/\<close> that expand
  to names the repository does not define (the \<open>rcu\<close> variants, \<open>container_of_safe\<close>) are left out.
\<close>

end
